(* ===== verification/Prelude.thy ===== *)
theory Prelude
  imports Main "HOL-Library.Word" "HOL-Library.Monad_Syntax"
begin

text \<open>
  Shared vocabulary of the development: the C integer types of an LP64 little-endian Linux
  target as machine words with the conversions the code performs between them, pointers and
  memory blocks, the windows of a ring array that both queues of the program use, and the
  reference function that finds a byte in a sequence of chunks.

  C code whose behaviour is undefined (an array access out of bounds, a dereference of a null
  or dangling pointer, a double free) is the value \<^term>\<open>None\<close> of an option: the theorems
  that an operation returns \<^term>\<open>Some\<close> are theorems that it does none of this.
\<close>

section \<open>Machine integers\<close>

type_synonym u8 = "8 word"
type_synonym u32 = "32 word"
type_synonym u64 = "64 word"

text \<open>
  \<open>int\<close> is a 32-bit two's-complement value: the kernel is built with wrapping signed
  arithmetic, so it is kept as a 32-bit word that \<open>sint\<close> reads. In the server, where signed
  overflow is undefined, the one product of two \<open>int\<close> that can overflow is guarded. \<open>size_t\<close>, \<open>ssize_t\<close>,
  \<open>loff_t\<close> and \<open>long\<close> are 64 bits wide.
\<close>

type_synonym cint = "32 word"
type_synonym byte = "8 word"

text \<open>Conversion of an \<open>int\<close> to \<open>size_t\<close> or \<open>loff_t\<close>: sign extension.\<close>

definition size_of_int :: "cint \<Rightarrow> u64" where
  "size_of_int i = scast i"

text \<open>Conversion of a \<open>size_t\<close> to \<open>int\<close>: the low 32 bits.\<close>

definition int_of_size :: "u64 \<Rightarrow> cint" where
  "int_of_size n = ucast n"

section \<open>Pointers and memory blocks\<close>

text \<open>
  A pointer to the start of an allocated block is \<open>Ptr a\<close>; pointer arithmetic is an offset
  kept beside it. The heap maps the live blocks of one owner to their bytes.
\<close>

datatype ptr = NULL | Ptr nat

type_synonym heap = "nat \<rightharpoonup> byte list"

text \<open>Reading \<open>n\<close> bytes at offset \<open>off\<close> of a block; reading no byte touches no memory.\<close>

definition mem_read :: "heap \<Rightarrow> ptr \<Rightarrow> nat \<Rightarrow> nat \<Rightarrow> byte list option" where
  "mem_read h p off n =
     (if n = 0 then Some []
      else case p of
        NULL \<Rightarrow> None
      | Ptr a \<Rightarrow> (case h a of
          None \<Rightarrow> None
        | Some bs \<Rightarrow> if off + n \<le> length bs then Some (take n (drop off bs)) else None))"

text \<open>Writing the bytes \<open>xs\<close> at offset \<open>off\<close> of a block.\<close>

definition mem_write :: "heap \<Rightarrow> ptr \<Rightarrow> nat \<Rightarrow> byte list \<Rightarrow> heap option" where
  "mem_write h p off xs =
     (if xs = [] then Some h
      else case p of
        NULL \<Rightarrow> None
      | Ptr a \<Rightarrow> (case h a of
          None \<Rightarrow> None
        | Some bs \<Rightarrow>
            if off + length xs \<le> length bs
            then Some (h(a \<mapsto> take off bs @ xs @ drop (off + length xs) bs))
            else None))"

text \<open>Releasing a block: nothing for a null pointer, undefined for a block that is not live.\<close>

definition mem_free :: "heap \<Rightarrow> ptr \<Rightarrow> heap option" where
  "mem_free h p =
     (case p of
        NULL \<Rightarrow> Some h
      | Ptr a \<Rightarrow> (case h a of None \<Rightarrow> None | Some _ \<Rightarrow> Some (h(a := None))))"

section \<open>Windows of a ring array\<close>

text \<open>
  The \<open>n\<close> elements of the array \<open>xs\<close> from index \<open>start\<close> on, wrapping at its end.
\<close>

definition ring_list :: "'a list \<Rightarrow> nat \<Rightarrow> nat \<Rightarrow> 'a list" where
  "ring_list xs start n = map (\<lambda>k. xs ! ((start + k) mod length xs)) [0..<n]"

text \<open>The last \<open>n\<close> elements of a list.\<close>

definition last_n :: "nat \<Rightarrow> 'a list \<Rightarrow> 'a list" where
  "last_n n xs = drop (length xs - n) xs"

section \<open>Locating a byte in a sequence of chunks\<close>

text \<open>
  Reference definition: the chunk that holds byte \<open>n\<close> of the concatenation, and the byte's
  offset in it, computed from the chunk lengths alone.
\<close>

fun locate :: "nat list \<Rightarrow> nat \<Rightarrow> (nat \<times> nat) option" where
  "locate [] n = None"
| "locate (s # ss) n =
     (if n < s then Some (0, n)
      else map_option (\<lambda>(k, off). (Suc k, off)) (locate ss (n - s)))"

named_theorems cint_simps \<open>conversions between the C integer types\<close>
named_theorems mem_simps \<open>reads, writes and releases of memory blocks\<close>
named_theorems ring_simps \<open>windows of a ring array under updates\<close>

section \<open>Lemmas on integers\<close>

lemma sint_small:
  assumes "unat i < 2 ^ 31"
  shows "sint (i :: cint) = int (unat i)"
proof -
  have "int (unat i) < int (2 ^ 31)" using assms by (simp only: of_nat_less_iff)
  then have "uint i < 2 ^ 31" by simp
  moreover have "- (2 ^ 31) \<le> uint i" by (rule order_trans [OF _ uint_ge_0]) simp
  ultimately have "signed_take_bit 31 (uint i) = uint i" by (intro signed_take_bit_int_eq_self)
  then show ?thesis by (simp add: sint_uint)
qed

lemma sint_pos_small: "unat i < 2 ^ 31 \<Longrightarrow> 0 < sint (i :: cint) \<longleftrightarrow> 0 < unat i"
  by (simp only: sint_small of_nat_0_less_iff)

lemma unat_size_of_int [cint_simps]: "unat i < 2 ^ 31 \<Longrightarrow> unat (size_of_int i) = unat i"
  by (simp add: size_of_int_def scast_eq sint_small unsigned_ucast_eq take_bit_nat_eq_self)

lemma unat_int_of_size [cint_simps]: "unat n < 2 ^ 32 \<Longrightarrow> unat (int_of_size n) = unat n"
  by (simp add: int_of_size_def unsigned_ucast_eq take_bit_nat_eq_self)

lemma unat_of_nat_u64 [cint_simps]: "n < 2 ^ 64 \<Longrightarrow> unat (of_nat n :: u64) = n"
  by (simp add: unat_of_nat take_bit_nat_eq_self)

lemma word_eq_of_nat: "unat (w :: u64) = n \<Longrightarrow> w = of_nat n"
  by auto

lemma size_of_int_minus_one [cint_simps]: "size_of_int (- 1) = - 1"
  by (simp add: size_of_int_def)

lemma size_of_int_0 [cint_simps]: "size_of_int 0 = 0"
  by (simp add: size_of_int_def)

lemma int_of_size_0 [cint_simps]: "int_of_size 0 = 0"
  by (simp add: int_of_size_def)

lemma unat_add_small [cint_simps]:
  "unat a + unat b < 2 ^ 64 \<Longrightarrow> unat ((a :: u64) + b) = unat a + unat b"
  by (simp add: unat_word_ariths)

text \<open>
  \<open>i += n\<close> with \<open>i\<close> an \<open>int\<close> and \<open>n\<close> a \<open>size_t\<close>: the sum is computed at the width
  of \<open>size_t\<close> and cut back; while it stays below $2^{31}$ this is exact.
\<close>

lemma unat_int_add_size [cint_simps]:
  assumes "unat i + unat n < 2 ^ 31"
  shows "unat (int_of_size (size_of_int i + n)) = unat i + unat n"
  using assms by (simp add: cint_simps)

section \<open>Lemmas on memory\<close>

lemma mem_read_live [mem_simps]:
  "h a = Some bs \<Longrightarrow> off + n \<le> length bs \<Longrightarrow> mem_read h (Ptr a) off n = Some (take n (drop off bs))"
  by (simp add: mem_read_def)

lemma mem_read_none [mem_simps]: "mem_read h p off 0 = Some []"
  by (simp add: mem_read_def)

lemma mem_write_live [mem_simps]:
  assumes "h a = Some bs" "off + length xs \<le> length bs"
  shows "mem_write h (Ptr a) off xs = Some (h(a \<mapsto> take off bs @ xs @ drop (off + length xs) bs))"
proof (cases "xs = []")
  case True
  have "h(a \<mapsto> bs) = h" using assms(1) by (simp add: fun_upd_idem)
  with True show ?thesis by (simp add: mem_write_def)
next
  case False
  with assms show ?thesis by (simp add: mem_write_def)
qed

lemma mem_free_live [mem_simps]: "h a = Some bs \<Longrightarrow> mem_free h (Ptr a) = Some (h(a := None))"
  by (simp add: mem_free_def)

lemma mem_free_NULL [mem_simps]: "mem_free h NULL = Some h"
  by (simp add: mem_free_def)

section \<open>Lemmas on ring windows\<close>

lemma length_ring_list [simp]: "length (ring_list xs s n) = n"
  by (simp add: ring_list_def)

lemma ring_list_0 [simp]: "ring_list xs s 0 = []"
  by (simp add: ring_list_def)

lemma nth_ring_list [ring_simps]: "k < n \<Longrightarrow> ring_list xs s n ! k = xs ! ((s + k) mod length xs)"
  by (simp add: ring_list_def)

lemma ring_index_inj:
  fixes len :: nat
  assumes "j < len" "k < len" "(s + j) mod len = (s + k) mod len"
  shows "j = k"
proof -
  have aux: "a = b" if "a \<le> b" "b < len" "(s + b) mod len = (s + a) mod len" for a b
  proof -
    have "len dvd b - a" using that mod_eq_dvd_iff_nat [of "s + a" "s + b" len] by simp
    moreover have "b - a < len" using that by simp
    ultimately show ?thesis using that(1) by (auto dest: dvd_imp_le)
  qed
  show ?thesis
    using aux [of j k] aux [of k j] assms by (cases "j \<le> k") auto
qed

lemma ring_list_Cons:
  "s < length xs \<Longrightarrow> ring_list xs s (Suc n) = xs ! s # ring_list xs (Suc s mod length xs) n"
  by (auto intro!: nth_equalityI simp: nth_ring_list nth_Cons mod_simps split: nat.splits)

lemma ring_list_snoc:
  "ring_list xs s (Suc n) = ring_list xs s n @ [xs ! ((s + n) mod length xs)]"
  by (simp add: ring_list_def)

text \<open>A store outside the window does not change it.\<close>

lemma ring_list_update_outside:
  assumes "n \<le> k" "k < length xs"
  shows "ring_list (xs[(s + k) mod length xs := x]) s n = ring_list xs s n"
proof (rule nth_equalityI)
  fix i assume "i < length (ring_list (xs[(s + k) mod length xs := x]) s n)"
  then have i: "i < n" by simp
  with assms ring_index_inj [of k "length xs" i s]
  have "(s + k) mod length xs \<noteq> (s + i) mod length xs" by auto
  with i show "ring_list (xs[(s + k) mod length xs := x]) s n ! i = ring_list xs s n ! i"
    by (simp add: nth_ring_list)
qed simp

text \<open>A store just behind a window that is not full extends it.\<close>

lemma ring_list_append [ring_simps]:
  assumes "n < length xs"
  shows "ring_list (xs[(s + n) mod length xs := x]) s (Suc n) = ring_list xs s n @ [x]"
proof -
  from assms have "(s + n) mod length xs < length xs" by (intro mod_less_divisor) auto
  with assms show ?thesis by (simp add: ring_list_snoc ring_list_update_outside)
qed

lemma ring_index_before:
  assumes "s < length xs" "length xs = Suc n"
  shows "(Suc s mod length xs + n) mod length xs = s"
proof -
  have "(Suc s mod length xs + n) mod length xs = (Suc s + n) mod length xs"
    by (rule mod_add_left_eq)
  also have "\<dots> = s" using assms by (metis add_Suc_shift mod_add_self2 mod_less)
  finally show ?thesis .
qed

text \<open>A store at the start of a full window that then advances drops the oldest element.\<close>

lemma ring_list_overwrite [ring_simps]:
  assumes "s < length xs"
  shows "ring_list (xs[s := x]) (Suc s mod length xs) (length xs)
    = tl (ring_list xs s (length xs)) @ [x]"
proof -
  obtain n where n: "length xs = Suc n" using assms by (cases "length xs") auto
  then have "n < length xs" by simp
  from ring_list_append [OF this, of "Suc s mod length xs" x]
  have "ring_list (xs[s := x]) (Suc s mod length xs) (Suc n)
      = ring_list xs (Suc s mod length xs) n @ [x]"
    by (simp only: ring_index_before [OF assms n])
  moreover have "tl (ring_list xs s (length xs)) = ring_list xs (Suc s mod length xs) n"
    using assms n by (simp add: ring_list_Cons)
  ultimately show ?thesis using n by simp
qed

text \<open>Clearing the slot that was just left behind does not change the rest of the window.\<close>

lemma ring_list_clear_first [ring_simps]:
  assumes "s < length xs" "n < length xs"
  shows "ring_list (xs[s := x]) (Suc s mod length xs) n = ring_list xs (Suc s mod length xs) n"
proof -
  obtain m where m: "length xs = Suc m" using assms by (cases "length xs") auto
  have "n \<le> m" "m < length xs" using assms m by simp_all
  from ring_list_update_outside [OF this, of "Suc s mod length xs" x]
  show ?thesis by (simp only: ring_index_before [OF assms(1) m])
qed

text \<open>The full window is the array rotated.\<close>

lemma ring_list_full: "ring_list xs s (length xs) = rotate s xs"
  by (rule nth_equalityI) (simp_all add: nth_ring_list nth_rotate add.commute)

section \<open>Lemmas on locating a byte\<close>

lemma locate_None: "locate ss n = None \<longleftrightarrow> sum_list ss \<le> n"
  by (induction ss n rule: locate.induct) auto

lemma locate_step:
  assumes "k < length ss" "sum_list (take k ss) \<le> n" "n < sum_list (take k ss) + ss ! k"
  shows "locate ss n = Some (k, n - sum_list (take k ss))"
  using assms
proof (induction ss arbitrary: k n)
  case (Cons s ss)
  show ?case
  proof (cases k)
    case (Suc j)
    have "locate ss (n - s) = Some (j, n - s - sum_list (take j ss))"
      using Cons.prems Suc by (intro Cons.IH) auto
    with Cons.prems Suc show ?thesis by auto
  qed (use Cons.prems in auto)
qed simp

lemma locate_SomeD:
  assumes "locate ss n = Some (k, off)"
  shows "k < length ss" "off < ss ! k" "n = sum_list (take k ss) + off"
  using assms
  by (induction ss n arbitrary: k off rule: locate.induct) (fastforce split: if_splits)+

text \<open>The located chunk and offset are where the byte is in the concatenation.\<close>

lemma locate_drop_concat:
  assumes "locate (map length xss) n = Some (k, off)"
  shows "drop n (concat xss) = drop off (xss ! k) @ concat (drop (Suc k) xss)"
  using assms
proof (induction xss arbitrary: n k)
  case (Cons xs xss)
  then show ?case by (cases "n < length xs") fastforce+
qed simp

lemma sum_take_Suc: "k < length ss \<Longrightarrow> sum_list (take (Suc k) ss) = sum_list (take k ss) + (ss ! k :: nat)"
  by (simp add: take_Suc_conv_app_nth)

lemma sum_take_le: "sum_list (take k ss) \<le> sum_list (ss :: nat list)"
  by (metis append_take_drop_id le_add1 sum_list_append)

lemma locate_zeros: "locate (ss @ replicate k 0) n = locate ss n"
proof -
  have "locate (replicate k 0) m = None" for m by (simp add: locate_None sum_list_replicate)
  then show ?thesis by (induction ss n rule: locate.induct) auto
qed

end
