(* ===== verification/Interfaces.thy ===== *)
theory Interfaces
  imports Prelude
begin

text \<open>
  The contracts that the containers of the program fulfil, as locales over the operations a
  client calls and the list that is held. \<open>bounded_log\<close> is a log of fixed capacity that
  drops its oldest element when it is full; the circular buffer of the character driver is one.
  \<open>bounded_fifo\<close> is a queue of fixed capacity that refuses elements when it is full; the command
  queue of the server is one. \<open>simulation\<close> relates a step function to its specification, and
  \<open>monitored\<close> is a step function all of whose recorded calls are acceptable.
\<close>

section \<open>Sequences of steps\<close>

text \<open>A sequence of operations: the values returned and the final state.\<close>

fun run_seq :: "('s \<Rightarrow> 'a \<Rightarrow> ('r \<times> 's) option) \<Rightarrow> 's \<Rightarrow> 'a list \<Rightarrow> ('r list \<times> 's) option" where
  "run_seq add s [] = Some ([], s)"
| "run_seq add s (x # xs) = do {
     (r, s') \<leftarrow> add s x;
     (rs, s'') \<leftarrow> run_seq add s' xs;
     Some (r # rs, s'')
   }"

section \<open>Bounded logs\<close>

locale bounded_log =
  fixes add :: "'s \<Rightarrow> 'a \<Rightarrow> ('r \<times> 's) option"
    and content :: "'s \<Rightarrow> 'a list"
    and invar :: "'s \<Rightarrow> bool"
    and cap :: nat
    and evict :: "'a \<Rightarrow> 'r"
    and nothing :: "'r"
  assumes cap_pos: "0 < cap"
    and content_bound: "invar s \<Longrightarrow> length (content s) \<le> cap"
    and add_room: "invar s \<Longrightarrow> length (content s) < cap \<Longrightarrow>
      \<exists>s'. add s x = Some (nothing, s') \<and> invar s' \<and> content s' = content s @ [x]"
    and add_full: "invar s \<Longrightarrow> length (content s) = cap \<Longrightarrow>
      \<exists>s'. add s x = Some (evict (hd (content s)), s') \<and> invar s' \<and>
           content s' = tl (content s) @ [x]"
begin

text \<open>
  One addition, as an operation on the list: the element goes to the end, and the call hands
  back the one that falls out at the front, if there is one.
\<close>

lemma add_conserves:
  assumes "invar s"
  shows "\<exists>gone s'. add s x = Some (if gone = [] then nothing else evict (hd gone), s') \<and> invar s' \<and>
    content s @ [x] = gone @ content s' \<and> length gone \<le> 1 \<and>
    length gone = Suc (length (content s)) - cap"
proof (cases "length (content s) < cap")
  case True
  from add_room [OF assms True, of x] show ?thesis
    using True by (intro exI [of _ "[]"]) auto
next
  case False
  with content_bound [OF assms] have full: "length (content s) = cap" by simp
  with cap_pos obtain c cs where c: "content s = c # cs" by (cases "content s") auto
  from add_full [OF assms full, of x] full show ?thesis
    by (intro exI [of _ "[c]"]) (auto simp: c)
qed

text \<open>
  A history of additions is conserved: what was held before and what was added is, in order,
  what the calls handed back and what is held at the end.
\<close>

lemma log_run_conserves:
  assumes "invar s"
  shows "\<exists>gone s'. run_seq add s xs = Some (replicate (length xs - length gone) nothing
             @ map evict gone, s')
           \<and> invar s' \<and> content s @ xs = gone @ content s'
           \<and> length gone \<le> length xs
           \<and> length gone = length (content s) + length xs - cap"
  using assms
proof (induction xs arbitrary: s)
  case Nil
  then show ?case using content_bound [OF Nil] by auto
next
  case (Cons x xs)
  show ?case
  proof (cases "length (content s) < cap")
    case True
    from add_room [OF Cons.prems True, of x] obtain s1 where
      s1: "add s x = Some (nothing, s1)" "invar s1" "content s1 = content s @ [x]" by blast
    from Cons.IH [OF s1(2)] obtain gone s' where
      g: "run_seq add s1 xs
            = Some (replicate (length xs - length gone) nothing @ map evict gone, s')"
        "invar s'" "content s1 @ xs = gone @ content s'" "length gone \<le> length xs"
        "length gone = length (content s1) + length xs - cap" by blast
    have "length (x # xs) - length gone = Suc (length xs - length gone)" using g(4) by simp
    with s1 g show ?thesis by (intro exI [of _ gone] exI [of _ s']) auto
  next
    case False
    with content_bound [OF Cons.prems] have full: "length (content s) = cap" by simp
    from add_full [OF Cons.prems full, of x] obtain s1 where
      s1: "add s x = Some (evict (hd (content s)), s1)" "invar s1"
        "content s1 = tl (content s) @ [x]" by blast
    from Cons.IH [OF s1(2)] obtain gone s' where
      g: "run_seq add s1 xs
            = Some (replicate (length xs - length gone) nothing @ map evict gone, s')"
        "invar s'" "content s1 @ xs = gone @ content s'" "length gone \<le> length xs"
        "length gone = length (content s1) + length xs - cap" by blast
    from full cap_pos obtain c cs where c: "content s = c # cs" by (cases "content s") auto
    from g(5) s1(3) full cap_pos have "length gone = length xs" by simp
    with s1 g full c show ?thesis by (intro exI [of _ "c # gone"] exI [of _ s']) auto
  qed
qed

lemma log_run_last_n:
  assumes "invar s"
  shows "\<exists>rs s'. run_seq add s xs = Some (rs, s') \<and> invar s'
           \<and> content s' = last_n cap (content s @ xs)"
proof -
  from log_run_conserves [OF assms, of xs] obtain gone s' rs where
    g: "run_seq add s xs = Some (rs, s')" "invar s'" "content s @ xs = gone @ content s'"
      "length gone = length (content s) + length xs - cap" by blast
  have "length (content s @ xs) - cap = length gone" using g(4) by simp
  then have "last_n cap (content s @ xs) = content s'" by (simp add: last_n_def g(3))
  with g show ?thesis by auto
qed

end

section \<open>Bounded queues\<close>

text \<open>
  Sequences of requests to a queue: \<open>Some x\<close> offers an element, \<open>None\<close> asks for one. The
  result is the elements accepted, the elements delivered and the final state.
\<close>

fun fifo_run :: "('a \<Rightarrow> 's \<Rightarrow> bool \<times> 's) \<Rightarrow> ('s \<Rightarrow> 'a option \<times> 's) \<Rightarrow> 's \<Rightarrow> 'a option list \<Rightarrow>
    'a list \<times> 'a list \<times> 's" where
  "fifo_run put get s [] = ([], [], s)"
| "fifo_run put get s (Some x # rs) =
     (let (ok, s') = put x s; (ins, outs, s'') = fifo_run put get s' rs
      in (if ok then x # ins else ins, outs, s''))"
| "fifo_run put get s (None # rs) =
     (let (r, s') = get s; (ins, outs, s'') = fifo_run put get s' rs
      in (ins, case r of None \<Rightarrow> outs | Some x \<Rightarrow> x # outs, s''))"

locale bounded_fifo =
  fixes put :: "'a \<Rightarrow> 's \<Rightarrow> bool \<times> 's"
    and get :: "'s \<Rightarrow> 'a option \<times> 's"
    and content :: "'s \<Rightarrow> 'a list"
    and invar :: "'s \<Rightarrow> bool"
    and cap :: nat
  assumes bound: "invar s \<Longrightarrow> length (content s) \<le> cap"
    and put_room: "invar s \<Longrightarrow> length (content s) < cap \<Longrightarrow>
      \<exists>s'. put x s = (True, s') \<and> invar s' \<and> content s' = content s @ [x]"
    and put_full: "invar s \<Longrightarrow> length (content s) = cap \<Longrightarrow> put x s = (False, s)"
    and get_empty: "invar s \<Longrightarrow> content s = [] \<Longrightarrow> get s = (None, s)"
    and get_first: "invar s \<Longrightarrow> content s = x # xs \<Longrightarrow>
      \<exists>s'. get s = (Some x, s') \<and> invar s' \<and> content s' = xs"
begin

lemma put_cases:
  assumes "invar s"
  obtains s' where "put x s = (True, s')" "invar s'" "content s' = content s @ [x]"
      "length (content s) < cap"
  | "put x s = (False, s)" "length (content s) = cap"
  using put_room [OF assms, of x] put_full [OF assms, of x] bound [OF assms]
  by (cases "length (content s) < cap") auto

lemma get_cases:
  assumes "invar s"
  obtains "get s = (None, s)" "content s = []"
  | x s' where "get s = (Some x, s')" "invar s'" "content s = x # content s'"
  using get_empty [OF assms] get_first [OF assms] by (cases "content s") auto

text \<open>
  Whatever the requests, elements leave in the order they were accepted, none is lost and none
  is made up: held before, then accepted, is delivered, then still held.
\<close>

lemma fifo_conserves:
  assumes "invar s" "fifo_run put get s rs = (ins, outs, s')"
  shows "invar s' \<and> content s @ ins = outs @ content s'"
  using assms
proof (induction rs arbitrary: s ins outs)
  case (Cons r rs)
  show ?case
  proof (cases r)
    case None
    from Cons.prems(1) show ?thesis
    proof (cases rule: get_cases)
      case 1
      with Cons.IH [OF Cons.prems(1), of ins outs] Cons.prems(2) None show ?thesis
        by (auto simp: Let_def split: prod.splits)
    next
      case (2 x s1)
      with Cons.prems(2) None obtain outs1 where
        "fifo_run put get s1 rs = (ins, outs1, s')" "outs = x # outs1"
        by (auto simp: Let_def split: prod.splits)
      with Cons.IH [OF 2(2)] 2 show ?thesis by auto
    qed
  next
    case (Some x)
    from Cons.prems(1) show ?thesis
    proof (cases rule: put_cases [of _ x])
      case (1 s1)
      with Cons.prems(2) Some obtain ins1 where
        "fifo_run put get s1 rs = (ins1, outs, s')" "ins = x # ins1"
        by (auto simp: Let_def split: prod.splits)
      with Cons.IH [OF 1(2)] 1 show ?thesis by auto
    next
      case 2
      with Cons.IH [OF Cons.prems(1), of ins outs] Cons.prems(2) Some show ?thesis
        by (auto simp: Let_def split: prod.splits)
    qed
  qed
qed auto

end

section \<open>Simulation\<close>

text \<open>
  A step function that gives the same answers as its specification, undefined exactly when the
  specification is.
\<close>

locale simulation =
  fixes cstep :: "'s \<Rightarrow> 'i \<Rightarrow> ('o \<times> 's) option"
    and astep :: "'a \<Rightarrow> 'i \<Rightarrow> ('o \<times> 'a) option"
    and rel :: "'s \<Rightarrow> 'a \<Rightarrow> bool"
  assumes sim_None: "rel s a \<Longrightarrow> cstep s i = None \<Longrightarrow> astep a i = None"
    and sim_Some: "rel s a \<Longrightarrow> cstep s i = Some (r, s') \<Longrightarrow> \<exists>a'. astep a i = Some (r, a') \<and> rel s' a'"
begin

lemma run_sim:
  assumes "rel s a"
  shows "(run_seq cstep s xs = None \<longrightarrow> run_seq astep a xs = None) \<and>
    (\<forall>rs s'. run_seq cstep s xs = Some (rs, s') \<longrightarrow>
       (\<exists>a'. run_seq astep a xs = Some (rs, a') \<and> rel s' a'))"
  using assms
proof (induction xs arbitrary: s a)
  case (Cons x xs)
  show ?case
  proof (cases "cstep s x")
    case None
    with sim_None [OF Cons.prems] show ?thesis by simp
  next
    case (Some rs)
    obtain r s1 where rs: "rs = (r, s1)" by (cases rs)
    from sim_Some [OF Cons.prems Some [unfolded rs]] obtain a1 where
      a1: "astep a x = Some (r, a1)" "rel s1 a1" by blast
    from Cons.IH [OF a1(2)] a1(1) Some rs show ?thesis
      by (cases "run_seq cstep s1 xs") auto
  qed
qed simp

end

section \<open>Monitored calls\<close>

text \<open>
  A step function whose steps append acceptable sequences of calls to a trace; acceptable
  sequences follow each other.
\<close>

locale monitored =
  fixes step :: "'s \<Rightarrow> 'i \<Rightarrow> ('o \<times> 's) option"
    and trace :: "'s \<Rightarrow> 'e list"
    and good :: "'e list \<Rightarrow> bool"
  assumes good_Nil: "good []"
    and good_append: "good xs \<Longrightarrow> good ys \<Longrightarrow> good (xs @ ys)"
    and step_good: "step s i = Some (r, s') \<Longrightarrow> \<exists>new. trace s' = trace s @ new \<and> good new"
begin

lemma run_good:
  assumes "run_seq step s xs = Some (rs, s')"
  shows "\<exists>new. trace s' = trace s @ new \<and> good new"
  using assms
proof (induction xs arbitrary: s rs)
  case Nil
  then show ?case using good_Nil by auto
next
  case (Cons x xs)
  then obtain r s1 rs1 where s1: "step s x = Some (r, s1)" "run_seq step s1 xs = Some (rs1, s')"
    by (auto split: bind_splits)
  from step_good [OF s1(1)] Cons.IH [OF s1(2)] good_append show ?case by fastforce
qed

end

section \<open>Event loops\<close>

text \<open>
  A loop that handles one event per round until a round says stop; the result says whether it
  still waits for events. The events are admitted when each is acceptable in the state in which
  the loop meets it.
\<close>

fun until_stop :: "('e \<Rightarrow> 's \<Rightarrow> (bool \<times> 's) option) \<Rightarrow> 'e list \<Rightarrow> 's \<Rightarrow> (bool \<times> 's) option" where
  "until_stop f [] s = Some (True, s)"
| "until_stop f (e # es) s = do {
     (go, s1) \<leftarrow> f e s;
     if go then until_stop f es s1 else Some (False, s1)
   }"

fun admitted :: "('e \<Rightarrow> 's \<Rightarrow> (bool \<times> 's) option) \<Rightarrow> ('e \<Rightarrow> 's \<Rightarrow> bool) \<Rightarrow> 'e list \<Rightarrow> 's \<Rightarrow> bool" where
  "admitted f ok [] s \<longleftrightarrow> True"
| "admitted f ok (e # es) s \<longleftrightarrow> ok e s \<and>
     (case f e s of Some (True, s1) \<Rightarrow> admitted f ok es s1 | _ \<Rightarrow> True)"

locale event_loop =
  fixes step :: "'e \<Rightarrow> 's \<Rightarrow> (bool \<times> 's) option"
    and ok :: "'e \<Rightarrow> 's \<Rightarrow> bool"
    and invar :: "'s \<Rightarrow> bool"
  assumes step_ok: "invar s \<Longrightarrow> ok e s \<Longrightarrow> \<exists>go s'. step e s = Some (go, s') \<and> invar s'"
begin

lemma loop_defined:
  assumes "invar s" "admitted step ok es s"
  shows "\<exists>w s'. until_stop step es s = Some (w, s') \<and> invar s'"
  using assms
proof (induction es arbitrary: s)
  case (Cons e es)
  then obtain go s1 where s1: "step e s = Some (go, s1)" "invar s1" using step_ok [of s e] by auto
  show ?case
  proof (cases go)
    case True
    with Cons.prems(2) s1(1) have "admitted step ok es s1" by simp
    from Cons.IH [OF s1(2) this] s1(1) True show ?thesis by simp
  qed (use s1 in auto)
qed auto

end

section \<open>Runs with a potential\<close>

text \<open>
  The runs of a step relation, and steps that pay for their cost with a potential of the state: the
  cost of a run is at most what its inputs bring in and the potential it starts with. The invariant may depend on
  a value \<open>x\<close> that describes the state.
\<close>

inductive run_of :: "('s \<Rightarrow> 'i \<Rightarrow> 's \<Rightarrow> bool) \<Rightarrow> 's \<Rightarrow> 'i list \<Rightarrow> 's \<Rightarrow> bool" for step s where
  run_start: "run_of step s [] s"
| run_step: "run_of step s acts s1 \<Longrightarrow> step s1 i s2 \<Longrightarrow> run_of step s (acts @ [i]) s2"

locale amortized =
  fixes step :: "'s \<Rightarrow> 'i \<Rightarrow> 's \<Rightarrow> bool"
    and invar :: "'s \<Rightarrow> 'x \<Rightarrow> bool"
    and potential :: "'s \<Rightarrow> 'x \<Rightarrow> nat"
    and cost :: "'i \<Rightarrow> nat"
    and gain :: "'i \<Rightarrow> nat"
  assumes step_pays: "invar s x \<Longrightarrow> step s i s' \<Longrightarrow> \<exists>y. invar s' y \<and> cost i + potential s' y \<le> gain i + potential s x"
begin

lemma run_pays:
  assumes "run_of step s acts s'" "invar s x"
  shows "\<exists>y. invar s' y \<and> sum_list (map cost acts) + potential s' y \<le> sum_list (map gain acts) + potential s x"
  using assms
proof induction
  case (run_step acts s1 i s2)
  then obtain y where y: "invar s1 y" "sum_list (map cost acts) + potential s1 y \<le> sum_list (map gain acts) + potential s x"
    by blast
  from step_pays [OF y(1) run_step.hyps(2)] obtain z where
    "invar s2 z" "cost i + potential s2 z \<le> gain i + potential s1 y" by blast
  with y(2) show ?case by (intro exI [of _ z]) simp
qed auto

end

end
