(* ===== verification/CircularBuffer.thy ===== *)
theory CircularBuffer
  imports Interfaces
begin

text \<open>
  The circular buffer of write commands, \<open>aesd-char-driver/aesd-circular-buffer.c\<close> and its
  header: ten entries, each a pointer to a command and its length, filled at \<open>in_offs\<close> and
  read from \<open>out_offs\<close>. The function-static flag \<open>hasBufferBeenFilled\<close> of
  \<open>aesd_circular_buffer_add_entry\<close> is a part of the state that the operation takes and
  returns.

  Shown: adding entries keeps the last ten in order and hands back the pointer it evicts;
  looking a position up finds the entry that holds it; every access stays inside the array;
  on an empty buffer the lookup fails to report that the position does not exist.
\<close>

section \<open>Definitions\<close>

definition AESDCHAR_MAX_WRITE_OPERATIONS_SUPPORTED :: nat where
  "AESDCHAR_MAX_WRITE_OPERATIONS_SUPPORTED = 10"

record aesd_buffer_entry =
  buffptr :: ptr
  esize :: u64

record aesd_circular_buffer =
  entry :: "aesd_buffer_entry list"
  in_offs :: u8
  out_offs :: u8
  full :: bool

text \<open>The entry and the buffer that \<open>memset(..., 0, ...)\<close> leaves.\<close>

definition zero_entry :: aesd_buffer_entry where
  "zero_entry = \<lparr>buffptr = NULL, esize = 0\<rparr>"

definition aesd_circular_buffer_init :: aesd_circular_buffer where
  "aesd_circular_buffer_init =
     \<lparr>entry = replicate AESDCHAR_MAX_WRITE_OPERATIONS_SUPPORTED zero_entry,
      in_offs = 0, out_offs = 0, full = False\<rparr>"

subsection \<open>Looking a position up\<close>

text \<open>
  What the lookup returns: a null pointer, or the index of the entry that is pointed to
  together with the value stored through \<open>entry_offset_byte_rtn\<close>, if that is not null.
\<close>

datatype find_result = NotFound | Found nat "u64 option"

text \<open>
  The search loop, from its variables \<open>numCharsInBuffer\<close>, \<open>prevNumCharsInBuffer\<close>,
  \<open>entryIndex\<close> and \<open>entriesProcessed\<close>, to the first three at its end.
\<close>

function find_entry_loop ::
    "aesd_circular_buffer \<Rightarrow> u64 \<Rightarrow> cint \<Rightarrow> cint \<Rightarrow> nat \<Rightarrow> nat \<Rightarrow> (cint \<times> cint \<times> nat) option" where
  "find_entry_loop buffer char_offset numChars prevNumChars entryIndex entriesProcessed =
     (if entriesProcessed < AESDCHAR_MAX_WRITE_OPERATIONS_SUPPORTED then
        (if entryIndex < length (entry buffer) then
           (let numChars' = int_of_size (size_of_int numChars + esize (entry buffer ! entryIndex))
            in if size_of_int numChars' > char_offset then Some (numChars', numChars, entryIndex)
               else find_entry_loop buffer char_offset numChars' numChars
                      (if entryIndex + 1 = AESDCHAR_MAX_WRITE_OPERATIONS_SUPPORTED
                       then 0 else entryIndex + 1)
                      (entriesProcessed + 1))
         else None)
      else Some (numChars, prevNumChars, entryIndex))"
  by pat_completeness auto
termination
  by (relation "measure (\<lambda>(_, _, _, _, _, done).
        AESDCHAR_MAX_WRITE_OPERATIONS_SUPPORTED - done)") auto

declare find_entry_loop.simps [simp del]

definition aesd_circular_buffer_find_entry_offset_for_fpos ::
    "aesd_circular_buffer option \<Rightarrow> u64 \<Rightarrow> bool \<Rightarrow> find_result option" where
  "aesd_circular_buffer_find_entry_offset_for_fpos buffer char_offset want_offset =
     (case buffer of
        None \<Rightarrow> Some NotFound
      | Some b \<Rightarrow> do {
          (numChars, prevNumChars, entryIndex) \<leftarrow>
            find_entry_loop b char_offset 0 0 (unat (out_offs b)) 0;
          Some (if size_of_int (numChars - 1) < char_offset then NotFound
                else Found entryIndex
                       (if want_offset then Some (char_offset - size_of_int prevNumChars)
                        else None))
        })"

subsection \<open>Adding an entry\<close>

text \<open>
  \<open>hasBufferBeenFilled\<close> is the static flag before and after the call. The result is the
  pointer that was in the slot, the buffer and the flag; a store outside the array is
  undefined.
\<close>

definition wrap_offs :: "u8 \<Rightarrow> u8" where
  "wrap_offs i = (let i' = i + 1 in
     if unat i' = AESDCHAR_MAX_WRITE_OPERATIONS_SUPPORTED then 0 else i')"

definition aesd_circular_buffer_add_entry ::
    "aesd_circular_buffer option \<Rightarrow> aesd_buffer_entry option \<Rightarrow> bool \<Rightarrow>
     (ptr \<times> aesd_circular_buffer option \<times> bool) option" where
  "aesd_circular_buffer_add_entry buffer add_entry hasBufferBeenFilled =
     (case (buffer, add_entry) of
        (Some b, Some e) \<Rightarrow>
          if unat (in_offs b) < length (entry b) then
            let retVal = buffptr (entry b ! unat (in_offs b));
                b1 = b\<lparr>entry := (entry b)[unat (in_offs b) := e]\<rparr>;
                b2 = (if hasBufferBeenFilled \<and> out_offs b1 = in_offs b1
                      then b1\<lparr>out_offs := wrap_offs (out_offs b1)\<rparr> else b1);
                filled = (hasBufferBeenFilled \<or>
                  unat (in_offs b2 + 1) = AESDCHAR_MAX_WRITE_OPERATIONS_SUPPORTED);
                b3 = b2\<lparr>in_offs := wrap_offs (in_offs b2)\<rparr>
            in Some (retVal, Some b3, filled)
          else None
      | _ \<Rightarrow> Some (NULL, buffer, hasBufferBeenFilled))"

subsection \<open>Iterating over the entries\<close>

text \<open>
  The entries \<open>AESD_CIRCULAR_BUFFER_FOREACH\<close> visits from \<open>index\<close> on, in its order.
\<close>

function AESD_CIRCULAR_BUFFER_FOREACH ::
    "aesd_circular_buffer \<Rightarrow> nat \<Rightarrow> aesd_buffer_entry list" where
  "AESD_CIRCULAR_BUFFER_FOREACH b index =
     (if index < AESDCHAR_MAX_WRITE_OPERATIONS_SUPPORTED
      then entry b ! index # AESD_CIRCULAR_BUFFER_FOREACH b (index + 1) else [])"
  by pat_completeness auto
termination
  by (relation "measure (\<lambda>(_, i). AESDCHAR_MAX_WRITE_OPERATIONS_SUPPORTED - i)") auto

declare AESD_CIRCULAR_BUFFER_FOREACH.simps [simp del]

section \<open>Invariant and abstraction\<close>

text \<open>
  The invariant of a buffer and the static flag: ten slots; offsets inside the array; before
  the first wrap the oldest entry is at index 0 and the slots from \<open>in_offs\<close> on are still
  zero; after it the oldest entry is the next one to be overwritten.
\<close>

definition cb_inv :: "aesd_circular_buffer \<Rightarrow> bool \<Rightarrow> bool" where
  "cb_inv b filled \<longleftrightarrow>
     length (entry b) = AESDCHAR_MAX_WRITE_OPERATIONS_SUPPORTED \<and>
     unat (in_offs b) < AESDCHAR_MAX_WRITE_OPERATIONS_SUPPORTED \<and>
     (if filled then out_offs b = in_offs b
      else out_offs b = 0 \<and>
        (\<forall>i \<in> {unat (in_offs b)..<AESDCHAR_MAX_WRITE_OPERATIONS_SUPPORTED}. entry b ! i = zero_entry))"

text \<open>The entries held, oldest first.\<close>

definition cb_count :: "aesd_circular_buffer \<Rightarrow> bool \<Rightarrow> nat" where
  "cb_count b filled =
     (if filled then AESDCHAR_MAX_WRITE_OPERATIONS_SUPPORTED else unat (in_offs b))"

definition cb_entries :: "aesd_circular_buffer \<Rightarrow> bool \<Rightarrow> aesd_buffer_entry list" where
  "cb_entries b filled = ring_list (entry b) (unat (out_offs b)) (cb_count b filled)"

text \<open>The lengths of the entries held, and the number of bytes they describe.\<close>

definition cb_sizes :: "aesd_circular_buffer \<Rightarrow> bool \<Rightarrow> nat list" where
  "cb_sizes b filled = map (unat \<circ> esize) (cb_entries b filled)"

text \<open>The lengths in all ten slots, from \<open>out_offs\<close> on, as the search loop meets them.\<close>

definition slot_sizes :: "aesd_circular_buffer \<Rightarrow> nat list" where
  "slot_sizes b = map (unat \<circ> esize) (ring_list (entry b) (unat (out_offs b)) AESDCHAR_MAX_WRITE_OPERATIONS_SUPPORTED)"

text \<open>An addition to a buffer that exists, on the pair of the buffer and the static flag.\<close>

definition cb_add :: "aesd_circular_buffer \<times> bool \<Rightarrow> aesd_buffer_entry \<Rightarrow> (ptr \<times> aesd_circular_buffer \<times> bool) option" where
  "cb_add s e = (case aesd_circular_buffer_add_entry (Some (fst s)) (Some e) (snd s) of
     Some (r, Some b, filled) \<Rightarrow> Some (r, b, filled) | _ \<Rightarrow> None)"

section \<open>Adding entries\<close>

lemmas CB_MAX = AESDCHAR_MAX_WRITE_OPERATIONS_SUPPORTED_def

lemma unat_wrap_offs:
  assumes "unat i < AESDCHAR_MAX_WRITE_OPERATIONS_SUPPORTED"
  shows "unat (wrap_offs i) = Suc (unat i) mod AESDCHAR_MAX_WRITE_OPERATIONS_SUPPORTED"
proof -
  have "unat (i + 1) = Suc (unat i)" using assms by (simp add: CB_MAX unat_word_ariths)
  with assms show ?thesis by (auto simp: wrap_offs_def Let_def CB_MAX)
qed

lemma cb_inv_out_offs: "cb_inv b filled \<Longrightarrow> unat (out_offs b) < AESDCHAR_MAX_WRITE_OPERATIONS_SUPPORTED"
  by (auto simp: cb_inv_def CB_MAX split: if_splits)

lemma add_entry_room:
  assumes inv: "cb_inv b False"
  shows "\<exists>b' filled'. aesd_circular_buffer_add_entry (Some b) (Some e) False = Some (NULL, Some b', filled')
    \<and> cb_inv b' filled' \<and> cb_entries b' filled' = cb_entries b False @ [e]"
proof -
  let ?n = "unat (in_offs b)"
  let ?b = "b\<lparr>entry := (entry b)[?n := e], in_offs := wrap_offs (in_offs b)\<rparr>"
  let ?f = "unat (in_offs b + 1) = AESDCHAR_MAX_WRITE_OPERATIONS_SUPPORTED"
  have len: "length (entry b) = 10" "?n < 10" "out_offs b = 0"
    "\<forall>i \<in> {?n..<10}. entry b ! i = zero_entry"
    using inv by (auto simp: cb_inv_def CB_MAX)
  have inc: "unat (in_offs b + 1) = Suc ?n" using len by (simp add: unat_word_ariths)
  have wrap: "unat (wrap_offs (in_offs b)) = Suc ?n mod 10" 
    using unat_wrap_offs [of "in_offs b"] len by (simp add: CB_MAX)
  have "aesd_circular_buffer_add_entry (Some b) (Some e) False = Some (NULL, Some ?b, ?f)"
    using len by (simp add: aesd_circular_buffer_add_entry_def Let_def zero_entry_def)
  moreover have "cb_inv ?b ?f"
    using len inc wrap by (auto simp: cb_inv_def CB_MAX nth_list_update word_unat_eq_iff)
  moreover have "cb_entries ?b ?f = cb_entries b False @ [e]"
    using ring_list_append[of ?n "entry b" 0 e] len inc wrap
    by (auto simp: cb_entries_def cb_count_def CB_MAX)
  ultimately show ?thesis by blast
qed

lemma add_entry_full:
  assumes inv: "cb_inv b True"
  shows "\<exists>b'. aesd_circular_buffer_add_entry (Some b) (Some e) True = Some (buffptr (hd (cb_entries b True)), Some b', True)
    \<and> cb_inv b' True \<and> cb_entries b' True = tl (cb_entries b True) @ [e]"
proof -
  let ?n = "unat (in_offs b)"
  let ?b = "b\<lparr>entry := (entry b)[?n := e], out_offs := wrap_offs (in_offs b), in_offs := wrap_offs (in_offs b)\<rparr>"
  have len: "length (entry b) = 10" "?n < 10" "out_offs b = in_offs b"
    using inv by (auto simp: cb_inv_def CB_MAX)
  have wrap: "unat (wrap_offs (in_offs b)) = Suc ?n mod 10" 
    using unat_wrap_offs [of "in_offs b"] len by (simp add: CB_MAX)
  have "hd (cb_entries b True) = entry b ! ?n"
    using ring_list_Cons [of ?n "entry b" 9] len by (simp add: cb_entries_def cb_count_def CB_MAX)
  then have "aesd_circular_buffer_add_entry (Some b) (Some e) True = Some (buffptr (hd (cb_entries b True)), Some ?b, True)"
    using len by (simp add: aesd_circular_buffer_add_entry_def Let_def)
  moreover have "cb_inv ?b True"
    using len wrap by (auto simp: cb_inv_def CB_MAX)
  moreover have "cb_entries ?b True = tl (cb_entries b True) @ [e]"
    using ring_list_overwrite[of ?n "entry b" e] len wrap
    by (auto simp: cb_entries_def cb_count_def CB_MAX)
  ultimately show ?thesis by blast
qed
lemma length_cb_entries: "length (cb_entries b filled) = cb_count b filled"
  by (simp add: cb_entries_def)

interpretation cb: bounded_log cb_add "\<lambda>s. cb_entries (fst s) (snd s)" "\<lambda>s. cb_inv (fst s) (snd s)"
  AESDCHAR_MAX_WRITE_OPERATIONS_SUPPORTED buffptr NULL
proof (unfold_locales, goal_cases)
  case 1 show ?case by (simp add: CB_MAX)
next
  case (2 s) then show ?case by (auto simp: length_cb_entries cb_count_def cb_inv_def)
next
  case (3 s x)
  then have "\<not> snd s" by (auto simp: length_cb_entries cb_count_def)
  with 3 add_entry_room [of "fst s" x] show ?case by (auto simp: cb_add_def)
next
  case (4 s x)
  then have "snd s" by (auto simp: length_cb_entries cb_count_def cb_inv_def split: if_splits)
  with 4 add_entry_full [of "fst s" x] show ?case by (auto simp: cb_add_def)
qed

section \<open>Looking positions up\<close>

lemma length_slot_sizes [simp]: "length (slot_sizes b) = AESDCHAR_MAX_WRITE_OPERATIONS_SUPPORTED"
  by (simp add: slot_sizes_def)

lemma nth_slot_sizes:
  "length (entry b) = AESDCHAR_MAX_WRITE_OPERATIONS_SUPPORTED \<Longrightarrow> k < AESDCHAR_MAX_WRITE_OPERATIONS_SUPPORTED \<Longrightarrow>
   slot_sizes b ! k = unat (esize (entry b ! ((unat (out_offs b) + k) mod AESDCHAR_MAX_WRITE_OPERATIONS_SUPPORTED)))"
  by (simp add: slot_sizes_def nth_ring_list)

lemma find_entry_loop_step:
  fixes b d defines "M \<equiv> AESDCHAR_MAX_WRITE_OPERATIONS_SUPPORTED"
  assumes len: "length (entry b) = M" and small: "sum_list (slot_sizes b) < 2 ^ 31"
    and d: "d < M" and idx: "idx = (unat (out_offs b) + d) mod M"
    and num: "unat num = sum_list (take d (slot_sizes b))"
  shows "\<exists>num'. unat num' = sum_list (take (Suc d) (slot_sizes b)) \<and> unat num' < 2 ^ 31 \<and>
    find_entry_loop b off num prev idx d =
      (if unat off < unat num' then Some (num', num, idx)
       else find_entry_loop b off num' num ((unat (out_offs b) + Suc d) mod M) (Suc d))"
proof -
  let ?num = "int_of_size (size_of_int num + esize (entry b ! idx))"
  have i: "idx < length (entry b)" using idx len by (simp add: M_def CB_MAX)
  have sz: "unat (esize (entry b ! idx)) = slot_sizes b ! d"
    using nth_slot_sizes [of b d] len d idx by (simp add: M_def)
  have tk: "sum_list (take (Suc d) (slot_sizes b)) = unat num + slot_sizes b ! d"
    using d num by (simp add: sum_take_Suc M_def)
  have lt: "unat num + slot_sizes b ! d < 2 ^ 31"
    using sum_take_le [of "Suc d" "slot_sizes b"] small tk by linarith
  have num': "unat ?num = unat num + slot_sizes b ! d"
    using lt sz unat_int_add_size [of num "esize (entry b ! idx)"] by simp
  have cmp: "off < size_of_int ?num \<longleftrightarrow> unat off < unat ?num"
    using lt num' by (simp add: word_less_nat_alt cint_simps)
  have nxt: "(if idx + 1 = M then 0 else idx + 1) = (unat (out_offs b) + Suc d) mod M"
    using idx by (auto simp: M_def CB_MAX mod_Suc)
  have "find_entry_loop b off num prev idx d =
      (if unat off < unat ?num then Some (?num, num, idx)
       else find_entry_loop b off ?num num ((unat (out_offs b) + Suc d) mod M) (Suc d))"
    using d i cmp nxt
    by (simp add: find_entry_loop.simps [of b off num prev idx d] Let_def M_def)
  with num' tk lt show ?thesis by (intro exI [of _ ?num]) simp
qed

lemma find_entry_loop_correct:
  fixes b defines "M \<equiv> AESDCHAR_MAX_WRITE_OPERATIONS_SUPPORTED"
  assumes len: "length (entry b) = M" and small: "sum_list (slot_sizes b) < 2 ^ 31"
    and "d \<le> M" "idx = (unat (out_offs b) + d) mod M"
    and "unat num = sum_list (take d (slot_sizes b))" "unat num \<le> unat off"
    and "unat prev \<le> unat num"
  shows "\<exists>num' prev' k. find_entry_loop b off num prev idx d =
      Some (num', prev', (unat (out_offs b) + k) mod M) \<and>
      (case locate (slot_sizes b) (unat off) of 
         None \<Rightarrow> unat num' = sum_list (slot_sizes b) \<and> unat prev' \<le> unat num' \<and> k = M
       | Some (j, r) \<Rightarrow> j = k \<and> unat num' < 2 ^ 31 \<and> unat off < unat num' \<and> unat prev' + r = unat off)"
  using assms(4-)
proof (induction "M - d" arbitrary: d num prev idx)
  case 0
  then have d: "d = M" by simp
  with 0 have "unat num = sum_list (slot_sizes b)" by (simp add: M_def)
  moreover from this 0 have "locate (slot_sizes b) (unat off) = None" by (simp add: locate_None)
  ultimately show ?case using d 0 by (intro exI [of _ num] exI [of _ prev] exI [of _ M])
     (simp add: find_entry_loop.simps M_def)
next
  case (Suc n)
  then have d: "d < M" by simp
  from find_entry_loop_step [of b d idx num off prev] len small d Suc.prems
  obtain num' where num': "unat num' = sum_list (take (Suc d) (slot_sizes b))" "unat num' < 2 ^ 31"
    and step: "find_entry_loop b off num prev idx d =
      (if unat off < unat num' then Some (num', num, idx)
       else find_entry_loop b off num' num ((unat (out_offs b) + Suc d) mod M) (Suc d))"
    by (auto simp: M_def)
  show ?case
  proof (cases "unat off < unat num'")
    case True
    have "locate (slot_sizes b) (unat off) = Some (d, unat off - sum_list (take d (slot_sizes b)))"
      using True d Suc.prems num' by (intro locate_step) (auto simp: M_def sum_take_Suc)
    then show ?thesis using True step Suc.prems num'
      by (intro exI [of _ num'] exI [of _ num] exI [of _ d]) simp
  next
    case False
    have "unat num \<le> unat num'" using Suc.prems num' d by (simp add: sum_take_Suc M_def)
    with False Suc.hyps(1) [of "Suc d" _ num' num] Suc.hyps(2) d num' step show ?thesis by auto
  qed
qed

lemma slot_sizes_eq:
  assumes "cb_inv b filled"
  shows "\<exists>k. slot_sizes b = cb_sizes b filled @ replicate k 0"
proof (cases filled)
  case True
  then show ?thesis by (intro exI[of _ 0]) (simp add: slot_sizes_def cb_sizes_def cb_entries_def cb_count_def)
next
  case False
  let ?n = "unat (in_offs b)"
  from assms False have inv: "length (entry b) = 10" "?n < 10" "out_offs b = 0"
    "\<forall>i \<in> {?n..<10}. entry b ! i = zero_entry" by (auto simp: cb_inv_def CB_MAX)
  have "slot_sizes b ! i = (cb_sizes b filled @ replicate (10 - ?n) 0) ! i" if "i < 10" for i
    using that inv False
    by (auto simp: slot_sizes_def cb_sizes_def cb_entries_def cb_count_def CB_MAX nth_ring_list
      nth_append zero_entry_def)
  with inv False show ?thesis
    by (intro exI [of _ "10 - ?n"] nth_equalityI) (auto simp: cb_sizes_def cb_entries_def cb_count_def CB_MAX)
qed

lemma find_entry_loop_start:
  assumes inv: "cb_inv b filled" and small: "sum_list (cb_sizes b filled) < 2 ^ 31"
  obtains num prev k where "find_entry_loop b off 0 0 (unat (out_offs b)) 0 =
      Some (num, prev, (unat (out_offs b) + k) mod AESDCHAR_MAX_WRITE_OPERATIONS_SUPPORTED)"
    and "case locate (cb_sizes b filled) (unat off) of
         None \<Rightarrow> unat num = sum_list (cb_sizes b filled) \<and> unat prev \<le> unat num \<and>
           k = AESDCHAR_MAX_WRITE_OPERATIONS_SUPPORTED
       | Some (j, r) \<Rightarrow> j = k \<and> unat num < 2 ^ 31 \<and> unat off < unat num \<and> unat prev + r = unat off"
proof -
  from slot_sizes_eq [OF inv] obtain z where z: "slot_sizes b = cb_sizes b filled @ replicate z 0" ..
  then have sum: "sum_list (slot_sizes b) = sum_list (cb_sizes b filled)"
    by (simp add: sum_list_replicate)
  have loc: "locate (slot_sizes b) n = locate (cb_sizes b filled) n" for n
    by (simp add: z locate_zeros)
  have "length (entry b) = AESDCHAR_MAX_WRITE_OPERATIONS_SUPPORTED"
    "unat (out_offs b) = unat (out_offs b) mod AESDCHAR_MAX_WRITE_OPERATIONS_SUPPORTED"
    using inv cb_inv_out_offs [OF inv] by (auto simp: cb_inv_def)
  with find_entry_loop_correct [of b 0 "unat (out_offs b)" 0 off 0, unfolded sum loc] small
  show ?thesis using that by auto
qed

lemma size_pred_less:
  assumes "0 < unat (num :: cint)" "unat num < 2 ^ 31"
  shows "size_of_int (num - 1) < off \<longleftrightarrow> unat num \<le> unat off"
proof -
  have "unat (num - 1) = unat num - 1" using assms(1) by (intro unat_minus_one) auto
  then show ?thesis using assms by (auto simp: word_less_nat_alt cint_simps)
qed

lemma find_entry_nonempty:
  assumes inv: "cb_inv b filled" and ne: "0 < sum_list (cb_sizes b filled)"
    and small: "sum_list (cb_sizes b filled) < 2 ^ 31"
  shows "aesd_circular_buffer_find_entry_offset_for_fpos (Some b) off want =
    Some (case locate (cb_sizes b filled) (unat off) of
        None \<Rightarrow> NotFound
      | Some (k, r) \<Rightarrow> Found ((unat (out_offs b) + k) mod AESDCHAR_MAX_WRITE_OPERATIONS_SUPPORTED)
          (if want then Some (of_nat r) else None))"
proof -
  obtain num prev k where loop: "find_entry_loop b off 0 0 (unat (out_offs b)) 0 =
      Some (num, prev, (unat (out_offs b) + k) mod AESDCHAR_MAX_WRITE_OPERATIONS_SUPPORTED)"
    and res: "case locate (cb_sizes b filled) (unat off) of
         None \<Rightarrow> unat num = sum_list (cb_sizes b filled) \<and> unat prev \<le> unat num \<and>
           k = AESDCHAR_MAX_WRITE_OPERATIONS_SUPPORTED
       | Some (j, r) \<Rightarrow> j = k \<and> unat num < 2 ^ 31 \<and> unat off < unat num \<and> unat prev + r = unat off"
    by (rule find_entry_loop_start [OF inv small])
  show ?thesis
  proof (cases "locate (cb_sizes b filled) (unat off)")
    case None
    then have "unat num = sum_list (cb_sizes b filled)" using res by simp
    moreover have "sum_list (cb_sizes b filled) \<le> unat off" using None by (simp add: locate_None)
    ultimately have "size_of_int (num - 1) < off" using ne small by (simp add: size_pred_less)
    with None loop show ?thesis by (simp add: aesd_circular_buffer_find_entry_offset_for_fpos_def)
  next
    case (Some jr)
    obtain j r where jr: "jr = (j, r)" by (cases jr)
    with Some res have r: "j = k" "unat num < 2 ^ 31" "unat off < unat num" "unat prev + r = unat off"
      by auto
    then have "\<not> size_of_int (num - 1) < off" by (simp add: size_pred_less)
    moreover have "off - size_of_int prev = of_nat r"
    proof -
      have "unat (size_of_int prev) + r = unat off" using r by (simp add: cint_simps)
      then have "of_nat (unat (size_of_int prev) + r) = off" by simp
      then have "size_of_int prev + of_nat r = off" by simp
      then show ?thesis by (metis add_diff_cancel_left')
    qed
    ultimately show ?thesis using Some loop r jr
      by (simp add: aesd_circular_buffer_find_entry_offset_for_fpos_def)
  qed
qed

lemma find_entry_empty:
  assumes inv: "cb_inv b filled" and ne: "sum_list (cb_sizes b filled) = 0"
  shows "aesd_circular_buffer_find_entry_offset_for_fpos (Some b) off want =
    Some (Found (unat (out_offs b)) (if want then Some off else None))"
proof -
  have small: "sum_list (cb_sizes b filled) < 2 ^ 31" unfolding ne by simp
  have none: "locate (cb_sizes b filled) (unat off) = None"
    by (simp only: locate_None ne le0)
  obtain num prev k where loop: "find_entry_loop b off 0 0 (unat (out_offs b)) 0 =
      Some (num, prev, (unat (out_offs b) + k) mod AESDCHAR_MAX_WRITE_OPERATIONS_SUPPORTED)"
    and "unat num = 0" "unat prev \<le> unat num" "k = AESDCHAR_MAX_WRITE_OPERATIONS_SUPPORTED"
    by (rule find_entry_loop_start [OF inv small, of off, unfolded none ne option.case]) blast
  then show ?thesis using cb_inv_out_offs [OF inv]
    by (simp add: aesd_circular_buffer_find_entry_offset_for_fpos_def unat_eq_0 cint_simps)
qed

lemma cb_init_inv: "cb_inv aesd_circular_buffer_init False"
  by (simp add: cb_inv_def aesd_circular_buffer_init_def CB_MAX)

lemma cb_init_entries: "cb_entries aesd_circular_buffer_init False = []"
  by (simp add: cb_entries_def cb_count_def aesd_circular_buffer_init_def)

lemma nth_cb_entries:
  assumes "cb_inv b filled" "k < length (cb_entries b filled)"
  shows "cb_entries b filled ! k
    = entry b ! ((unat (out_offs b) + k) mod AESDCHAR_MAX_WRITE_OPERATIONS_SUPPORTED)"
  using assms by (simp add: cb_entries_def nth_ring_list cb_inv_def)

section \<open>Properties\<close>

text \<open>
  C2. For every sequence of entries added to a fresh buffer, no call leaves the array; the
  buffer ends up holding exactly the last ten entries, oldest first; and the calls return
  null until the buffer is full and then the pointers of the entries that fell out, each
  once and in the order they were added.
\<close>

theorem add_entry_history:
  "\<exists>b filled gone.
     run_seq cb_add (aesd_circular_buffer_init, False) es =
       Some (replicate (length es - length gone) NULL @ map buffptr gone, b, filled) \<and>
     cb_inv b filled \<and> es = gone @ cb_entries b filled \<and>
     length gone = length es - AESDCHAR_MAX_WRITE_OPERATIONS_SUPPORTED"
  using cb.log_run_conserves [of "(aesd_circular_buffer_init, False)" es]
  by (auto simp: cb_init_inv cb_init_entries)

text \<open>
  C3. After any such sequence whose retained entries describe at least one byte and fewer than
  $2^{31}$, looking up a position is equivalent to the reference search over the lengths of the
  retained entries: null exactly when the position is beyond the last byte, otherwise the entry
  that holds it and the offset inside that entry.
\<close>

theorem find_entry_after_history:
  assumes run: "run_seq cb_add (aesd_circular_buffer_init, False) es = Some (rs, b, filled)"
    and sizes: "sizes = map (unat \<circ> esize) (last_n AESDCHAR_MAX_WRITE_OPERATIONS_SUPPORTED es)"
    and "0 < sum_list sizes" "sum_list sizes < 2 ^ 31"
  shows "case locate sizes (unat off) of
      None \<Rightarrow> aesd_circular_buffer_find_entry_offset_for_fpos (Some b) off True = Some NotFound
    | Some (k, r) \<Rightarrow> \<exists>i < AESDCHAR_MAX_WRITE_OPERATIONS_SUPPORTED.
        aesd_circular_buffer_find_entry_offset_for_fpos (Some b) off True
          = Some (Found i (Some (of_nat r))) \<and>
        entry b ! i = last_n AESDCHAR_MAX_WRITE_OPERATIONS_SUPPORTED es ! k"
proof -
  from cb.log_run_last_n [of "(aesd_circular_buffer_init, False)" es] run
  have b: "cb_inv b filled" "cb_entries b filled = last_n AESDCHAR_MAX_WRITE_OPERATIONS_SUPPORTED es"
    by (auto simp: cb_init_inv cb_init_entries)
  then have "cb_sizes b filled = sizes" by (simp add: cb_sizes_def sizes)
  with find_entry_nonempty [OF b(1), of off True] assms(3,4) nth_cb_entries [OF b(1)]
  show ?thesis
    by (auto simp: sizes b(2) CB_MAX dest!: locate_SomeD(1) split: option.splits)
qed

theorem find_entry_after_history_witness:
  "\<exists>rs b filled. run_seq cb_add (aesd_circular_buffer_init, False)
     [\<lparr>buffptr = Ptr 7, esize = 3\<rparr>, \<lparr>buffptr = Ptr 9, esize = 2\<rparr>] = Some (rs, b, filled) \<and>
   (\<exists>i < 10. aesd_circular_buffer_find_entry_offset_for_fpos (Some b) 4 True
      = Some (Found i (Some 1)) \<and> entry b ! i = \<lparr>buffptr = Ptr 9, esize = 2\<rparr>)"
proof -
  let ?es = "[\<lparr>buffptr = Ptr 7, esize = 3\<rparr>, \<lparr>buffptr = Ptr 9, esize = 2\<rparr>]"
  from cb.log_run_last_n [of "(aesd_circular_buffer_init, False)" ?es] obtain rs b filled where
    run: "run_seq cb_add (aesd_circular_buffer_init, False) ?es = Some (rs, b, filled)"
    by (auto simp: cb_init_inv)
  have "\<exists>i < 10. aesd_circular_buffer_find_entry_offset_for_fpos (Some b) 4 True
      = Some (Found i (Some 1)) \<and> entry b ! i = \<lparr>buffptr = Ptr 9, esize = 2\<rparr>"
    using find_entry_after_history [OF run refl, of 4] by (simp add: last_n_def CB_MAX)
  with run show ?thesis by blast
qed
text \<open>
  On an empty buffer the lookup does not return null for any position: the comparison
  \<open>numCharsInBuffer - 1 < char_offset\<close> turns $-1$ into the largest \<open>size_t\<close>, and the
  call reports the zeroed first entry with the whole position as the offset in it.
\<close>

lemma find_entry_on_empty:
  "aesd_circular_buffer_find_entry_offset_for_fpos (Some aesd_circular_buffer_init) off True
     = Some (Found 0 (Some off))"
  using find_entry_empty [OF cb_init_inv, of off True]
  by (simp add: cb_sizes_def cb_init_entries) (simp add: aesd_circular_buffer_init_def)

text \<open>
  The flag that records a full buffer is one static variable for all buffers: once any
  buffer has wrapped, the first addition to a freshly initialised buffer already advances
  \<open>out_offs\<close> past the only entry it holds.
\<close>

lemma add_entry_flag_is_shared:
  "aesd_circular_buffer_add_entry (Some aesd_circular_buffer_init) (Some e) True =
     Some (NULL, Some (aesd_circular_buffer_init\<lparr>
       entry := e # replicate 9 zero_entry, in_offs := 1, out_offs := 1\<rparr>), True)"
  by (simp add: aesd_circular_buffer_add_entry_def aesd_circular_buffer_init_def Let_def CB_MAX
      wrap_offs_def zero_entry_def numeral_nat)

end
