(* ===== verification/CharDriver.thy ===== *)
theory CharDriver
  imports CircularBuffer
begin

unbundle bit_operations_syntax

text \<open>
  The character driver, \<open>aesd-char-driver/main.c\<close>, \<open>aesdchar.h\<close> and \<open>aesd_ioctl.h\<close>:
  \<open>write\<close> collects bytes until one ends in a newline and then stores them as one command of
  the circular buffer, \<open>read\<close> and the seek \<open>ioctl\<close> address the stored bytes.

  The state is the global \<open>aesd_device\<close>, the static flag of the circular buffer and the
  heap blocks the driver owns. Every file operation does its work between \<open>mutex_lock\<close> and
  \<open>mutex_unlock\<close> of the same mutex, so each is one atomic step; the mutex, the embedded
  \<open>cdev\<close> and the debug output are not part of the state. There is one device, so the
  \<open>private_data\<close> of every file is \<open>aesd_device\<close>.

  The kernel is a parameter: what \<open>kmalloc\<close>, \<open>krealloc\<close>, \<open>copy_from_user\<close>,
  \<open>copy_to_user\<close>, \<open>alloc_chrdev_region\<close> and \<open>cdev_add\<close> answer. \<open>None\<close> is a fault
  of the kernel (or a loop that does not end).
\<close>

section \<open>The kernel's answers\<close>

text \<open>
  \<open>kmalloc h n\<close> is the address and the uninitialised bytes of the new block, \<open>None\<close> for
  a null pointer; \<open>krealloc h a n\<close> likewise for the block that replaces \<open>a\<close>.
  \<open>copy_from_user n\<close> is what is stored at the destination and the number of bytes that were
  not copied; \<open>copy_to_user bs\<close> is the number of bytes of \<open>bs\<close> not copied.
  \<open>kmalloc_struct\<close> says whether the buffer structure could be allocated.
\<close>

record kernel =
  kmalloc :: "heap \<Rightarrow> nat \<Rightarrow> (nat \<times> byte list) option"
  krealloc :: "heap \<Rightarrow> nat \<Rightarrow> nat \<Rightarrow> (nat \<times> byte list) option"
  copy_from_user :: "u64 \<Rightarrow> byte list \<times> u64"
  copy_to_user :: "byte list \<Rightarrow> u64"
  kmalloc_struct :: bool
  alloc_chrdev_region :: "cint \<times> u32"
  cdev_add :: "u32 \<Rightarrow> cint"

definition EFAULT :: u64 where "EFAULT = 14"
definition ENOMEM :: u64 where "ENOMEM = 12"
definition EINVAL :: u64 where "EINVAL = 22"
definition SEEK_SET :: cint where "SEEK_SET = 0"
definition SEEK_CUR :: cint where "SEEK_CUR = 1"
definition SEEK_END :: cint where "SEEK_END = 2"

text \<open>The effect of the allocation functions on the driver's heap.\<close>

definition do_kmalloc :: "kernel \<Rightarrow> heap \<Rightarrow> nat \<Rightarrow> ptr \<times> heap" where
  "do_kmalloc K h n = (case kmalloc K h n of None \<Rightarrow> (NULL, h) | Some (a, bs) \<Rightarrow> (Ptr a, h(a \<mapsto> bs)))"

definition do_krealloc :: "kernel \<Rightarrow> heap \<Rightarrow> ptr \<Rightarrow> nat \<Rightarrow> (ptr \<times> heap) option" where
  "do_krealloc K h p n =
     (case p of
        NULL \<Rightarrow> Some (do_kmalloc K h n)
      | Ptr a \<Rightarrow> (case h a of
          None \<Rightarrow> None
        | Some _ \<Rightarrow> Some (case krealloc K h a n of
            None \<Rightarrow> (NULL, h)
          | Some (a', bs) \<Rightarrow> (Ptr a', (h(a := None))(a' \<mapsto> bs)))))"

section \<open>State\<close>

record aesd_dev =
  tempBuffer :: ptr
  tempBufferIndex :: cint
  tempBufferSize :: cint
  circBufferPtr :: "aesd_circular_buffer option"
  numUsers :: cint
  onGoingWrite :: cint

record driver =
  aesd_device :: aesd_dev
  hasBufferBeenFilled :: bool
  kheap :: heap
  aesd_major :: u32
  aesd_minor :: u32

definition zero_dev :: aesd_dev where
  "zero_dev = \<lparr>tempBuffer = NULL, tempBufferIndex = 0, tempBufferSize = 0,
     circBufferPtr = None, numUsers = 0, onGoingWrite = 0\<rparr>"

text \<open>The module as it is loaded: zero-initialised globals, nothing allocated.\<close>

definition loaded :: driver where
  "loaded = \<lparr>aesd_device = zero_dev, hasBufferBeenFilled = False, kheap = Map.empty,
     aesd_major = 0, aesd_minor = 0\<rparr>"

definition TEMP_BUFFER_STARTING_SIZE :: nat where
  "TEMP_BUFFER_STARTING_SIZE = 32"

section \<open>Open and release\<close>

definition aesd_open :: "driver \<Rightarrow> cint \<times> driver" where
  "aesd_open d = (0, d\<lparr>aesd_device := (aesd_device d)\<lparr>numUsers := numUsers (aesd_device d) + 1\<rparr>\<rparr>)"

definition aesd_release :: "driver \<Rightarrow> cint \<times> driver" where
  "aesd_release d = (0, d)"

section \<open>Read\<close>

text \<open>The return value, the file position afterwards and the bytes handed to the caller.\<close>

definition aesd_read :: "kernel \<Rightarrow> u64 \<Rightarrow> u64 \<Rightarrow> driver \<Rightarrow> (u64 \<times> u64 \<times> byte list) option" where
  "aesd_read K count f_pos d = do {
     res \<leftarrow> aesd_circular_buffer_find_entry_offset_for_fpos (circBufferPtr (aesd_device d)) f_pos True;
     (case res of
        NotFound \<Rightarrow> Some (0, f_pos, [])
      | Found i rtn \<Rightarrow> do {
          b \<leftarrow> circBufferPtr (aesd_device d);
          let e = entry b ! i;
          let entryOffset = (case rtn of None \<Rightarrow> 0 | Some off \<Rightarrow> off);
          let bytesLeftInEntry = esize e - entryOffset;
          let bytesToCopy = (if bytesLeftInEntry < count then bytesLeftInEntry else count);
          bs \<leftarrow> mem_read (kheap d) (buffptr e) (unat entryOffset) (unat bytesToCopy);
          Some (if copy_to_user K bs \<noteq> 0 then (- EFAULT, f_pos, [])
                else (bytesToCopy, f_pos + bytesToCopy, bs))
        })
   }"

section \<open>Write\<close>

text \<open>
  The stages of \<open>aesd_write\<close>. A stage either returns from the function (\<open>Inl\<close>, with the
  value returned and the state left behind) or goes on (\<open>Inr\<close>).
\<close>

type_synonym stage = "(u64 \<times> driver) + driver"

text \<open>Set up a new write when none is under way.\<close>

definition aesd_write_start :: "kernel \<Rightarrow> driver \<Rightarrow> stage" where
  "aesd_write_start K d =
     (if onGoingWrite (aesd_device d) = 0 then
        (let (p, h) = do_kmalloc K (kheap d) TEMP_BUFFER_STARTING_SIZE;
             d1 = d\<lparr>kheap := h, aesd_device := (aesd_device d)\<lparr>tempBuffer := p\<rparr>\<rparr>
         in if p = NULL then Inl (- ENOMEM, d1)
            else Inr (d1\<lparr>aesd_device := (aesd_device d1)\<lparr>
                   tempBufferSize := of_nat TEMP_BUFFER_STARTING_SIZE,
                   tempBufferIndex := 0, onGoingWrite := 1\<rparr>\<rparr>))
      else Inr d)"

text \<open>The doubling loop, with \<open>newBufferSize\<close> and \<open>resizeNeeded\<close>.\<close>

partial_function (option) grow_loop :: "u64 \<Rightarrow> u64 \<Rightarrow> bool \<Rightarrow> (u64 \<times> bool) option" where
  "grow_loop newBufferSize neededBufferSize resizeNeeded =
     (if newBufferSize < neededBufferSize
      then grow_loop (newBufferSize * 2) neededBufferSize True
      else Some (newBufferSize, resizeNeeded))"

definition aesd_write_resize :: "kernel \<Rightarrow> u64 \<Rightarrow> driver \<Rightarrow> stage option" where
  "aesd_write_resize K count d = do {
     let dev = aesd_device d;
     (newBufferSize, resizeNeeded) \<leftarrow>
       grow_loop (size_of_int (tempBufferSize dev)) (size_of_int (tempBufferIndex dev) + count) False;
     if resizeNeeded then do {
       (p, h) \<leftarrow> do_krealloc K (kheap d) (tempBuffer dev) (unat newBufferSize);
       if p = NULL then do {
         h' \<leftarrow> mem_free h (tempBuffer dev);
         Some (Inl (- ENOMEM, d\<lparr>kheap := h', aesd_device := dev\<lparr>
           onGoingWrite := 0, tempBufferIndex := 0, tempBuffer := NULL\<rparr>\<rparr>))
       } else Some (Inr (d\<lparr>kheap := h, aesd_device := dev\<lparr>
           tempBuffer := p, tempBufferSize := int_of_size newBufferSize\<rparr>\<rparr>))
     } else Some (Inr d)
   }"

text \<open>Fetch the caller's bytes; a negative index would be an address before the block.\<close>

definition aesd_write_copy :: "kernel \<Rightarrow> u64 \<Rightarrow> driver \<Rightarrow> stage option" where
  "aesd_write_copy K count d = do {
     let dev = aesd_device d;
     let (bs, notCopied) = copy_from_user K count;
     h \<leftarrow> (if 0 \<le> sint (tempBufferIndex dev)
           then mem_write (kheap d) (tempBuffer dev) (unat (tempBufferIndex dev)) bs else None);
     if int_of_size notCopied \<noteq> 0 then do {
       h' \<leftarrow> mem_free h (tempBuffer dev);
       Some (Inl (- EFAULT, d\<lparr>kheap := h', aesd_device := dev\<lparr>
         onGoingWrite := 0, tempBuffer := NULL, tempBufferIndex := 0, tempBufferSize := 0\<rparr>\<rparr>))
     } else Some (Inr (d\<lparr>kheap := h, aesd_device := dev\<lparr>
         tempBufferIndex := int_of_size (size_of_int (tempBufferIndex dev) + count)\<rparr>\<rparr>))
   }"

text \<open>Store a finished command: allocate, clear and fill its block, add it, free the evicted one.\<close>

definition aesd_write_commit :: "kernel \<Rightarrow> driver \<Rightarrow> stage option" where
  "aesd_write_commit K d = do {
     let dev = aesd_device d;
     let size = unat (size_of_int (tempBufferIndex dev));
     let (p, h) = do_kmalloc K (kheap d) size;
     let newCircEntry = \<lparr>buffptr = p, esize = size_of_int (tempBufferIndex dev)\<rparr>;
     if p = NULL then do {
       h' \<leftarrow> mem_free h (tempBuffer dev);
       Some (Inl (- ENOMEM, d\<lparr>kheap := h', aesd_device := dev\<lparr>onGoingWrite := 0\<rparr>\<rparr>))
     } else do {
       h1 \<leftarrow> mem_write h p 0 (replicate size 0);
       msg \<leftarrow> mem_read h1 (tempBuffer dev) 0 size;
       h2 \<leftarrow> mem_write h1 p 0 msg;
       (oldEntryBufPtr, circ, filled) \<leftarrow>
         aesd_circular_buffer_add_entry (circBufferPtr dev) (Some newCircEntry) (hasBufferBeenFilled d);
       h3 \<leftarrow> mem_free h2 oldEntryBufPtr;
       h4 \<leftarrow> mem_free h3 (tempBuffer dev);
       Some (Inr (d\<lparr>kheap := h4, hasBufferBeenFilled := filled, aesd_device := dev\<lparr>
         circBufferPtr := circ, onGoingWrite := 0, tempBuffer := NULL,
         tempBufferIndex := 0, tempBufferSize := 0\<rparr>\<rparr>))
     }
   }"

text \<open>Commit when the last byte collected is a newline.\<close>

definition newline :: byte where
  "newline = 10"

definition aesd_write_finish :: "kernel \<Rightarrow> driver \<Rightarrow> stage option" where
  "aesd_write_finish K d = do {
     let dev = aesd_device d;
     if 0 < sint (tempBufferIndex dev) then do {
       c \<leftarrow> mem_read (kheap d) (tempBuffer dev) (unat (tempBufferIndex dev - 1)) 1;
       if c = [newline] then aesd_write_commit K d else Some (Inr d)
     } else Some (Inr d)
   }"

text \<open>Going on with the next stage unless the function has returned.\<close>

fun next_stage :: "stage \<Rightarrow> (driver \<Rightarrow> stage option) \<Rightarrow> stage option" where
  "next_stage (Inl r) f = Some (Inl r)"
| "next_stage (Inr d) f = f d"

definition aesd_write :: "kernel \<Rightarrow> u64 \<Rightarrow> u64 \<Rightarrow> driver \<Rightarrow> (u64 \<times> u64 \<times> driver) option" where
  "aesd_write K count f_pos d = do {
     s1 \<leftarrow> next_stage (aesd_write_start K d) (aesd_write_resize K count);
     s2 \<leftarrow> next_stage s1 (aesd_write_copy K count);
     s3 \<leftarrow> next_stage s2 (aesd_write_finish K);
     Some (case s3 of Inl (ret, d') \<Rightarrow> (ret, f_pos, d') | Inr d' \<Rightarrow> (count, f_pos + count, d'))
   }"

section \<open>Seeking\<close>

text \<open>The byte count of \<open>SEEK_END\<close>.\<close>

definition count_bytes :: "aesd_circular_buffer \<Rightarrow> cint" where
  "count_bytes b = foldl (\<lambda>numBytes e. if buffptr e \<noteq> NULL
     then int_of_size (size_of_int numBytes + esize e) else numBytes) 0 (entry b)"

text \<open>The return value and the file position afterwards.\<close>

definition aesd_llseek :: "u64 \<Rightarrow> cint \<Rightarrow> u64 \<Rightarrow> driver \<Rightarrow> (u64 \<times> u64) option" where
  "aesd_llseek offset whence f_pos d =
     (if whence \<noteq> SEEK_SET \<or> whence \<noteq> SEEK_CUR \<or> whence \<noteq> SEEK_END then Some (- EINVAL, f_pos)
      else if whence = SEEK_SET then Some (offset, offset)
      else if whence = SEEK_CUR then Some (offset + f_pos, offset + f_pos)
      else if whence = SEEK_END then
        (case circBufferPtr (aesd_device d) of
           None \<Rightarrow> None
         | Some b \<Rightarrow> let p = offset + size_of_int (count_bytes b) in Some (p, p))
      else Some (- EINVAL, f_pos))"

text \<open>
  \<open>AESDCHAR_IOCSEEKTO\<close>, that is \<open>_IOWR(0x16, 1, struct aesd_seekto)\<close>: direction, size 8,
  magic and number in their bit fields.
\<close>

definition AESDCHAR_IOCSEEKTO :: u32 where
  "AESDCHAR_IOCSEEKTO = push_bit 30 3 OR push_bit 16 8 OR push_bit 8 0x16 OR 1"

record aesd_seekto =
  write_cmd :: u32
  write_cmd_offset :: u32

text \<open>The two fields as they lie in the bytes of the \<open>unsigned long\<close> argument itself.\<close>

definition seekto_of_arg :: "u64 \<Rightarrow> aesd_seekto" where
  "seekto_of_arg arg = \<lparr>write_cmd = ucast arg, write_cmd_offset = ucast (drop_bit 32 arg)\<rparr>"

function ioctl_loop :: "aesd_circular_buffer \<Rightarrow> nat \<Rightarrow> cint \<Rightarrow> nat \<Rightarrow> nat \<Rightarrow> cint option" where
  "ioctl_loop b cmd fileoffset entryIndex entriesProcessed =
     (if entriesProcessed < AESDCHAR_MAX_WRITE_OPERATIONS_SUPPORTED then
        (if entriesProcessed = cmd then Some fileoffset
         else if entryIndex < length (entry b) then
           ioctl_loop b cmd (int_of_size (size_of_int fileoffset + esize (entry b ! entryIndex)))
             ((entryIndex + 1) mod AESDCHAR_MAX_WRITE_OPERATIONS_SUPPORTED) (entriesProcessed + 1)
         else None)
      else Some fileoffset)"
  by pat_completeness auto
termination
  by (relation "measure (\<lambda>(_, _, _, _, done).
        AESDCHAR_MAX_WRITE_OPERATIONS_SUPPORTED - done)") auto

declare ioctl_loop.simps [simp del]

definition aesd_unlockedioctl :: "u32 \<Rightarrow> u64 \<Rightarrow> u64 \<Rightarrow> driver \<Rightarrow> (u64 \<times> u64) option" where
  "aesd_unlockedioctl cmd arg f_pos d =
     (if cmd = AESDCHAR_IOCSEEKTO then
        (let seekData = seekto_of_arg arg in
         if unat (write_cmd seekData) \<ge> AESDCHAR_MAX_WRITE_OPERATIONS_SUPPORTED
         then Some (- EINVAL, f_pos)
         else do {
           b \<leftarrow> circBufferPtr (aesd_device d);
           before \<leftarrow> ioctl_loop b (unat (write_cmd seekData)) 0 (unat (out_offs b)) 0;
           let fileoffset = before + write_cmd_offset seekData;
           Some (size_of_int fileoffset, size_of_int fileoffset)
         })
      else Some (- EINVAL, f_pos))"

section \<open>Module initialisation and cleanup\<close>

definition MKDEV :: "u32 \<Rightarrow> u32 \<Rightarrow> u32" where
  "MKDEV ma mi = push_bit 20 ma OR mi"

definition aesd_setup_cdev :: "kernel \<Rightarrow> driver \<Rightarrow> cint" where
  "aesd_setup_cdev K d = cdev_add K (MKDEV (aesd_major d) (aesd_minor d))"

definition aesd_init_module :: "kernel \<Rightarrow> driver \<Rightarrow> (cint \<times> driver) option" where
  "aesd_init_module K d =
     (let (result, dev) = alloc_chrdev_region K;
          d1 = d\<lparr>aesd_major := drop_bit 20 dev\<rparr>
      in if sint result < 0 then Some (result, d1)
         else if kmalloc_struct K then
           (let d2 = d1\<lparr>aesd_device := zero_dev\<lparr>circBufferPtr := Some aesd_circular_buffer_init\<rparr>\<rparr>;
                err = aesd_setup_cdev K d2
            in Some (err, if err \<noteq> 0
                 then d2\<lparr>aesd_device := (aesd_device d2)\<lparr>circBufferPtr := None\<rparr>\<rparr> else d2))
         else None)"

text \<open>The release of every stored command at unload, from slot \<open>i\<close> on.\<close>

function cleanup_loop :: "nat \<Rightarrow> aesd_circular_buffer \<Rightarrow> heap \<Rightarrow> heap option" where
  "cleanup_loop i b h =
     (if i < AESDCHAR_MAX_WRITE_OPERATIONS_SUPPORTED then
        (if buffptr (entry b ! i) \<noteq> NULL then do {
           h' \<leftarrow> mem_free h (buffptr (entry b ! i));
           cleanup_loop (i + 1)
             (b\<lparr>entry := (entry b)[i := (entry b ! i)\<lparr>buffptr := NULL\<rparr>]\<rparr>) h'
         } else cleanup_loop (i + 1) b h)
      else Some h)"
  by pat_completeness auto
termination
  by (relation "measure (\<lambda>(i, _, _). AESDCHAR_MAX_WRITE_OPERATIONS_SUPPORTED - i)") auto

declare cleanup_loop.simps [simp del]

definition aesd_cleanup_module :: "driver \<Rightarrow> driver option" where
  "aesd_cleanup_module d = do {
     b \<leftarrow> circBufferPtr (aesd_device d);
     h \<leftarrow> cleanup_loop 0 b (kheap d);
     Some (d\<lparr>kheap := h, aesd_device := (aesd_device d)\<lparr>circBufferPtr := None\<rparr>\<rparr>)
   }"

section \<open>Contract of the kernel, invariant and specification\<close>

text \<open>
  The largest block \<open>kmalloc\<close> serves on the usual configuration, 4 MiB.
\<close>

definition KMALLOC_MAX_SIZE :: nat where
  "KMALLOC_MAX_SIZE = 2 ^ 22"

text \<open>
  What the driver relies on: a block that \<open>kmalloc\<close> returns is new and as long as asked for;
  \<open>krealloc\<close> keeps the old contents up to the smaller length and either leaves the block in
  place or moves it to a new address; \<open>copy_from_user\<close> stores at most the bytes asked for,
  reports at most that many as missing, and all of them are there when it reports none missing.
\<close>

definition kmalloc_ok :: "kernel \<Rightarrow> bool" where
  "kmalloc_ok K \<longleftrightarrow> (\<forall>h n a bs. kmalloc K h n = Some (a, bs) \<longrightarrow>
     h a = None \<and> length bs = n \<and> n \<le> KMALLOC_MAX_SIZE)"

definition krealloc_ok :: "kernel \<Rightarrow> bool" where
  "krealloc_ok K \<longleftrightarrow> (\<forall>h a old n a' bs. h a = Some old \<longrightarrow> krealloc K h a n = Some (a', bs) \<longrightarrow>
     (a' = a \<or> h a' = None) \<and> length bs = n \<and> n \<le> KMALLOC_MAX_SIZE \<and>
     take (min n (length old)) bs = take (min n (length old)) old)"

definition copy_from_user_ok :: "kernel \<Rightarrow> bool" where
  "copy_from_user_ok K \<longleftrightarrow> (\<forall>n bs r. copy_from_user K n = (bs, r) \<longrightarrow>
     length bs \<le> unat n \<and> unat r \<le> unat n \<and> (r = 0 \<longrightarrow> length bs = unat n))"

definition kernel_ok :: "kernel \<Rightarrow> bool" where
  "kernel_ok K \<longleftrightarrow> kmalloc_ok K \<and> krealloc_ok K \<and> copy_from_user_ok K"

text \<open>
  The block behind a pointer and its bytes.
\<close>

definition block_of :: "heap \<Rightarrow> ptr \<Rightarrow> byte list option" where
  "block_of h p = (case p of NULL \<Rightarrow> None | Ptr a \<Rightarrow> h a)"

definition bytes_of :: "heap \<Rightarrow> ptr \<Rightarrow> byte list" where
  "bytes_of h p = (case block_of h p of None \<Rightarrow> [] | Some bs \<Rightarrow> bs)"

text \<open>
  An entry that is stored properly: its pointer is a live block of exactly its size, not empty.
\<close>

definition entry_ok :: "heap \<Rightarrow> aesd_buffer_entry \<Rightarrow> bool" where
  "entry_ok h e \<longleftrightarrow> (\<exists>bs. block_of h (buffptr e) = Some bs \<and> length bs = unat (esize e) \<and>
     bs \<noteq> [] \<and> length bs \<le> KMALLOC_MAX_SIZE)"

text \<open>
  The driver owns exactly the blocks of the stored entries, each by one entry, and the block of
  the write under way, with its capacity and the number of bytes collected.
\<close>

fun heap_inv :: "heap \<Rightarrow> aesd_buffer_entry list \<Rightarrow> (ptr \<times> nat \<times> nat) option \<Rightarrow> bool" where
  "heap_inv h es None \<longleftrightarrow>
     (\<forall>e \<in> set es. entry_ok h e) \<and> distinct (map buffptr es) \<and>
     Ptr ` dom h = buffptr ` set es"
| "heap_inv h es (Some (p, sz, idx)) \<longleftrightarrow>
     (\<forall>e \<in> set es. entry_ok h e) \<and> distinct (map buffptr es) \<and> p \<notin> buffptr ` set es \<and>
     (\<exists>bs. block_of h p = Some bs \<and> length bs = sz \<and> 0 < sz \<and> sz \<le> KMALLOC_MAX_SIZE \<and> idx \<le> sz) \<and>
     Ptr ` dom h = insert p (buffptr ` set es)"

text \<open>
  The write under way: buffer, capacity and fill level.
\<close>

definition drv_tmp :: "driver \<Rightarrow> (ptr \<times> nat \<times> nat) option" where
  "drv_tmp d = (let dev = aesd_device d in
     if onGoingWrite dev = 0 then None
     else Some (tempBuffer dev, unat (tempBufferSize dev), unat (tempBufferIndex dev)))"

text \<open>
  The invariant of the driver between two file operations.
\<close>

definition drv_inv :: "driver \<Rightarrow> bool" where
  "drv_inv d \<longleftrightarrow> (case circBufferPtr (aesd_device d) of
     None \<Rightarrow> False
   | Some b \<Rightarrow> cb_inv b (hasBufferBeenFilled d) \<and>
       heap_inv (kheap d) (cb_entries b (hasBufferBeenFilled d)) (drv_tmp d))"

text \<open>
  The commands stored, oldest first, and the bytes of the command not yet finished.
\<close>

definition heap_log :: "heap \<Rightarrow> aesd_buffer_entry list \<Rightarrow> byte list list" where
  "heap_log h es = map (bytes_of h \<circ> buffptr) es"

definition drv_log :: "driver \<Rightarrow> byte list list" where
  "drv_log d = (case circBufferPtr (aesd_device d) of
     None \<Rightarrow> []
   | Some b \<Rightarrow> heap_log (kheap d) (cb_entries b (hasBufferBeenFilled d)))"

definition drv_pending :: "driver \<Rightarrow> byte list" where
  "drv_pending d = (case drv_tmp d of None \<Rightarrow> [] | Some (p, _, idx) \<Rightarrow> take idx (bytes_of (kheap d) p))"

text \<open>
  The specification of a write: collect the bytes, and when the last one is a newline append the
  message to a log that keeps the ten newest.
\<close>

fun spec_write :: "byte list list \<times> byte list \<Rightarrow> byte list \<Rightarrow> byte list list \<times> byte list" where
  "spec_write (log, pending) data =
     (let msg = pending @ data in
      if msg \<noteq> [] \<and> last msg = newline
      then (last_n AESDCHAR_MAX_WRITE_OPERATIONS_SUPPORTED (log @ [msg]), [])
      else (log, msg))"

text \<open>
  What a stage guarantees from state \<open>d\<close>: when it returns early, the reason \<open>C\<close> of the
  value holds, the log is as before and the unfinished bytes are dropped.
\<close>

fun failed :: "(u64 \<Rightarrow> bool) \<Rightarrow> driver \<Rightarrow> u64 \<times> driver \<Rightarrow> bool" where
  "failed C d (ret, d') \<longleftrightarrow> C ret \<and> drv_inv d' \<and> drv_log d' = drv_log d \<and> drv_pending d' = []"

fun stage_ok :: "(u64 \<Rightarrow> bool) \<Rightarrow> driver \<Rightarrow> (driver \<Rightarrow> bool) \<Rightarrow> stage \<Rightarrow> bool" where
  "stage_ok C d P (Inl r) \<longleftrightarrow> failed C d r"
| "stage_ok C d P (Inr d') \<longleftrightarrow> drv_inv d' \<and> P d'"

text \<open>
  The kernel may refuse a block of at most \<open>n\<close> bytes.
\<close>

definition refused :: "kernel \<Rightarrow> nat \<Rightarrow> bool" where
  "refused K n \<longleftrightarrow> (\<exists>h m. finite (dom h) \<and> m \<le> n \<and> (kmalloc K h m = None \<or> (\<exists>a. krealloc K h a m = None)))"

text \<open>
  The errors a write may return.
\<close>

definition write_error :: "kernel \<Rightarrow> u64 \<Rightarrow> driver \<Rightarrow> u64 \<Rightarrow> bool" where
  "write_error K count d ret \<longleftrightarrow> ret = - EFAULT \<and> snd (copy_from_user K count) \<noteq> 0 \<or>
     ret = - ENOMEM \<and> refused K (max TEMP_BUFFER_STARTING_SIZE (2 * (length (drv_pending d) + unat count)))"

text \<open>
  A write is under way; its buffer is the block \<open>t\<close> with the bytes \<open>bs\<close>.
\<close>

definition writing :: "driver \<Rightarrow> bool" where
  "writing d \<longleftrightarrow> onGoingWrite (aesd_device d) \<noteq> 0"

definition writing_view :: "driver \<Rightarrow> aesd_circular_buffer \<Rightarrow> nat \<Rightarrow> byte list \<Rightarrow> bool" where
  "writing_view d b t bs \<longleftrightarrow> (let dev = aesd_device d; filled = hasBufferBeenFilled d in
     circBufferPtr dev = Some b \<and> cb_inv b filled \<and>
     drv_log d = heap_log (kheap d) (cb_entries b filled) \<and>
     tempBuffer dev = Ptr t \<and> kheap d t = Some bs \<and>
     heap_inv (kheap d) (cb_entries b filled)
       (Some (Ptr t, unat (tempBufferSize dev), unat (tempBufferIndex dev))) \<and>
     length bs = unat (tempBufferSize dev) \<and> 0 < length bs \<and> length bs \<le> KMALLOC_MAX_SIZE \<and>
     unat (tempBufferIndex dev) \<le> length bs \<and> drv_pending d = take (unat (tempBufferIndex dev)) bs)"

section \<open>Lemmas on the heap the driver owns\<close>

lemma grow_loop_returns:
  assumes "0 < unat n" "unat needed \<le> 2 ^ 62"
  shows "\<exists>m. grow_loop n needed r = Some (m, r \<or> n < needed) \<and> unat needed \<le> unat m \<and> unat n \<le> unat m \<and>
    (n < needed \<longrightarrow> unat m < 2 * unat needed)"
  using assms
proof (induction "unat needed - unat n" arbitrary: n r rule: less_induct)
  case less
  show ?case
  proof (cases "n < needed")
    case False
    then show ?thesis by (subst grow_loop.simps) (simp add: word_less_nat_alt)
  next
    case True
    then have lt: "unat n < unat needed" by (simp add: word_less_nat_alt)
    then have n2: "unat (n * 2) = unat n * 2" using less.prems by (simp add: unat_word_ariths)
    have "unat needed - unat (n * 2) < unat needed - unat n" "0 < unat (n * 2)"
      unfolding n2 using lt less.prems(1) by linarith+
    from less.hyps [OF this less.prems(2), of True] obtain m where
      m: "grow_loop (n * 2) needed True = Some (m, True)" "unat needed \<le> unat m" "unat (n * 2) \<le> unat m"
        "n * 2 < needed \<longrightarrow> unat m < 2 * unat needed"
      by auto
    have "unat m < 2 * unat needed"
    proof (cases "n * 2 < needed")
      case False
      then have "m = n * 2" using m(1) by (subst (asm) grow_loop.simps) simp
      then show ?thesis using n2 lt by simp
    qed (use m(4) in simp)
    with True n2 m show ?thesis by (subst grow_loop.simps) auto
  qed
qed

lemma block_of_Ptr [mem_simps]: "block_of h (Ptr a) = h a"
  by (simp add: block_of_def)

lemma block_of_upd_other: "p \<noteq> Ptr a \<Longrightarrow> block_of (h(a := x)) p = block_of h p"
  by (cases p) (auto simp: block_of_def)

lemma entry_ok_upd_other: "buffptr e \<noteq> Ptr a \<Longrightarrow> entry_ok (h(a := x)) e = entry_ok h e"
  by (simp add: entry_ok_def block_of_upd_other)

lemma bytes_of_upd_other: "p \<noteq> Ptr a \<Longrightarrow> bytes_of (h(a := x)) p = bytes_of h p"
  by (simp add: bytes_of_def block_of_upd_other)

lemma Ptr_dom_upd: "Ptr ` dom (h(a \<mapsto> bs)) = insert (Ptr a) (Ptr ` dom h)"
  by auto

lemma Ptr_dom_del: "Ptr ` dom (h(a := None)) = Ptr ` dom h - {Ptr a}"
  by auto

lemma heap_frame:
  assumes "Ptr a \<notin> buffptr ` set es"
  shows "(\<forall>e \<in> set es. entry_ok (h(a := x)) e) \<longleftrightarrow> (\<forall>e \<in> set es. entry_ok h e)"
    and "heap_log (h(a := x)) es = heap_log h es"
proof -
  have ne: "buffptr e \<noteq> Ptr a" if "e \<in> set es" for e using assms that by force
  then show "(\<forall>e \<in> set es. entry_ok (h(a := x)) e) \<longleftrightarrow> (\<forall>e \<in> set es. entry_ok h e)"
    by (simp add: entry_ok_upd_other)
  from ne show "heap_log (h(a := x)) es = heap_log h es"
    by (simp add: heap_log_def bytes_of_upd_other)
qed

lemma heap_fresh:
  assumes "\<forall>e \<in> set es. entry_ok h e" "h a = None"
  shows "Ptr a \<notin> buffptr ` set es"
proof
  assume "Ptr a \<in> buffptr ` set es"
  then obtain e where "e \<in> set es" "buffptr e = Ptr a" by force
  with assms show False by (auto simp: entry_ok_def block_of_def)
qed

lemmas heap_inv_simps = heap_frame block_of_upd_other mem_simps Ptr_dom_upd Ptr_dom_del

lemma heap_alloc_temp:
  assumes "heap_inv h es None" "h a = None" "length bs = sz" "0 < sz" "sz \<le> KMALLOC_MAX_SIZE"
  shows "heap_inv (h(a \<mapsto> bs)) es (Some (Ptr a, sz, 0)) \<and> heap_log (h(a \<mapsto> bs)) es = heap_log h es"
  using assms heap_fresh [of es h a]
  by (simp add: heap_inv_simps del: dom_fun_upd)

lemma heap_free_temp:
  assumes "heap_inv h es (Some (Ptr a, sz, i))"
  shows "heap_inv (h(a := None)) es None \<and> heap_log (h(a := None)) es = heap_log h es"
  using assms by (auto simp: heap_inv_simps simp del: dom_fun_upd)

lemma heap_write_temp:
  assumes "heap_inv h es (Some (Ptr a, sz, i))" "length bs = sz" "i' \<le> sz"
  shows "heap_inv (h(a \<mapsto> bs)) es (Some (Ptr a, sz, i')) \<and> heap_log (h(a \<mapsto> bs)) es = heap_log h es"
  using assms by (auto simp: heap_inv_simps simp del: dom_fun_upd)

lemma heap_realloc_temp:
  assumes inv: "heap_inv h es (Some (Ptr a, sz, i))" and new: "a' = a \<or> h a' = None"
    and bs: "length bs = sz'" "sz \<le> sz'" "sz' \<le> KMALLOC_MAX_SIZE"
  shows "heap_inv ((h(a := None))(a' \<mapsto> bs)) es (Some (Ptr a', sz', i))
    \<and> heap_log ((h(a := None))(a' \<mapsto> bs)) es = heap_log h es"
proof -
  note f = heap_free_temp [OF inv]
  have sz: "0 < sz'" "i \<le> sz'" using inv bs by auto
  have "(h(a := None)) a' = None" using new by auto
  with f bs sz(1) have "heap_inv ((h(a := None))(a' \<mapsto> bs)) es (Some (Ptr a', sz', 0))
      \<and> heap_log ((h(a := None))(a' \<mapsto> bs)) es = heap_log (h(a := None)) es"
    by (intro heap_alloc_temp) auto
  with f sz(2) show ?thesis by auto
qed

lemma heap_add_entry:
  assumes inv: "heap_inv h es (Some (p, sz, i))" and fresh: "h c = None"
    and e: "buffptr e = Ptr c" "unat (esize e) = length msg" "msg \<noteq> []" "length msg \<le> KMALLOC_MAX_SIZE"
  shows "heap_inv (h(c \<mapsto> msg)) (es @ [e]) (Some (p, sz, i)) \<and>
    heap_log (h(c \<mapsto> msg)) (es @ [e]) = heap_log h es @ [msg]"
proof -
  have c: "Ptr c \<notin> buffptr ` set es" using inv fresh heap_fresh [of es h c] by simp
  have p: "p \<noteq> Ptr c" using inv fresh by (auto simp: block_of_def)
  have "entry_ok (h(c \<mapsto> msg)) e" using e by (simp add: entry_ok_def mem_simps)
  moreover have "heap_log (h(c \<mapsto> msg)) [e] = [msg]" using e
    by (simp add: heap_log_def bytes_of_def mem_simps)
  ultimately show ?thesis using inv c p e heap_frame [OF c, of h "Some msg"]
    by (simp add: heap_inv_simps heap_log_def ball_Un insert_commute del: dom_fun_upd)
qed

lemma heap_evict:
  assumes inv: "heap_inv h (e # es) (Some (p, sz, i))"
  obtains c bs where "buffptr e = Ptr c" "h c = Some bs" "heap_inv (h(c := None)) es (Some (p, sz, i))"
    "heap_log (h(c := None)) es = heap_log h es"
proof -
  from inv obtain c bs where c: "buffptr e = Ptr c" "h c = Some bs"
    by (auto simp: entry_ok_def block_of_def split: ptr.splits)
  have ne: "Ptr c \<notin> buffptr ` set es" "p \<noteq> Ptr c" using inv c by auto
  have "heap_inv (h(c := None)) es (Some (p, sz, i))"
    using inv ne c by (simp add: heap_inv_simps insert_Diff_if del: dom_fun_upd)
  with c heap_frame(2) [OF ne(1)] that show ?thesis by blast
qed

declare heap_inv.simps [simp del]

section \<open>The stages of a write\<close>

lemma drv_inv_finite: "drv_inv d \<Longrightarrow> finite (dom (kheap d))"
proof -
  assume "drv_inv d"
  then have "finite (Ptr ` dom (kheap d))"
    by (cases "drv_tmp d") (auto simp: drv_inv_def heap_inv.simps split: option.splits)
  then show ?thesis by (rule finite_imageD) (simp add: inj_on_def)
qed

lemma refused_kmalloc: "drv_inv d \<Longrightarrow> kmalloc K (kheap d) m = None \<Longrightarrow> m \<le> n \<Longrightarrow> refused K n"
  using drv_inv_finite unfolding refused_def by blast

lemma refused_krealloc: "drv_inv d \<Longrightarrow> krealloc K (kheap d) a m = None \<Longrightarrow> m \<le> n \<Longrightarrow> refused K n"
  using drv_inv_finite unfolding refused_def by blast

lemma drv_invE:
  assumes "drv_inv d"
  obtains b where "circBufferPtr (aesd_device d) = Some b" "cb_inv b (hasBufferBeenFilled d)"
    "heap_inv (kheap d) (cb_entries b (hasBufferBeenFilled d)) (drv_tmp d)"
    "drv_log d = heap_log (kheap d) (cb_entries b (hasBufferBeenFilled d))"
  using assms by (auto simp: drv_inv_def drv_log_def split: option.splits)

lemma writingE:
  assumes inv: "drv_inv d" and w: "writing d"
  obtains b t bs where "writing_view d b t bs"
proof -
  let ?dev = "aesd_device d"
  from drv_invE [OF inv] obtain b where
    b: "circBufferPtr ?dev = Some b" "cb_inv b (hasBufferBeenFilled d)"
      "heap_inv (kheap d) (cb_entries b (hasBufferBeenFilled d)) (drv_tmp d)"
      "drv_log d = heap_log (kheap d) (cb_entries b (hasBufferBeenFilled d))" .
  have tmp: "drv_tmp d = Some (tempBuffer ?dev, unat (tempBufferSize ?dev), unat (tempBufferIndex ?dev))"
    using w by (simp add: drv_tmp_def writing_def Let_def)
  from b(3) [unfolded tmp heap_inv.simps] obtain bs where
    bs: "block_of (kheap d) (tempBuffer ?dev) = Some bs" "length bs = unat (tempBufferSize ?dev)"
      "0 < length bs" "length bs \<le> KMALLOC_MAX_SIZE" "unat (tempBufferIndex ?dev) \<le> length bs" by auto
  from bs(1) obtain t where t: "tempBuffer ?dev = Ptr t"
    by (cases "tempBuffer ?dev") (auto simp: block_of_def)
  show ?thesis using that [of b t bs] b bs t tmp
    by (simp add: writing_view_def block_of_def drv_pending_def bytes_of_def)
qed

lemma writing_viewD:
  assumes "writing_view d b t bs"
  defines "dev \<equiv> aesd_device d"
  shows "circBufferPtr dev = Some b" "cb_inv b (hasBufferBeenFilled d)"
    "drv_log d = heap_log (kheap d) (cb_entries b (hasBufferBeenFilled d))"
    "tempBuffer dev = Ptr t" "kheap d t = Some bs"
    "heap_inv (kheap d) (cb_entries b (hasBufferBeenFilled d))
       (Some (Ptr t, unat (tempBufferSize dev), unat (tempBufferIndex dev)))"
    "length bs = unat (tempBufferSize dev)" "0 < length bs" "length bs \<le> KMALLOC_MAX_SIZE"
    "unat (tempBufferIndex dev) \<le> length bs" "drv_pending d = take (unat (tempBufferIndex dev)) bs"
  using assms(1) unfolding writing_view_def dev_def Let_def by blast+

text \<open>The facts every stage unfolds to describe the state it leaves.\<close>

lemmas drv_view_defs = drv_inv_def drv_log_def drv_tmp_def drv_pending_def

lemma kmalloc_okD:
  "kernel_ok K \<Longrightarrow> kmalloc K h n = Some (a, bs) \<Longrightarrow>
   h a = None \<and> length bs = n \<and> n \<le> KMALLOC_MAX_SIZE"
  by (simp add: kernel_ok_def kmalloc_ok_def)

lemma krealloc_okD:
  assumes "kernel_ok K" "h a = Some old" "krealloc K h a n = Some (a', bs)"
  shows "(a' = a \<or> h a' = None) \<and> length bs = n \<and> n \<le> KMALLOC_MAX_SIZE \<and>
    take (min n (length old)) bs = take (min n (length old)) old"
proof -
  have "krealloc_ok K" using assms(1) by (simp add: kernel_ok_def)
  from this [unfolded krealloc_ok_def, THEN spec, of h, THEN spec, of a, THEN spec, of old,
      THEN spec, of n, THEN spec, of a', THEN spec, of bs]
  show ?thesis using assms(2,3) by simp
qed

lemma copy_from_user_okD:
  "kernel_ok K \<Longrightarrow> copy_from_user K m = (cs, r) \<Longrightarrow>
   length cs \<le> unat m \<and> unat r \<le> unat m \<and> (r = 0 \<longrightarrow> length cs = unat m)"
  by (simp add: kernel_ok_def copy_from_user_ok_def)

lemma write_start_ok:
  assumes K: "kernel_ok K" and inv: "drv_inv d"
    and C: "refused K TEMP_BUFFER_STARTING_SIZE \<Longrightarrow> C (- ENOMEM)"
  shows "stage_ok C d (\<lambda>d'. writing d' \<and> drv_log d' = drv_log d \<and> drv_pending d' = drv_pending d) (aesd_write_start K d)"
proof (cases "onGoingWrite (aesd_device d) = 0")
  case False
  with inv show ?thesis by (simp add: aesd_write_start_def writing_def)
next
  case True
  from drv_invE [OF inv] obtain b where b: "circBufferPtr (aesd_device d) = Some b" "cb_inv b (hasBufferBeenFilled d)"
    "heap_inv (kheap d) (cb_entries b (hasBufferBeenFilled d)) (drv_tmp d)"
    "drv_log d = heap_log (kheap d) (cb_entries b (hasBufferBeenFilled d))" .
  have tmp: "drv_tmp d = None" using True by (simp add: drv_tmp_def Let_def)
  show ?thesis
  proof (cases "kmalloc K (kheap d) TEMP_BUFFER_STARTING_SIZE")
    case None
    with True b tmp C refused_kmalloc [OF inv None order_refl] show ?thesis
      by (simp add: aesd_write_start_def do_kmalloc_def drv_view_defs)
  next
    case (Some r)
    obtain a bs where r: "r = (a, bs)" by (cases r)
    with Some kmalloc_okD [OF K] have a: "kheap d a = None" "length bs = 32" "32 \<le> KMALLOC_MAX_SIZE"
      by (auto simp: TEMP_BUFFER_STARTING_SIZE_def)
    from heap_alloc_temp [OF b(3) [unfolded tmp] a(1,2) _ a(3)]
    have "heap_inv ((kheap d)(a \<mapsto> bs)) (cb_entries b (hasBufferBeenFilled d)) (Some (Ptr a, 32, 0))"
      "heap_log ((kheap d)(a \<mapsto> bs)) (cb_entries b (hasBufferBeenFilled d)) = drv_log d"
      by (simp_all add: b(4))
    with True b tmp Some r show ?thesis
      by (simp add: aesd_write_start_def do_kmalloc_def drv_view_defs writing_def
         TEMP_BUFFER_STARTING_SIZE_def)
  qed
qed

text \<open>The doubling loop ends with a capacity for all bytes, less than twice their number.\<close>

lemma grow_for_write:
  assumes view: "writing_view d b t bs" and count: "unat count < 2 ^ 31"
  defines "dev \<equiv> aesd_device d" and "need \<equiv> length (drv_pending d) + unat count"
  obtains m where "grow_loop (size_of_int (tempBufferSize dev)) (size_of_int (tempBufferIndex dev) + count) False
      = Some (m, length bs < need)" "need \<le> unat m" "length bs \<le> unat m"
    "length bs < need \<Longrightarrow> unat m \<le> 2 * need"
proof -
  note b = writing_viewD [OF view]
  have sz: "unat (size_of_int (tempBufferSize dev)) = length bs"
    "unat (size_of_int (tempBufferIndex dev) + count) = need"
    using b(7,9-11) count by (simp_all add: dev_def need_def cint_simps KMALLOC_MAX_SIZE_def)
  have "need \<le> 2 ^ 62" using b(9-11) count by (simp add: need_def KMALLOC_MAX_SIZE_def)
  with grow_loop_returns [of "size_of_int (tempBufferSize dev)" "size_of_int (tempBufferIndex dev) + count" False]
  show ?thesis using b(8) that unfolding sz by (auto simp: word_less_nat_alt sz)
qed

lemma write_resize_ok:
  assumes K: "kernel_ok K" and inv: "drv_inv d" and w: "writing d" and count: "unat count < 2 ^ 31"
    and C: "refused K (2 * (length (drv_pending d) + unat count)) \<Longrightarrow> C (- ENOMEM)"
  shows "\<exists>s. aesd_write_resize K count d = Some s \<and>
    stage_ok C d (\<lambda>d'. writing d' \<and> drv_log d' = drv_log d \<and> drv_pending d' = drv_pending d \<and>
      unat (tempBufferIndex (aesd_device d')) + unat count \<le> unat (tempBufferSize (aesd_device d'))) s"
proof -
  let ?dev = "aesd_device d" and ?need = "length (drv_pending d) + unat count"
  let ?es = "\<lambda>b. cb_entries b (hasBufferBeenFilled d)"
  from writingE [OF inv w] obtain b t bs where view: "writing_view d b t bs" .
  note b = writing_viewD [OF view]
  have idx: "length (drv_pending d) = unat (tempBufferIndex ?dev)" using b(10,11) by simp
  from grow_for_write [OF view count] obtain m where
    m: "grow_loop (size_of_int (tempBufferSize ?dev)) (size_of_int (tempBufferIndex ?dev) + count) False
      = Some (m, length bs < ?need)" "?need \<le> unat m" "length bs \<le> unat m"
      "length bs < ?need \<Longrightarrow> unat m \<le> 2 * ?need" by blast
  consider "\<not> length bs < ?need" | "length bs < ?need" "krealloc K (kheap d) t (unat m) = None"
    | a cs where "length bs < ?need" "krealloc K (kheap d) t (unat m) = Some (a, cs)"
    by (cases "krealloc K (kheap d) t (unat m)") auto
  then show ?thesis
  proof cases
    case 1
    with m inv w b idx show ?thesis by (simp add: aesd_write_resize_def)
  next
    case 2
    with m(1) m(4) b C refused_krealloc [OF inv 2(2)] heap_free_temp [OF b(6)] show ?thesis
      by (simp add: aesd_write_resize_def do_krealloc_def mem_free_live drv_view_defs)
  next
    case 3
    with krealloc_okD [of K "kheap d" t bs "unat m" a cs] K b(5) m(3)
    have a: "a = t \<or> kheap d a = None" "length cs = unat m" "unat m \<le> KMALLOC_MAX_SIZE"
      "take (length bs) cs = bs" by (auto simp: min_def split: if_splits)
    have pend: "take (unat (tempBufferIndex ?dev)) cs = take (unat (tempBufferIndex ?dev)) bs"
      using b(10) a(4) by (metis min.absorb1 take_take)
    have im: "unat (int_of_size m) = unat m" using a(3) by (simp add: cint_simps KMALLOC_MAX_SIZE_def)
    from heap_realloc_temp [OF b(6) a(1,2) _ a(3)] m(3) b(7)
    have "heap_inv ((kheap d)(t := None, a \<mapsto> cs)) (?es b) (Some (Ptr a, unat m, unat (tempBufferIndex ?dev)))"
      "heap_log ((kheap d)(t := None, a \<mapsto> cs)) (?es b) = drv_log d" by (simp_all add: b(3))
    with 3 m b(1-10) w pend im idx show ?thesis
      by (simp add: aesd_write_resize_def do_krealloc_def drv_view_defs Let_def writing_def
          bytes_of_def block_of_def)
  qed
qed

lemma write_copy_ok:
  assumes K: "kernel_ok K" and inv: "drv_inv d" and w: "writing d" and count: "unat count < 2 ^ 31"
    and room: "unat (tempBufferIndex (aesd_device d)) + unat count \<le> unat (tempBufferSize (aesd_device d))"
    and C: "snd (copy_from_user K count) \<noteq> 0 \<Longrightarrow> C (- EFAULT)"
  shows "\<exists>s. aesd_write_copy K count d = Some s \<and>
    stage_ok C d (\<lambda>d'. writing d' \<and> drv_log d' = drv_log d \<and>
      drv_pending d' = drv_pending d @ fst (copy_from_user K count) \<and> 
      length (fst (copy_from_user K count)) = unat count) s"
proof -
  let ?dev = "aesd_device d"
  let ?i = "unat (tempBufferIndex ?dev)"
  from writingE [OF inv w] obtain b t bs where view: "writing_view d b t bs" .
  note b = writing_viewD [OF view]
  obtain cs r where user: "copy_from_user K count = (cs, r)" by (cases "copy_from_user K count")
  with copy_from_user_okD [OF K] have cs: "length cs \<le> unat count" "unat r \<le> unat count" "r = 0 \<longrightarrow> length cs = unat count" by auto
  have small: "?i + unat count < 2 ^ 31" using room b(7,9) by (simp add: KMALLOC_MAX_SIZE_def)
  then have sgn: "0 \<le> sint (tempBufferIndex ?dev)" by (simp add: sint_small)
  let ?bs = "take ?i bs @ cs @ drop (?i + length cs) bs"
  let ?h = "(kheap d)(t \<mapsto> ?bs)"
  have fit: "?i + length cs \<le> length bs" using cs(1) room b(7) by linarith
  have len: "length ?bs = unat (tempBufferSize ?dev)" using fit b(7) by simp
  have wr: "mem_write (kheap d) (Ptr t) ?i cs = Some ?h" using b(5) fit by (rule mem_write_live)
  show ?thesis
  proof (cases "r = 0")
    case True
    have idx: "unat (int_of_size (size_of_int (tempBufferIndex ?dev) + count)) = ?i + unat count"
      using small by (rule unat_int_add_size)
    from heap_write_temp [OF b(6) len room]
    have "heap_inv ?h (cb_entries b (hasBufferBeenFilled d)) (Some (Ptr t, unat (tempBufferSize ?dev), ?i + unat count))"
      "heap_log ?h (cb_entries b (hasBufferBeenFilled d)) = drv_log d" by (simp_all add: b(3))
    moreover have "take (?i + unat count) ?bs = take ?i bs @ cs" using True cs(3) fit by simp
    ultimately show ?thesis using True user wr sgn b(1-10) w idx cs(3)
      by (simp add: aesd_write_copy_def int_of_size_0 Let_def drv_view_defs writing_def bytes_of_def block_of_def)
  next
    case False
    have "unat (int_of_size r) = unat r" using cs(2) count by (simp add: cint_simps)
    then have "int_of_size r \<noteq> 0" using False by (metis unat_0 unat_eq_0)
    moreover have "?i \<le> unat (tempBufferSize ?dev)" using b(7,10) by simp
    from heap_write_temp [OF b(6) len this] 
    have "heap_inv ?h (cb_entries b (hasBufferBeenFilled d)) (Some (Ptr t, unat (tempBufferSize ?dev), ?i))"
      "heap_log ?h (cb_entries b (hasBufferBeenFilled d)) = drv_log d" by (simp_all add: b(3))
    moreover note heap_free_temp [OF this(1)]
    ultimately show ?thesis using user wr sgn b C False
      by (simp add: aesd_write_copy_def mem_free_def drv_view_defs)
  qed
qed

lemma heap_commit:
  assumes inv: "heap_inv h es (Some (Ptr t, sz, i))" and fresh: "h c = None"
    and e: "buffptr e = Ptr c" "unat (esize e) = length msg" "msg \<noteq> []" "length msg \<le> KMALLOC_MAX_SIZE"
    and gone: "es @ [e] = gone @ es'" "length gone \<le> 1" "es' \<noteq> []"
  obtains h1 h2 where "mem_free (h(c \<mapsto> msg)) (if gone = [] then NULL else buffptr (hd gone)) = Some h1"
    "mem_free h1 (Ptr t) = Some h2" "heap_inv h2 es' None"
    "heap_log h2 es' = drop (length gone) (heap_log h es @ [msg])"
    "heap_log (h(c \<mapsto> msg)) gone = take (length gone) (heap_log h es @ [msg])" "bytes_of h1 (Ptr c) = msg"
proof -
  let ?h = "h(c \<mapsto> msg)"
  have "heap_inv ?h (gone @ es') (Some (Ptr t, sz, i))"
    and log: "heap_log ?h (gone @ es') = heap_log h es @ [msg]"
    using heap_add_entry [OF inv fresh e] gone(1) by auto
  then obtain h1 where h1: "mem_free ?h (if gone = [] then NULL else buffptr (hd gone)) = Some h1"
    "heap_inv h1 es' (Some (Ptr t, sz, i))" "heap_log h1 es' = heap_log ?h es'"
    using gone(2) by (cases gone) (auto simp: mem_simps elim: heap_evict)
  from h1(2) obtain bs where "h1 t = Some bs" by (auto simp: heap_inv.simps block_of_def)
  then have t: "mem_free h1 (Ptr t) = Some (h1(t := None))" by (rule mem_free_live)
  have es': "heap_log ?h es' = drop (length gone) (heap_log h es @ [msg])"
    and gone_log: "heap_log ?h gone = take (length gone) (heap_log h es @ [msg])"
    unfolding log [symmetric] by (simp_all add: heap_log_def)
  have "last es' = e" using gone(1,3) by (metis last_appendR last_snoc)
  then have "bytes_of h1 (Ptr c) = last (heap_log h1 es')" using gone(3) e(1) by (simp add: heap_log_def last_map)
  moreover have "length gone \<le> length (heap_log h es)"
    using gone(3) arg_cong [OF gone(1), of length] by (cases es') (simp_all add: heap_log_def)
  ultimately have "bytes_of h1 (Ptr c) = msg" by (simp add: h1(3) es')
  moreover note h1 heap_free_temp [OF h1(2)] t es' gone_log
  ultimately show ?thesis using that by auto
qed

text \<open>
  The steps of a commit whose block was allocated: the evicted entry and the memory after each release.
\<close>

lemma write_commit_steps:
  assumes K: "kernel_ok K" and view: "writing_view d b t bs" and pos: "0 < unat (tempBufferIndex (aesd_device d))"
    and mem: "kmalloc K (kheap d) (unat (tempBufferIndex (aesd_device d))) = Some (c, junk)"
  defines "n \<equiv> unat (tempBufferIndex (aesd_device d))" and "log \<equiv> drv_log d @ [drv_pending d]"
    and "h0 \<equiv> (kheap d)(c \<mapsto> replicate (unat (tempBufferIndex (aesd_device d))) 0)"
    and "h2 \<equiv> (kheap d)(c \<mapsto> drv_pending d)"
    and "e \<equiv> \<lparr>buffptr = Ptr c, esize = size_of_int (tempBufferIndex (aesd_device d))\<rparr>"
  obtains old b' f' h3 h4 where
    "mem_write ((kheap d)(c \<mapsto> junk)) (Ptr c) 0 (replicate n 0) = Some h0"
    "mem_read h0 (Ptr t) 0 n = Some (drv_pending d)" "mem_write h0 (Ptr c) 0 (drv_pending d) = Some h2"
    "aesd_circular_buffer_add_entry (Some b) (Some e) (hasBufferBeenFilled d) = Some (old, Some b', f')"
    "cb_inv b' f'" "mem_free h2 old = Some h3" "mem_free h3 (Ptr t) = Some h4" "heap_inv h4 (cb_entries b' f') None"
    "heap_log h4 (cb_entries b' f') = last_n AESDCHAR_MAX_WRITE_OPERATIONS_SUPPORTED log"
    "old \<noteq> NULL \<longleftrightarrow> length (drv_log d) = AESDCHAR_MAX_WRITE_OPERATIONS_SUPPORTED"
    "old \<noteq> NULL \<longrightarrow> bytes_of h2 old = hd (drv_log d)" "bytes_of h3 (Ptr c) = drv_pending d"
proof -
  let ?f = "hasBufferBeenFilled d"
  note b = writing_viewD [OF view]
  have sz: "unat (size_of_int (tempBufferIndex (aesd_device d))) = n" using b(9,10)
    by (simp add: cint_simps KMALLOC_MAX_SIZE_def n_def)
  from kmalloc_okD [OF K] mem have c: "kheap d c = None" "length junk = n" "n \<le> KMALLOC_MAX_SIZE"
    by (auto simp: n_def)
  have ct: "c \<noteq> t" using c b(5) by auto
  have steps: "mem_write ((kheap d)(c \<mapsto> junk)) (Ptr c) 0 (replicate n 0) = Some h0"
    "mem_read h0 (Ptr t) 0 n = Some (drv_pending d)" "mem_write h0 (Ptr c) 0 (drv_pending d) = Some h2"
    using c ct b(5,10,11) by (simp_all add: mem_simps n_def h0_def h2_def)
  have len: "length (drv_log d) = length (cb_entries b ?f)" by (simp add: b(3) heap_log_def)
  from cb.content_bound [of "(b, ?f)"] b(2)
  have full: "length (drv_log d) \<le> AESDCHAR_MAX_WRITE_OPERATIONS_SUPPORTED" by (simp add: len)
  from cb.add_conserves [of "(b, ?f)" e] b(2) obtain gone b' f' where
    add: "aesd_circular_buffer_add_entry (Some b) (Some e) ?f =
        Some (if gone = [] then NULL else buffptr (hd gone), Some b', f')" "cb_inv b' f'"
      "cb_entries b ?f @ [e] = gone @ cb_entries b' f'" "length gone \<le> 1"
      "length gone = Suc (length (drv_log d)) - AESDCHAR_MAX_WRITE_OPERATIONS_SUPPORTED"
    by (fastforce simp: cb_add_def len split: option.splits prod.splits)
  let ?old = "if gone = [] then NULL else buffptr (hd gone)"
  have ne: "cb_entries b' f' \<noteq> []" using arg_cong [OF add(3), of length] add(5) len by (auto simp: CB_MAX)
  obtain h3 h4 where h: "mem_free h2 ?old = Some h3" "mem_free h3 (Ptr t) = Some h4"
    "heap_inv h4 (cb_entries b' f') None" "heap_log h4 (cb_entries b' f') = drop (length gone) log"
    "heap_log h2 gone = take (length gone) log" "bytes_of h3 (Ptr c) = drv_pending d"
    using heap_commit [OF b(6) c(1), of e "drv_pending d" gone "cb_entries b' f'"] c(3) sz pos b(3,8,10,11) add(3,4) ne
    by (auto simp: e_def n_def h2_def log_def)
  have "drop (length gone) log = last_n AESDCHAR_MAX_WRITE_OPERATIONS_SUPPORTED log"
    by (simp add: last_n_def add(5) log_def)
  moreover have "buffptr g \<noteq> NULL" if "g \<in> set (cb_entries b ?f @ [e])" for g
    using that b(6) by (auto simp: heap_inv.simps entry_ok_def block_of_def e_def)
  then have "?old \<noteq> NULL \<longleftrightarrow> gone \<noteq> []" unfolding add(3) by (cases gone) auto
  moreover have "gone \<noteq> [] \<longleftrightarrow> length (drv_log d) = AESDCHAR_MAX_WRITE_OPERATIONS_SUPPORTED"
    using full add(5) by (auto simp flip: length_greater_0_conv)
  moreover have "bytes_of h2 ?old = hd (drv_log d)" if "gone \<noteq> []"
    using that h(5) add(4,5) by (cases gone; cases "drv_log d") (auto simp: log_def heap_log_def CB_MAX)
  ultimately show thesis using that [OF steps add(1,2) h(1-3)] h(4,6) by simp
qed

lemma write_commit_ok:
  assumes K: "kernel_ok K" and inv: "drv_inv d" and w: "writing d"
    and pos: "0 < unat (tempBufferIndex (aesd_device d))"
    and C: "refused K (length (drv_pending d)) \<Longrightarrow> C (- ENOMEM)"
  shows "\<exists>s. aesd_write_commit K d = Some s \<and>
    stage_ok C d (\<lambda>d'. drv_log d' = last_n AESDCHAR_MAX_WRITE_OPERATIONS_SUPPORTED (drv_log d @ [drv_pending d]) \<and>
      drv_pending d' = []) s"
proof -
  let ?i = "unat (tempBufferIndex (aesd_device d))"
  from writingE [OF inv w] obtain b t bs where view: "writing_view d b t bs" .
  note b = writing_viewD [OF view]
  have sz: "unat (size_of_int (tempBufferIndex (aesd_device d))) = ?i" using b(9,10)
    by (simp add: cint_simps KMALLOC_MAX_SIZE_def)
  show ?thesis
  proof (cases "kmalloc K (kheap d) ?i")
    case None
    have "?i \<le> length (drv_pending d)" using b(10,11) by simp
    with None sz b C refused_kmalloc [OF inv None] heap_free_temp [OF b(6)] show ?thesis
      by (simp add: aesd_write_commit_def do_kmalloc_def mem_free_live Let_def drv_view_defs)
  next
    case (Some r)
    obtain c junk where r: "r = (c, junk)" by (cases r)
    from K view pos Some [unfolded r] show ?thesis
      by (rule write_commit_steps) 
        (use Some r sz b(1,4) in \<open>simp add: aesd_write_commit_def do_kmalloc_def Let_def drv_view_defs\<close>)
  qed
qed

lemma spec_write_append: "spec_write (log, pending @ data) [] = spec_write (log, pending) data"
  by simp

text \<open>The test of the last byte collected.\<close>

lemma write_last_byte:
  assumes inv: "drv_inv d" and w: "writing d"
  defines "dev \<equiv> aesd_device d"
  shows "0 < sint (tempBufferIndex dev) \<longleftrightarrow> drv_pending d \<noteq> []"
    and "0 < unat (tempBufferIndex dev) \<longleftrightarrow> drv_pending d \<noteq> []"
    and "drv_pending d \<noteq> [] \<Longrightarrow>
      mem_read (kheap d) (tempBuffer dev) (unat (tempBufferIndex dev - 1)) 1 = Some [last (drv_pending d)]"
proof -
  let ?i = "unat (tempBufferIndex dev)"
  from writingE [OF inv w] obtain b' t bs where view: "writing_view d b' t bs" .
  note b = writing_viewD(4,5,9-11) [OF view, folded dev_def]
  show pos: "0 < ?i \<longleftrightarrow> drv_pending d \<noteq> []" using b(4,5) by (cases bs) auto
  show "0 < sint (tempBufferIndex dev) \<longleftrightarrow> drv_pending d \<noteq> []"
    unfolding pos [symmetric] using b(3,4) by (intro sint_pos_small) (simp add: KMALLOC_MAX_SIZE_def)
  assume ne: "drv_pending d \<noteq> []"
  then have i: "0 < ?i" by (simp add: pos)
  then have "tempBufferIndex dev \<noteq> 0" by auto
  then have i1: "unat (tempBufferIndex dev - 1) = ?i - 1" by (rule unat_minus_one)
  have "last (drv_pending d) = bs ! (?i - 1)"
    using ne i b(4,5) by (auto simp: last_conv_nth simp del: take_eq_Nil)
  then show "mem_read (kheap d) (tempBuffer dev) (unat (tempBufferIndex dev - 1)) 1 = Some [last (drv_pending d)]"
    using i b(1,2,4) by (simp add: i1 mem_simps take_Suc_conv_app_nth)
qed

lemma write_finish_ok:
  assumes K: "kernel_ok K" and inv: "drv_inv d" and w: "writing d"
    and C: "refused K (length (drv_pending d)) \<Longrightarrow> C (- ENOMEM)"
  shows "\<exists>s. aesd_write_finish K d = Some s \<and>
    stage_ok C d (\<lambda>d'. (drv_log d', drv_pending d') = spec_write (drv_log d, drv_pending d) []) s"
  using write_last_byte [OF inv w] write_commit_ok [OF K inv w, of C] C inv
  by (cases "drv_pending d = []") (auto simp: aesd_write_finish_def Let_def)

lemma stage_ok_trans:
  assumes "stage_ok C d P s" "\<And>d1. drv_inv d1 \<Longrightarrow> P d1 \<Longrightarrow> drv_log d1 = drv_log d \<and> 
     (\<exists>s'. f d1 = Some s' \<and> stage_ok C d1 Q s')"
  shows "\<exists>s'. next_stage s f = Some s' \<and> stage_ok C d Q s'"
proof (cases s)
  case (Inl r)
  with assms(1) show ?thesis by simp
next
  case (Inr d1)
  with assms(1) have "drv_inv d1" "P d1" by auto
  with assms(2) obtain s' where "drv_log d1 = drv_log d" "f d1 = Some s'" "stage_ok C d1 Q s'" by blast
  with Inr show ?thesis by (cases s') auto
qed

lemma refused_mono: "refused K m \<Longrightarrow> m \<le> n \<Longrightarrow> refused K n"
  unfolding refused_def using le_trans by blast

text \<open>The stages of a write before the last.\<close>

lemma write_error_mem:
  "refused K m \<Longrightarrow> m \<le> max TEMP_BUFFER_STARTING_SIZE (2 * (length (drv_pending d) + unat count)) \<Longrightarrow>
   write_error K count d (- ENOMEM)"
  using refused_mono by (auto simp: write_error_def)

lemma write_error_ret: "write_error K count d ret \<Longrightarrow> unat count < 2 ^ 31 \<Longrightarrow> ret \<noteq> count"
  by (auto simp: write_error_def EFAULT_def ENOMEM_def)

lemma aesd_write_stages:
  assumes K: "kernel_ok K" and inv: "drv_inv d" and count: "unat count < 2 ^ 31"
  obtains s1 s2 where "next_stage (aesd_write_start K d) (aesd_write_resize K count) = Some s1"
    "next_stage s1 (aesd_write_copy K count) = Some s2"
    "stage_ok (write_error K count d) d (\<lambda>d'. writing d' \<and> drv_log d' = drv_log d \<and>
       drv_pending d' = drv_pending d @ fst (copy_from_user K count) \<and>
       length (fst (copy_from_user K count)) = unat count) s2"
proof -
  let ?C = "write_error K count d"
  let ?Q1 = "\<lambda>d'. writing d' \<and> drv_log d' = drv_log d \<and> drv_pending d' = drv_pending d \<and>
      unat (tempBufferIndex (aesd_device d')) + unat count \<le> unat (tempBufferSize (aesd_device d'))"
  let ?Q2 = "\<lambda>d'. writing d' \<and> drv_log d' = drv_log d \<and>
      drv_pending d' = drv_pending d @ fst (copy_from_user K count) \<and>
      length (fst (copy_from_user K count)) = unat count"
  note mem = write_error_mem [of K _ d count]
  have usr: "?C (- EFAULT)" if "snd (copy_from_user K count) \<noteq> 0" using that by (simp add: write_error_def)
  have "stage_ok ?C d (\<lambda>d'. writing d' \<and> drv_log d' = drv_log d \<and> drv_pending d' = drv_pending d) (aesd_write_start K d)"
    using write_start_ok [OF K inv] mem by simp
  from stage_ok_trans [OF this, of "aesd_write_resize K count" ?Q1]
  obtain s1 where s1: "next_stage (aesd_write_start K d) (aesd_write_resize K count) = Some s1" "stage_ok ?C d ?Q1 s1"
    using write_resize_ok [OF K _ _ count, of _ ?C] mem by fastforce
  from stage_ok_trans [OF s1(2), of "aesd_write_copy K count" ?Q2]
  obtain s2 where "next_stage s1 (aesd_write_copy K count) = Some s2" "stage_ok ?C d ?Q2 s2"
    using write_copy_ok [OF K _ _ count, of _ ?C] usr by fastforce
  with s1(1) show thesis by (rule that)
qed

lemma aesd_write_correct:
  assumes K: "kernel_ok K" and inv: "drv_inv d" and count: "unat count < 2 ^ 31"
  shows "\<exists>ret f_pos' d'. aesd_write K count f_pos d = Some (ret, f_pos', d') \<and> drv_inv d' \<and>
    (ret = count \<and> f_pos' = f_pos + count \<and> length (fst (copy_from_user K count)) = unat count \<and>
       (drv_log d', drv_pending d') = spec_write (drv_log d, drv_pending d) (fst (copy_from_user K count))
     \<or> (ret = - EFAULT \<and> snd (copy_from_user K count) \<noteq> 0 \<or>
        ret = - ENOMEM \<and> refused K (max TEMP_BUFFER_STARTING_SIZE (2 * (length (drv_pending d) + unat count)))) \<and>
       f_pos' = f_pos \<and> drv_log d' = drv_log d \<and> drv_pending d' = [])"
proof -
  let ?C = "write_error K count d"
  let ?cs = "fst (copy_from_user K count)"
  let ?Q3 = "\<lambda>d'. (drv_log d', drv_pending d') = spec_write (drv_log d, drv_pending d) ?cs \<and> length ?cs = unat count"
  from aesd_write_stages [OF assms] obtain s1 s2 where
    s: "next_stage (aesd_write_start K d) (aesd_write_resize K count) = Some s1"
      "next_stage s1 (aesd_write_copy K count) = Some s2"
      "stage_ok ?C d (\<lambda>d'. writing d' \<and> drv_log d' = drv_log d \<and>
         drv_pending d' = drv_pending d @ ?cs \<and> length ?cs = unat count) s2" .
  have "drv_log d1 = drv_log d \<and> (\<exists>s'. aesd_write_finish K d1 = Some s' \<and> stage_ok ?C d1 ?Q3 s')"
    if "drv_inv d1" "writing d1 \<and> drv_log d1 = drv_log d \<and>
         drv_pending d1 = drv_pending d @ ?cs \<and> length ?cs = unat count" for d1
  proof -
    from write_finish_ok [OF K that(1), of ?C] write_error_mem [of K _ d count] that(2)
    obtain s' where "aesd_write_finish K d1 = Some s'"
      "stage_ok ?C d1 (\<lambda>d'. (drv_log d', drv_pending d') = spec_write (drv_log d, drv_pending d @ ?cs) []) s'"
      by auto
    with that(2) show ?thesis by (cases s') (auto simp only: spec_write_append stage_ok.simps)
  qed
  from stage_ok_trans [OF s(3) this]
  obtain s3 where "next_stage s2 (aesd_write_finish K) = Some s3" "stage_ok ?C d ?Q3 s3" by blast
  with s(1,2) show ?thesis by (cases s3) (auto simp: aesd_write_def write_error_def)
qed

end
