(* ===== verification/CharDriverDebug.thy ===== *)
theory CharDriverDebug
  imports CharDriver
begin

text \<open>
  The write operation of the driver as it is built with \<open>AESD_DEBUG\<close> (\<open>aesdchar.h\<close> defines
  it): \<open>PDEBUG\<close> is \<open>printk\<close>, and two of its calls print a stored command with \<open>%s\<close>.
  The blocks of the commands have exactly the size of the message, with no terminating zero, so
  these two prints read memory. Every other \<open>PDEBUG\<close> of the driver prints numbers and reads
  nothing. The lemmas compare this write with \<open>aesd_write\<close>, which leaves the prints out.
\<close>

section \<open>Writing with debug output\<close>

text \<open>
  A print with \<open>%s\<close> reads up to the first zero byte; a block without one is read past its end.
\<close>

definition PDEBUG_string :: "heap \<Rightarrow> ptr \<Rightarrow> unit option" where
  "PDEBUG_string h p = (if 0 \<in> set (bytes_of h p) then Some () else None)"

definition aesd_write_commit_debug :: "kernel \<Rightarrow> driver \<Rightarrow> stage option" where
  "aesd_write_commit_debug K d = do {
     let dev = aesd_device d;
     let size = unat (size_of_int (tempBufferIndex dev));
     let (p, h) = do_kmalloc K (kheap d) size;
     let newCircEntry = \<lparr>buffptr = p, esize = size_of_int (tempBufferIndex dev)\<rparr>;
     if p = NULL then do {
       h' \<leftarrow> mem_free h (tempBuffer dev);
       Some (Inl (- ENOMEM, d\<lparr>kheap := h', aesd_device := dev\<lparr>onGoingWrite := 0\<rparr>\<rparr>))
     } else do {
       h1 \<leftarrow> mem_write h p 0 (replicate size 0);
       msg \<leftarrow> mem_read h1 (tempBuffer dev) 0 size;
       h2 \<leftarrow> mem_write h1 p 0 msg;
       (oldEntryBufPtr, circ, filled) \<leftarrow>
         aesd_circular_buffer_add_entry (circBufferPtr dev) (Some newCircEntry) (hasBufferBeenFilled d);
       h3 \<leftarrow> (if oldEntryBufPtr \<noteq> NULL then do {
           _ \<leftarrow> PDEBUG_string h2 oldEntryBufPtr;
           mem_free h2 oldEntryBufPtr
         } else Some h2);
       _ \<leftarrow> PDEBUG_string h3 (buffptr newCircEntry);
       h4 \<leftarrow> mem_free h3 (tempBuffer dev);
       Some (Inr (d\<lparr>kheap := h4, hasBufferBeenFilled := filled, aesd_device := dev\<lparr>
         circBufferPtr := circ, onGoingWrite := 0, tempBuffer := NULL,
         tempBufferIndex := 0, tempBufferSize := 0\<rparr>\<rparr>))
     }
   }"

definition aesd_write_finish_debug :: "kernel \<Rightarrow> driver \<Rightarrow> stage option" where
  "aesd_write_finish_debug K d = do {
     let dev = aesd_device d;
     if 0 < sint (tempBufferIndex dev) then do {
       c \<leftarrow> mem_read (kheap d) (tempBuffer dev) (unat (tempBufferIndex dev - 1)) 1;
       if c = [newline] then aesd_write_commit_debug K d else Some (Inr d)
     } else Some (Inr d)
   }"

definition aesd_write_debug :: "kernel \<Rightarrow> u64 \<Rightarrow> u64 \<Rightarrow> driver \<Rightarrow> (u64 \<times> u64 \<times> driver) option" where
  "aesd_write_debug K count f_pos d = do {
     s1 \<leftarrow> next_stage (aesd_write_start K d) (aesd_write_resize K count);
     s2 \<leftarrow> next_stage s1 (aesd_write_copy K count);
     s3 \<leftarrow> next_stage s2 (aesd_write_finish_debug K);
     Some (case s3 of Inl (ret, d') \<Rightarrow> (ret, f_pos, d') | Inr d' \<Rightarrow> (count, f_pos + count, d'))
   }"

text \<open>
  The prints of a write that completes \<open>msg\<close> overrun a block: the new command has no zero byte,
  or the log is full and the command that leaves it has none.
\<close>

definition debug_overrun :: "byte list list \<Rightarrow> byte list \<Rightarrow> bool" where
  "debug_overrun log msg \<longleftrightarrow> msg \<noteq> [] \<and> last msg = newline \<and>
     (0 \<notin> set msg \<or> length log = AESDCHAR_MAX_WRITE_OPERATIONS_SUPPORTED \<and> 0 \<notin> set (hd log))"

text \<open>A stage that faults instead of going on when the prints overrun.\<close>

definition with_prints :: "byte list list \<Rightarrow> byte list \<Rightarrow> stage option \<Rightarrow> stage option" where
  "with_prints log msg r = (case r of
     Some (Inr d') \<Rightarrow> if debug_overrun log msg then None else Some (Inr d')
   | _ \<Rightarrow> r)"

section \<open>Comparison with the write without prints\<close>

lemma write_commit_debug:
  assumes K: "kernel_ok K" and inv: "drv_inv d" and w: "writing d"
    and msg: "drv_pending d \<noteq> []" "last (drv_pending d) = newline"
  shows "aesd_write_commit_debug K d = with_prints (drv_log d) (drv_pending d) (aesd_write_commit K d)"
proof -
  let ?i = "unat (tempBufferIndex (aesd_device d))"
  from writingE [OF inv w] obtain b t bs where view: "writing_view d b t bs" .
  note b = writing_viewD [OF view]
  have sz: "unat (size_of_int (tempBufferIndex (aesd_device d))) = ?i" using b(9,10)
    by (simp add: cint_simps KMALLOC_MAX_SIZE_def)
  have pos: "0 < ?i" using write_last_byte(2) [OF inv w] msg(1) by simp
  show ?thesis
  proof (cases "kmalloc K (kheap d) ?i")
    case None
    with sz b show ?thesis
      by (simp add: aesd_write_commit_def aesd_write_commit_debug_def do_kmalloc_def mem_free_live Let_def with_prints_def)
  next
    case (Some r)
    obtain c junk where r: "r = (c, junk)" by (cases r)
    from K view pos Some [unfolded r] show ?thesis
    proof (rule write_commit_steps)
      fix old b' f' h3 h4
      assume steps: "mem_write ((kheap d)(c \<mapsto> junk)) (Ptr c) 0 (replicate ?i 0) = Some ((kheap d)(c \<mapsto> replicate ?i 0))"
        "mem_read ((kheap d)(c \<mapsto> replicate ?i 0)) (Ptr t) 0 ?i = Some (drv_pending d)"
        "mem_write ((kheap d)(c \<mapsto> replicate ?i 0)) (Ptr c) 0 (drv_pending d) = Some ((kheap d)(c \<mapsto> drv_pending d))"
        "aesd_circular_buffer_add_entry (Some b) (Some \<lparr>buffptr = Ptr c, esize = size_of_int (tempBufferIndex (aesd_device d))\<rparr>)
           (hasBufferBeenFilled d) = Some (old, Some b', f')"
        "mem_free ((kheap d)(c \<mapsto> drv_pending d)) old = Some h3" "mem_free h3 (Ptr t) = Some h4"
      assume seen: "old \<noteq> NULL \<longleftrightarrow> length (drv_log d) = AESDCHAR_MAX_WRITE_OPERATIONS_SUPPORTED"
        "old \<noteq> NULL \<longrightarrow> bytes_of ((kheap d)(c \<mapsto> drv_pending d)) old = hd (drv_log d)"
        "bytes_of h3 (Ptr c) = drv_pending d"
      show ?thesis
      proof (cases "old = NULL")
        case True
        with Some r sz b(1,4) steps seen msg show ?thesis
          by (simp add: aesd_write_commit_def aesd_write_commit_debug_def do_kmalloc_def Let_def
              with_prints_def debug_overrun_def PDEBUG_string_def mem_simps)
      next
        case False
        with Some r sz b(1,4) steps seen msg show ?thesis
          by (simp add: aesd_write_commit_def aesd_write_commit_debug_def do_kmalloc_def Let_def
              with_prints_def debug_overrun_def PDEBUG_string_def)
      qed
    qed
  qed
qed

lemma write_finish_debug:
  assumes "kernel_ok K" and inv: "drv_inv d" and w: "writing d"
  shows "aesd_write_finish_debug K d = with_prints (drv_log d) (drv_pending d) (aesd_write_finish K d)"
  using write_last_byte [OF inv w] write_commit_debug [OF assms]
  by (cases "drv_pending d = []")
    (auto simp: aesd_write_finish_def aesd_write_finish_debug_def Let_def with_prints_def debug_overrun_def)

lemma aesd_write_debug_correct:
  assumes K: "kernel_ok K" and inv: "drv_inv d" and count: "unat count < 2 ^ 31"
  shows "aesd_write_debug K count f_pos d = (case aesd_write K count f_pos d of None \<Rightarrow> None
    | Some (ret, f_pos', d') \<Rightarrow>
        if ret = count \<and> debug_overrun (drv_log d) (drv_pending d @ fst (copy_from_user K count))
        then None else Some (ret, f_pos', d'))"
proof -
  from aesd_write_stages [OF assms] obtain s1 s2 where
    s: "next_stage (aesd_write_start K d) (aesd_write_resize K count) = Some s1"
      "next_stage s1 (aesd_write_copy K count) = Some s2"
      "stage_ok (write_error K count d) d (\<lambda>d'. writing d' \<and> drv_log d' = drv_log d \<and>
         drv_pending d' = drv_pending d @ fst (copy_from_user K count) \<and>
         length (fst (copy_from_user K count)) = unat count) s2" .
  show ?thesis
  proof (cases s2)
    case (Inl r)
    with s write_error_ret [OF _ count] show ?thesis
      by (cases r) (auto simp: aesd_write_def aesd_write_debug_def)
  next
    case (Inr d2)
    with s(3) have d2: "drv_inv d2" "writing d2" "drv_log d2 = drv_log d"
      "drv_pending d2 = drv_pending d @ fst (copy_from_user K count)" "length (fst (copy_from_user K count)) = unat count" by auto
    from write_finish_ok [OF K d2(1,2), of "write_error K count d"] write_error_mem [of K _ d count] d2(4,5)
    obtain s3 where s3: "aesd_write_finish K d2 = Some s3" "\<forall>ret d'. s3 = Inl (ret, d') \<longrightarrow> ret \<noteq> count"
      using write_error_ret [OF _ count] by fastforce
    show ?thesis using s(1,2) Inr s3 write_finish_debug [OF K d2(1,2)] d2(3,4)
      by (cases s3) (auto simp: aesd_write_def aesd_write_debug_def with_prints_def)
  qed
qed

end
