(* ===== verification/CharDriverProps.thy ===== *)
theory CharDriverProps
  imports CharDriverDebug
begin

text \<open>
  The character driver as its users see it: reads, seeks and unloading in every reachable state,
  sequences of writes, and the properties of the driver.
\<close>

section \<open>Clients and reachable states\<close>

text \<open>
  A caller that reads until the end of the file, in requests of \<open>count\<close> bytes.
\<close>

fun read_all :: "kernel \<Rightarrow> u64 \<Rightarrow> nat \<Rightarrow> u64 \<Rightarrow> driver \<Rightarrow> byte list option" where
  "read_all K count 0 f_pos d = None"
| "read_all K count (Suc fuel) f_pos d = do {
     (ret, f_pos', bs) \<leftarrow> aesd_read K count f_pos d;
     if ret = 0 then Some [] else map_option ((@) bs) (read_all K count fuel f_pos' d)
   }"

text \<open>
  The states of the loaded module, under any answers of the kernel; the kernel cuts requests below $2^{31}$ bytes.
\<close>

inductive aesd_reachable :: "driver \<Rightarrow> bool" where
  load: "aesd_init_module K loaded = Some (0, d) \<Longrightarrow> aesd_reachable d"
| open_file: "aesd_reachable d \<Longrightarrow> aesd_open d = (ret, d') \<Longrightarrow> aesd_reachable d'"
| release_file: "aesd_reachable d \<Longrightarrow> aesd_release d = (ret, d') \<Longrightarrow> aesd_reachable d'"
| write_file: "aesd_reachable d \<Longrightarrow> kernel_ok K \<Longrightarrow> unat count < 2 ^ 31 \<Longrightarrow>
    aesd_write K count f_pos d = Some (ret, f_pos', d') \<Longrightarrow> aesd_reachable d'"

text \<open>
  A kernel that serves every block up to its limit and copies every byte.
\<close>

definition write_succeeds :: "kernel \<Rightarrow> u64 \<Rightarrow> bool" where
  "write_succeeds K count \<longleftrightarrow> kernel_ok K \<and> unat count < 2 ^ 31 \<and> snd (copy_from_user K count) = 0 \<and>
     \<not> refused K KMALLOC_MAX_SIZE"

text \<open>
  A sequence of writes, each under its own answers of the kernel, all required to succeed.
\<close>

fun aesd_write_all :: "(kernel \<times> u64) list \<Rightarrow> u64 \<Rightarrow> driver \<Rightarrow> (u64 \<times> driver) option" where
  "aesd_write_all [] f_pos d = Some (f_pos, d)"
| "aesd_write_all ((K, count) # ws) f_pos d = do {
     (ret, f_pos', d') \<leftarrow> aesd_write K count f_pos d;
     if ret = count then aesd_write_all ws f_pos' d' else None
   }"

text \<open>
  A kernel that never refuses, with \<open>data\<close> as the bytes of the caller; and the module just loaded under it.
\<close>

definition example_kernel :: "byte list \<Rightarrow> kernel" where
  "example_kernel data = \<lparr>
     kmalloc = (\<lambda>h n. if finite (dom h) \<and> n \<le> KMALLOC_MAX_SIZE
       then Some (Suc (Max (insert 0 (dom h))), replicate n 0) else None),
     krealloc = (\<lambda>h a n. if n \<le> KMALLOC_MAX_SIZE
       then Some (a, take n (bytes_of h (Ptr a) @ replicate n 0)) else None),
     copy_from_user = (\<lambda>n. (take (unat n) (data @ replicate (unat n) 0), 0)),
     copy_to_user = (\<lambda>_. 0), kmalloc_struct = True,
     alloc_chrdev_region = (0, 0), cdev_add = (\<lambda>_. 0)\<rparr>"

definition fresh_device :: driver where
  "fresh_device = loaded\<lparr>aesd_device := zero_dev\<lparr>circBufferPtr := Some aesd_circular_buffer_init\<rparr>\<rparr>"

section \<open>Reading\<close>

lemma entry_okD:
  assumes "entry_ok h e"
  shows "length (bytes_of h (buffptr e)) = unat (esize e)" "bytes_of h (buffptr e) \<noteq> []"
    "length (bytes_of h (buffptr e)) \<le> KMALLOC_MAX_SIZE"
    "mem_read h (buffptr e) off n = (if off + n \<le> length (bytes_of h (buffptr e))
       then Some (take n (drop off (bytes_of h (buffptr e)))) else if n = 0 then Some [] else None)"
  using assms by (auto simp: entry_ok_def bytes_of_def block_of_def mem_read_def split: ptr.splits)

lemma drv_inv_entries:
  assumes "drv_inv d" "circBufferPtr (aesd_device d) = Some b"
  shows "\<forall>e \<in> set (cb_entries b (hasBufferBeenFilled d)). entry_ok (kheap d) e"
    "distinct (map buffptr (cb_entries b (hasBufferBeenFilled d)))"
  using assms by (cases "drv_tmp d"; auto simp: drv_inv_def heap_inv.simps)+

lemma drv_log_facts:
  assumes inv: "drv_inv d" and b: "circBufferPtr (aesd_device d) = Some b"
  shows "cb_sizes b (hasBufferBeenFilled d) = map length (drv_log d)"
    "\<forall>m \<in> set (drv_log d). m \<noteq> [] \<and> length m \<le> KMALLOC_MAX_SIZE"
    "length (drv_log d) = length (cb_entries b (hasBufferBeenFilled d))"
    "length (drv_log d) \<le> AESDCHAR_MAX_WRITE_OPERATIONS_SUPPORTED"
proof -
  note e = drv_inv_entries(1) [OF assms]
  show "cb_sizes b (hasBufferBeenFilled d) = map length (drv_log d)"
    using b e by (simp add: drv_log_def heap_log_def cb_sizes_def entry_okD(1))
  show "\<forall>m \<in> set (drv_log d). m \<noteq> [] \<and> length m \<le> KMALLOC_MAX_SIZE"
    using b e by (auto simp: drv_log_def heap_log_def entry_okD(2,3))
  show len: "length (drv_log d) = length (cb_entries b (hasBufferBeenFilled d))"
    using b by (simp add: drv_log_def heap_log_def)
  have "cb_inv b (hasBufferBeenFilled d)" using inv b by (simp add: drv_inv_def)
  with len show "length (drv_log d) \<le> AESDCHAR_MAX_WRITE_OPERATIONS_SUPPORTED"
    using cb.content_bound [of "(b, hasBufferBeenFilled d)"] by simp
qed

lemma sum_list_bound:
  assumes "\<forall>x \<in> set xs. x \<le> (c :: nat)" shows "sum_list xs \<le> length xs * c"
  using assms by (induction xs) auto

lemma drv_total_small:
  assumes "drv_inv d" 
  shows "sum_list (map length (drv_log d)) < 2 ^ 31"
proof -
  obtain b where b: "circBufferPtr (aesd_device d) = Some b" using drv_invE [OF assms] .
  have "sum_list (map length (drv_log d)) \<le> length (map length (drv_log d)) * KMALLOC_MAX_SIZE"
    using drv_log_facts(2) [OF assms b] by (intro sum_list_bound) simp
  also have "\<dots> \<le> 10 * KMALLOC_MAX_SIZE" using drv_log_facts(4) [OF assms b] by (simp add: CB_MAX)
  also have "\<dots> < 2 ^ 31" by (simp add: KMALLOC_MAX_SIZE_def)
  finally show ?thesis .
qed

lemma unat_min_count:
  fixes left count :: u64
  shows "unat (if left < count then left else count) = min (unat count) (unat left)"
  by (auto simp: word_less_nat_alt min_def)

lemma aesd_read_found:
  assumes "circBufferPtr (aesd_device d) = Some b"
    and "aesd_circular_buffer_find_entry_offset_for_fpos (Some b) f_pos True = Some (Found i (Some off))"
    and "n = (if esize (entry b ! i) - off < count then esize (entry b ! i) - off else count)"
    and "mem_read (kheap d) (buffptr (entry b ! i)) (unat off) (unat n) = Some bs"
  shows "aesd_read K count f_pos d = Some (if copy_to_user K bs \<noteq> 0 then (- EFAULT, f_pos, [])
    else (n, f_pos + n, bs))"
  using assms by (cases "esize (entry b ! i) - off < count") (simp_all add: aesd_read_def Let_def)

lemma aesd_read_nonempty:
  assumes inv: "drv_inv d" and ne: "drv_log d \<noteq> []"
  shows "aesd_read K count f_pos d = Some (case locate (map length (drv_log d)) (unat f_pos) of
      None \<Rightarrow> (0, f_pos, [])
    | Some (k, off) \<Rightarrow> (let bs = take (unat count) (drop off (drv_log d ! k)) in
        if copy_to_user K bs \<noteq> 0 then (- EFAULT, f_pos, [])
        else (of_nat (length bs), f_pos + of_nat (length bs), bs)))"
proof -
  let ?f = "hasBufferBeenFilled d"
  obtain b where b: "circBufferPtr (aesd_device d) = Some b" "cb_inv b ?f" using drv_invE [OF inv] .
  note facts = drv_log_facts [OF inv b(1)]
  have "0 < sum_list (map length (drv_log d))" using ne facts(2) by (cases "drv_log d") auto
  with find_entry_nonempty [OF b(2), of f_pos True] drv_total_small [OF inv] facts(1)
  have find: "aesd_circular_buffer_find_entry_offset_for_fpos (Some b) f_pos True
      = Some (case locate (map length (drv_log d)) (unat f_pos) of None \<Rightarrow> NotFound
         | Some (k, r) \<Rightarrow> Found ((unat (out_offs b) + k) mod AESDCHAR_MAX_WRITE_OPERATIONS_SUPPORTED) (Some (of_nat r)))"
    by (auto split: option.splits)
  show ?thesis
  proof (cases "locate (map length (drv_log d)) (unat f_pos)")
    case None
    with b(1) show ?thesis by (simp add: aesd_read_def find)
  next
    case (Some kr)
    obtain k off where kr: "kr = (k, off)" by (cases kr)
    let ?e = "entry b ! ((unat (out_offs b) + k) mod AESDCHAR_MAX_WRITE_OPERATIONS_SUPPORTED)"
    let ?msg = "drv_log d ! k"
    from locate_SomeD [OF Some [unfolded kr]] have k: "k < length (drv_log d)" "off < length ?msg" by auto
    have e: "?e = cb_entries b ?f ! k" using nth_cb_entries [OF b(2)] k facts(3) by simp
    have ok: "entry_ok (kheap d) ?e" using drv_inv_entries(1) [OF inv b(1)] k facts(3) e by simp
    have msg: "bytes_of (kheap d) (buffptr ?e) = ?msg" using b(1) k facts(3) e by (simp add: drv_log_def heap_log_def)
    have lmsg: "length ?msg < 2 ^ 64" "unat (esize ?e) = length ?msg" 
      using facts(2) k entry_okD(1) [OF ok] msg by (auto simp: KMALLOC_MAX_SIZE_def dest!: nth_mem)
    have off: "unat (of_nat off :: u64) = off" using k lmsg by (intro unat_of_nat_u64) simp
    have left: "unat (esize ?e - of_nat off) = length ?msg - off" using k off lmsg(2)
      by (subst unat_sub) (auto simp: word_le_nat_alt)
    let ?n = "if esize ?e - of_nat off < count then esize ?e - of_nat off else count"
    let ?bs = "take (unat count) (drop off ?msg)"
    have n: "unat ?n = length ?bs" unfolding unat_min_count left by simp
    then have n': "?n = of_nat (length ?bs)" by (rule word_eq_of_nat)
    have "mem_read (kheap d) (buffptr ?e) off (unat ?n) = Some ?bs"
      using entry_okD(4) [OF ok, of off "unat ?n"] k unfolding msg n by (auto simp: min_def)
    with aesd_read_found [OF b(1) _ n' [symmetric]] find Some kr off n' show ?thesis
      by (simp add: Let_def)
  qed
qed

lemma drv_log_empty:
  assumes inv: "drv_inv d" and e: "drv_log d = []" and b: "circBufferPtr (aesd_device d) = Some b"
  shows "cb_sizes b (hasBufferBeenFilled d) = []" "entry b ! unat (out_offs b) = zero_entry"
proof -
  note facts = drv_log_facts [OF inv b]
  show "cb_sizes b (hasBufferBeenFilled d) = []" using facts(1) e by simp
  have "cb_inv b (hasBufferBeenFilled d)" using inv b by (simp add: drv_inv_def)
  moreover have "cb_count b (hasBufferBeenFilled d) = 0" using facts(3) e by (simp add: length_cb_entries)
  ultimately show "entry b ! unat (out_offs b) = zero_entry"
    by (auto simp: cb_inv_def cb_count_def CB_MAX split: if_splits)
qed

lemma aesd_read_empty:
  assumes inv: "drv_inv d" and e: "drv_log d = []"
  shows "aesd_read K count f_pos d =
    (if f_pos = 0 \<or> count = 0 then Some (if copy_to_user K [] \<noteq> 0 then (- EFAULT, f_pos, []) else (0, f_pos, []))
     else None)"
proof -
  obtain b where b: "circBufferPtr (aesd_device d) = Some b" "cb_inv b (hasBufferBeenFilled d)" using drv_invE [OF inv] .
  note emp = drv_log_empty [OF inv e b(1)]
  have "aesd_circular_buffer_find_entry_offset_for_fpos (Some b) f_pos True = Some (Found (unat (out_offs b)) (Some f_pos))"
    using find_entry_empty [OF b(2), of f_pos True] emp(1) by simp
  moreover have "unat (if - f_pos < count then - f_pos else count) = 0 \<longleftrightarrow> f_pos = 0 \<or> count = 0"
    by (auto simp: unat_min_count min_def unat_eq_0 split: if_splits)
  ultimately show ?thesis using b(1) emp(2)
    by (auto simp: aesd_read_def zero_entry_def Let_def mem_read_def unat_eq_0 split: if_splits)
qed

text \<open>One read of a caller: the end of the file, or some of the bytes at the position.\<close>

lemma read_step:
  assumes inv: "drv_inv d" and ne: "drv_log d \<noteq> []" and user: "\<forall>bs. copy_to_user K bs = 0" and count: "0 < count"
  obtains (eof) "aesd_read K count f_pos d = Some (0, f_pos, [])" "drop (unat f_pos) (concat (drv_log d)) = []"
    | (data) bs where "aesd_read K count f_pos d = Some (of_nat (length bs), f_pos + of_nat (length bs), bs)" "bs \<noteq> []"
      "length bs < 2 ^ 31" "unat (f_pos + of_nat (length bs)) = unat f_pos + length bs"
      "unat f_pos + length bs \<le> length (concat (drv_log d))"
      "drop (unat f_pos) (concat (drv_log d)) = bs @ drop (unat f_pos + length bs) (concat (drv_log d))"
proof (cases "locate (map length (drv_log d)) (unat f_pos)")
  case None
  then have "length (concat (drv_log d)) \<le> unat f_pos" by (simp add: locate_None length_concat)
  with None eof show thesis by (simp add: aesd_read_nonempty [OF inv ne])
next
  case (Some kr)
  let ?log = "drv_log d"
  obtain k off where kr: "kr = (k, off)" by (cases kr)
  let ?bs = "take (unat count) (drop off (?log ! k))"
  have dr: "drop (unat f_pos) (concat ?log) = drop off (?log ! k) @ concat (drop (Suc k) ?log)"
    using Some kr by (intro locate_drop_concat) simp
  have bs: "?bs \<noteq> []" using locate_SomeD [OF Some [unfolded kr]] count by (simp add: word_less_nat_alt)
  have "drop (unat f_pos) (concat ?log) \<noteq> []" unfolding dr using bs by auto
  then have le: "unat f_pos + length ?bs \<le> length (concat ?log)" using arg_cong [OF dr, of length] by simp
  have small: "length (concat ?log) < 2 ^ 31" using drv_total_small [OF inv] by (simp add: length_concat)
  have bsw: "unat (of_nat (length ?bs) :: u64) = length ?bs" using le small by (intro unat_of_nat_u64) (simp del: length_take)
  have "?bs = take (length ?bs) (drop (unat f_pos) (concat ?log))" unfolding dr by (auto simp: min_def)
  then have app: "drop (unat f_pos) (concat ?log) = ?bs @ drop (unat f_pos + length ?bs) (concat ?log)"
    by (metis add.commute append_take_drop_id drop_drop)
  have "aesd_read K count f_pos d = Some (of_nat (length ?bs), f_pos + of_nat (length ?bs), ?bs)"
    using Some kr user by (simp add: aesd_read_nonempty [OF inv ne] Let_def del: length_take)
  moreover have "unat (f_pos + of_nat (length ?bs)) = unat f_pos + length ?bs" using le small bsw by (simp add: unat_add_small)
  ultimately show thesis using data [OF _ bs] le small app by simp
qed

lemma of_nat_length_nz: "bs \<noteq> [] \<Longrightarrow> length bs < 2 ^ 31 \<Longrightarrow> (of_nat (length bs) :: u64) \<noteq> 0"
  using unat_of_nat_u64 [of "length bs"] by force

lemma read_all_correct:
  assumes inv: "drv_inv d" and ne: "drv_log d \<noteq> []" and user: "\<forall>bs. copy_to_user K bs = 0"
    and count: "0 < count" and fuel: "length (concat (drv_log d)) - unat f_pos < fuel"
  shows "read_all K count fuel f_pos d = Some (drop (unat f_pos) (concat (drv_log d)))"
  using fuel
proof (induction fuel arbitrary: f_pos)
  case (Suc fuel)
  from inv ne user count show ?case
  proof (cases rule: read_step [where f_pos = f_pos])
    case (data bs)
    then have "length (concat (drv_log d)) - unat (f_pos + of_nat (length bs)) < fuel" using Suc.prems by (cases bs) auto
    from Suc.IH [OF this] data of_nat_length_nz [OF data(2,3)] show ?thesis by simp
  qed simp
qed simp

section \<open>Seeking\<close>

lemma ioctl_loop_correct:
  fixes b defines "M \<equiv> AESDCHAR_MAX_WRITE_OPERATIONS_SUPPORTED"
  assumes len: "length (entry b) = M" and small: "sum_list (slot_sizes b) < 2 ^ 31" and cmd: "cmd < M"
    and "d \<le> cmd" "idx = (unat (out_offs b) + d) mod M" "unat fo = sum_list (take d (slot_sizes b))"
  shows "\<exists>fo'. ioctl_loop b cmd fo idx d = Some fo' \<and> unat fo' = sum_list (take cmd (slot_sizes b))"
  using assms(5-)
proof (induction "cmd - d" arbitrary: d idx fo)
  case 0
  then show ?case using cmd by (simp add: ioctl_loop.simps M_def)
next
  case (Suc n)
  then have d: "d < cmd" "d < M" using cmd by auto
  let ?fo = "int_of_size (size_of_int fo + esize (entry b ! idx))"
  have i: "idx < length (entry b)" using Suc.prems len by (simp add: M_def CB_MAX)
  have sz: "unat (esize (entry b ! idx)) = slot_sizes b ! d"
    using nth_slot_sizes [of b d] len d Suc.prems by (simp add: M_def)
  have tk: "sum_list (take (Suc d) (slot_sizes b)) = unat fo + slot_sizes b ! d"
    using d Suc.prems by (simp add: sum_take_Suc M_def)
  have "unat fo + slot_sizes b ! d < 2 ^ 31"
    using sum_take_le [of "Suc d" "slot_sizes b"] small tk by linarith
  then have fo: "unat ?fo = sum_list (take (Suc d) (slot_sizes b))"
    using sz tk unat_int_add_size [of fo "esize (entry b ! idx)"] by simp
  have nxt: "(idx + 1) mod M = (unat (out_offs b) + Suc d) mod M" using Suc.prems(2) by (simp add: mod_Suc_eq)
  have "ioctl_loop b cmd fo idx d = ioctl_loop b cmd ?fo ((idx + 1) mod M) (Suc d)"
    using d i by (simp add: ioctl_loop.simps [of b cmd fo idx d] M_def)
  moreover have "n = cmd - Suc d" "Suc d \<le> cmd" using Suc.hyps(2) d by auto
  ultimately show ?case using Suc.hyps(1) [OF _ _ nxt fo] by simp
qed

lemma ioctl_loop_sum:
  assumes inv: "drv_inv d" and b: "circBufferPtr (aesd_device d) = Some b"
    and cmd: "cmd < AESDCHAR_MAX_WRITE_OPERATIONS_SUPPORTED"
  shows "\<exists>fo. ioctl_loop b cmd 0 (unat (out_offs b)) 0 = Some fo \<and>
    unat fo = sum_list (take cmd (map length (drv_log d)))"
proof -
  have cb: "cb_inv b (hasBufferBeenFilled d)" using inv b by (simp add: drv_inv_def)
  from slot_sizes_eq [OF cb] obtain z where z: "slot_sizes b = map length (drv_log d) @ replicate z 0"
    using drv_log_facts(1) [OF inv b] by auto
  then have tot: "sum_list (slot_sizes b) < 2 ^ 31"
    using drv_total_small [OF inv] by (simp add: sum_list_replicate)
  have tk: "sum_list (take cmd (slot_sizes b)) = sum_list (take cmd (map length (drv_log d)))"
    by (simp add: z sum_list_replicate)
  have "length (entry b) = AESDCHAR_MAX_WRITE_OPERATIONS_SUPPORTED"
    "unat (out_offs b) < AESDCHAR_MAX_WRITE_OPERATIONS_SUPPORTED"
    using cb cb_inv_out_offs by (auto simp: cb_inv_def)
  with ioctl_loop_correct [of b cmd 0 "unat (out_offs b)" 0] cmd tot show ?thesis
    by (auto simp: tk)
qed

lemma ioctl_seek:
  assumes inv: "drv_inv d" and cmd: "unat (write_cmd (seekto_of_arg arg)) < AESDCHAR_MAX_WRITE_OPERATIONS_SUPPORTED"
    and pos: "pos = sum_list (take (unat (write_cmd (seekto_of_arg arg))) (map length (drv_log d))) + unat (write_cmd_offset (seekto_of_arg arg))"
    and small: "pos < 2 ^ 31"
  shows "aesd_unlockedioctl AESDCHAR_IOCSEEKTO arg f_pos d = Some (of_nat pos, of_nat pos)"
proof -
  let ?c = "unat (write_cmd (seekto_of_arg arg))"
  obtain b where b: "circBufferPtr (aesd_device d) = Some b" using drv_invE [OF inv] .
  from ioctl_loop_sum [OF inv b cmd] obtain fo where
    fo: "ioctl_loop b ?c 0 (unat (out_offs b)) 0 = Some fo" "unat fo = sum_list (take ?c (map length (drv_log d)))"
    by blast
  have add: "unat (fo + write_cmd_offset (seekto_of_arg arg)) = pos"
    using small pos fo(2) by (simp add: unat_word_ariths)
  then have "unat (size_of_int (fo + write_cmd_offset (seekto_of_arg arg))) = pos"
    using small by (simp add: cint_simps)
  then have "size_of_int (fo + write_cmd_offset (seekto_of_arg arg)) = of_nat pos" by (rule word_eq_of_nat)
  with b fo(1) cmd show ?thesis by (simp add: aesd_unlockedioctl_def Let_def)
qed

lemma seekto_of_arg_fields:
  "unat (write_cmd (seekto_of_arg arg)) = unat arg mod 2 ^ 32"
  "unat (write_cmd_offset (seekto_of_arg arg)) = unat arg div 2 ^ 32"
proof -
  show "unat (write_cmd (seekto_of_arg arg)) = unat arg mod 2 ^ 32"
    by (simp add: seekto_of_arg_def unsigned_ucast_eq take_bit_eq_mod)
  have "unat arg < 2 ^ 32 * 2 ^ 32" using unsigned_less [of arg] by simp
  then have "unat arg div 2 ^ 32 < 2 ^ 32" by (rule less_mult_imp_div_less)
  then show "unat (write_cmd_offset (seekto_of_arg arg)) = unat arg div 2 ^ 32"
    by (simp add: seekto_of_arg_def unsigned_ucast_eq take_bit_eq_mod unsigned_drop_bit_eq drop_bit_eq_div unat_div)
qed

lemma ioctl_seek_read:
  assumes inv: "drv_inv d" and user: "\<forall>bs. copy_to_user K bs = 0"
    and cmd: "unat (write_cmd (seekto_of_arg arg)) < length (drv_log d)"
    and off: "unat (write_cmd_offset (seekto_of_arg arg)) < length (drv_log d ! unat (write_cmd (seekto_of_arg arg)))"
    and bs: "bs = take (unat count) (drop (unat (write_cmd_offset (seekto_of_arg arg)))
      (drv_log d ! unat (write_cmd (seekto_of_arg arg))))"
  shows "\<exists>pos. aesd_unlockedioctl AESDCHAR_IOCSEEKTO arg f_pos d = Some (pos, pos) \<and>
    aesd_read K count pos d = Some (of_nat (length bs), pos + of_nat (length bs), bs)"
proof -
  let ?c = "unat (write_cmd (seekto_of_arg arg))" and ?o = "unat (write_cmd_offset (seekto_of_arg arg))"
  let ?pos = "sum_list (take ?c (map length (drv_log d))) + ?o"
  obtain b where b: "circBufferPtr (aesd_device d) = Some b" using drv_invE [OF inv] .
  have loc: "locate (map length (drv_log d)) ?pos = Some (?c, ?o)"
    using locate_step [of ?c "map length (drv_log d)" ?pos] cmd off by simp
  then have "?pos < sum_list (map length (drv_log d))" using locate_None [of "map length (drv_log d)" ?pos] by auto
  then have small: "?pos < 2 ^ 31" using drv_total_small [OF inv] by linarith
  have "?c < AESDCHAR_MAX_WRITE_OPERATIONS_SUPPORTED" using cmd drv_log_facts(4) [OF inv b] by simp
  from ioctl_seek [OF inv this refl small] have seek:
    "aesd_unlockedioctl AESDCHAR_IOCSEEKTO arg f_pos d = Some (of_nat ?pos, of_nat ?pos)" .
  have "unat (of_nat ?pos :: u64) = ?pos" using small by (intro unat_of_nat_u64) simp
  moreover have "drv_log d \<noteq> []" using cmd by auto
  ultimately have "aesd_read K count (of_nat ?pos) d = Some (of_nat (length bs), of_nat ?pos + of_nat (length bs), bs)"
    using aesd_read_nonempty [OF inv, of K count "of_nat ?pos"] loc user
    by (simp add: bs Let_def)
  with seek show ?thesis by blast
qed

section \<open>Unloading\<close>

lemma cleanup_loop_frees:
  assumes "length (entry b) = AESDCHAR_MAX_WRITE_OPERATIONS_SUPPORTED" "i \<le> length (entry b)"
    and "distinct (filter (\<lambda>p. p \<noteq> NULL) (map buffptr (drop i (entry b))))"
    and "\<forall>a. Ptr a \<in> buffptr ` set (drop i (entry b)) \<longrightarrow> h a \<noteq> None"
  shows "cleanup_loop i b h = Some (\<lambda>a. if Ptr a \<in> buffptr ` set (drop i (entry b)) then None else h a)"
  using assms
proof (induction "length (entry b) - i" arbitrary: i b h)
  case 0
  then show ?case by (simp add: cleanup_loop.simps)
next
  case (Suc n)
  then have i: "i < length (entry b)" by simp
  then have dr: "drop i (entry b) = entry b ! i # drop (Suc i) (entry b)" by (simp add: Cons_nth_drop_Suc)
  show ?case
  proof (cases "buffptr (entry b ! i)")
    case NULL
    have "cleanup_loop i b h = cleanup_loop (Suc i) b h"
      using NULL i Suc.prems(1) by (subst cleanup_loop.simps) simp
    also have "\<dots> = Some (\<lambda>a. if Ptr a \<in> buffptr ` set (drop (Suc i) (entry b)) then None else h a)"
      using Suc.prems Suc.hyps(2) i NULL by (intro Suc.hyps(1)) (auto simp: dr)
    finally show ?thesis using NULL by (simp add: dr)
  next
    case (Ptr a)
    let ?b = "b\<lparr>entry := (entry b)[i := (entry b ! i)\<lparr>buffptr := NULL\<rparr>]\<rparr>"
    have dr': "drop (Suc i) (entry ?b) = drop (Suc i) (entry b)" by simp
    from Suc.prems(4) Ptr obtain bs where "h a = Some bs" by (auto simp: dr)
    then have "mem_free h (buffptr (entry b ! i)) = Some (h(a := None))" by (simp add: Ptr mem_simps)
    then have "cleanup_loop i b h = cleanup_loop (Suc i) ?b (h(a := None))"
      using Ptr i Suc.prems(1) by (subst cleanup_loop.simps) simp
    also have "\<dots> = Some (\<lambda>x. if Ptr x \<in> buffptr ` set (drop (Suc i) (entry ?b)) then None else (h(a := None)) x)"
    proof (rule Suc.hyps(1))
      show "\<forall>x. Ptr x \<in> buffptr ` set (drop (Suc i) (entry ?b)) \<longrightarrow> (h(a := None)) x \<noteq> None"
        unfolding dr' using Suc.prems(3,4) Ptr by (auto simp: dr)
    qed (use Suc.prems Suc.hyps(2) i Ptr in \<open>simp_all add: dr\<close>)
    finally show ?thesis unfolding dr' using Ptr by (auto simp: dr)
  qed
qed

lemma cb_slots:
  assumes inv: "cb_inv b filled" and dist: "distinct (map buffptr (cb_entries b filled))"
  shows "distinct (filter (\<lambda>p. p \<noteq> NULL) (map buffptr (entry b)))"
    "Ptr a \<in> buffptr ` set (entry b) \<longleftrightarrow> Ptr a \<in> buffptr ` set (cb_entries b filled)"
proof -
  have "distinct (filter (\<lambda>p. p \<noteq> NULL) (map buffptr (entry b))) \<and>
    (Ptr a \<in> buffptr ` set (entry b) \<longleftrightarrow> Ptr a \<in> buffptr ` set (cb_entries b filled))"
  proof (cases filled)
    case True
    with inv have "cb_entries b filled = rotate (unat (out_offs b)) (entry b)"
      by (simp add: cb_entries_def cb_count_def cb_inv_def flip: ring_list_full)
    with dist show ?thesis by (simp flip: rotate_map)
  next
    case False
    let ?n = "unat (in_offs b)"
    from inv False have i: "length (entry b) = 10" "?n < 10" "out_offs b = 0"
      "\<forall>i \<in> {?n..<10}. entry b ! i = zero_entry" by (auto simp: cb_inv_def CB_MAX)
    have es: "cb_entries b filled = take ?n (entry b)"
      using i False by (intro nth_equalityI) (auto simp: cb_entries_def cb_count_def nth_ring_list)
    have "drop ?n (entry b) = replicate (10 - ?n) zero_entry"
      using i by (intro nth_equalityI) auto
    then have "entry b = cb_entries b filled @ replicate (10 - ?n) zero_entry"
      using es append_take_drop_id [of ?n "entry b"] by simp
    then obtain zs where zs: "entry b = cb_entries b filled @ zs" "\<forall>z \<in> set zs. buffptr z = NULL"
      by (auto simp: zero_entry_def)
    with dist show ?thesis by (auto simp: filter_empty_conv image_iff)
  qed
  then show "distinct (filter (\<lambda>p. p \<noteq> NULL) (map buffptr (entry b)))"
    "Ptr a \<in> buffptr ` set (entry b) \<longleftrightarrow> Ptr a \<in> buffptr ` set (cb_entries b filled)" by auto
qed

lemma aesd_cleanup_frees:
  assumes inv: "drv_inv d"
  shows "\<exists>d'. aesd_cleanup_module d = Some d' \<and>
    Ptr ` dom (kheap d') = (if writing d then {tempBuffer (aesd_device d)} else {})"
proof -
  let ?f = "hasBufferBeenFilled d"
  obtain b where b: "circBufferPtr (aesd_device d) = Some b" "cb_inv b ?f"
    "heap_inv (kheap d) (cb_entries b ?f) (drv_tmp d)" using drv_invE [OF inv] .
  note es = drv_inv_entries [OF inv b(1)]
  note slots = cb_slots [OF b(2) es(2)]
  let ?h = "\<lambda>a. if Ptr a \<in> buffptr ` set (entry b) then None else kheap d a"
  have "kheap d a \<noteq> None" if "Ptr a \<in> buffptr ` set (entry b)" for a
    using heap_fresh [OF es(1), of a] that slots(2) by blast
  with slots(1) b(2) have "cleanup_loop 0 b (kheap d) = Some ?h"
    using cleanup_loop_frees [of b 0 "kheap d"] by (simp add: cb_inv_def)
  then have "aesd_cleanup_module d = Some (d\<lparr>kheap := ?h, aesd_device := (aesd_device d)\<lparr>circBufferPtr := None\<rparr>\<rparr>)"
    using b(1) by (simp add: aesd_cleanup_module_def)
  moreover have "Ptr ` dom ?h = Ptr ` dom (kheap d) - buffptr ` set (cb_entries b ?f)"
    using slots(2) by (auto simp: dom_def)
  moreover have "\<dots> = (if writing d then {tempBuffer (aesd_device d)} else {})"
    using b(3) by (auto simp: drv_tmp_def writing_def Let_def heap_inv.simps split: if_splits)
  ultimately show ?thesis by simp
qed

section \<open>Reachable states\<close>

lemma aesd_init_inv:
  assumes "aesd_init_module K loaded = Some (0, d)"
  shows "drv_inv d" "drv_log d = []" "drv_pending d = []"
proof -
  from assms have "circBufferPtr (aesd_device d) = Some aesd_circular_buffer_init"
    "\<not> hasBufferBeenFilled d" "kheap d = Map.empty" "onGoingWrite (aesd_device d) = 0"
    by (auto simp: aesd_init_module_def Let_def loaded_def zero_dev_def split: if_splits prod.splits)
  then show "drv_inv d" "drv_log d = []" "drv_pending d = []"
    using cb_init_inv cb_init_entries
    by (simp_all add: drv_inv_def drv_log_def heap_log_def drv_pending_def drv_tmp_def heap_inv.simps)
qed

lemma drv_inv_open: "drv_inv (snd (aesd_open d)) = drv_inv d"
  by (simp add: aesd_open_def drv_inv_def drv_tmp_def Let_def split: option.split)

lemma aesd_reachable_inv: "aesd_reachable d \<Longrightarrow> drv_inv d"
proof (induction rule: aesd_reachable.induct)
  case (load K d)
  then show ?case by (rule aesd_init_inv)
next
  case (open_file d ret d')
  then show ?case using drv_inv_open [of d] by simp
next
  case (release_file d ret d')
  then show ?case by (simp add: aesd_release_def)
next
  case (write_file d K count f_pos ret f_pos' d')
  then show ?case using aesd_write_correct [of K d count f_pos] by auto
qed

lemma aesd_ioctl_defined:
  assumes inv: "drv_inv d"
  shows "aesd_unlockedioctl cmd arg f_pos d \<noteq> None"
proof -
  obtain b where b: "circBufferPtr (aesd_device d) = Some b" using drv_invE [OF inv] .
  from ioctl_loop_sum [OF inv b, of "unat (write_cmd (seekto_of_arg arg))"] b show ?thesis
    by (cases "unat (write_cmd (seekto_of_arg arg)) < AESDCHAR_MAX_WRITE_OPERATIONS_SUPPORTED")
      (auto simp: aesd_unlockedioctl_def Let_def)
qed

lemma example_kernel_ok: "kernel_ok (example_kernel data)"
proof -
  have "h (Suc (Max (insert 0 (dom h)))) = None" if "finite (dom h)" for h :: heap
  proof (rule ccontr)
    assume "h (Suc (Max (insert 0 (dom h)))) \<noteq> None"
    then have "Suc (Max (insert 0 (dom h))) \<in> insert 0 (dom h)" by auto
    with that have "Suc (Max (insert 0 (dom h))) \<le> Max (insert 0 (dom h))" by (intro Max_ge) auto
    then show False by simp
  qed
  then show ?thesis
    by (auto simp: kernel_ok_def kmalloc_ok_def krealloc_ok_def copy_from_user_ok_def example_kernel_def
        bytes_of_def block_of_def min_def split: if_splits)
qed

lemma example_kernel_never_refuses: "n \<le> KMALLOC_MAX_SIZE \<Longrightarrow> \<not> refused (example_kernel data) n"
  by (auto simp: refused_def example_kernel_def)

lemma fresh_device_init: "aesd_init_module (example_kernel data) loaded = Some (0, fresh_device)"
  by (simp add: aesd_init_module_def example_kernel_def fresh_device_def loaded_def aesd_setup_cdev_def)

section \<open>Sequences of writes\<close>

lemma TEMP_le_MAX: "TEMP_BUFFER_STARTING_SIZE \<le> KMALLOC_MAX_SIZE"
  by (simp add: TEMP_BUFFER_STARTING_SIZE_def KMALLOC_MAX_SIZE_def)

lemma write_succeedsD:
  assumes "write_succeeds K count" "drv_inv d"
    and "2 * (length (drv_pending d) + unat count) \<le> KMALLOC_MAX_SIZE"
  obtains d' where "aesd_write K count f_pos d = Some (count, f_pos + count, d')" "drv_inv d'"
    "(drv_log d', drv_pending d') = spec_write (drv_log d, drv_pending d) (fst (copy_from_user K count))"
    "length (fst (copy_from_user K count)) = unat count"
proof -
  have "max TEMP_BUFFER_STARTING_SIZE (2 * (length (drv_pending d) + unat count)) \<le> KMALLOC_MAX_SIZE"
    using assms(3) TEMP_le_MAX by simp
  then have "\<not> refused K (max TEMP_BUFFER_STARTING_SIZE (2 * (length (drv_pending d) + unat count)))"
    using assms(1) refused_mono unfolding write_succeeds_def by blast
  with aesd_write_correct [of K d count f_pos] assms(1,2) that show ?thesis
    unfolding write_succeeds_def by blast
qed

lemma aesd_write_all_correct:
  assumes "\<forall>(K, count) \<in> set ws. write_succeeds K count" "drv_inv d"
    and "2 * (length (drv_pending d) + sum_list (map (unat \<circ> snd) ws)) \<le> KMALLOC_MAX_SIZE"
  shows "\<exists>f_pos' d'. aesd_write_all ws f_pos d = Some (f_pos', d') \<and> drv_inv d' \<and>
    (drv_log d', drv_pending d') =
      foldl spec_write (drv_log d, drv_pending d) (map (\<lambda>(K, count). fst (copy_from_user K count)) ws)"
  using assms
proof (induction ws arbitrary: f_pos d)
  case (Cons w ws)
  obtain K count where w: "w = (K, count)" by (cases w)
  have ok: "write_succeeds K count" using Cons.prems(1) w by simp
  have "2 * (length (drv_pending d) + unat count) \<le> KMALLOC_MAX_SIZE" using Cons.prems(3) w by simp
  from write_succeedsD [OF ok Cons.prems(2) this, of f_pos] obtain d1 where
    d1: "aesd_write K count f_pos d = Some (count, f_pos + count, d1)" "drv_inv d1"
      "(drv_log d1, drv_pending d1) = spec_write (drv_log d, drv_pending d) (fst (copy_from_user K count))"
      "length (fst (copy_from_user K count)) = unat count" .
  have "length (drv_pending d1) \<le> length (drv_pending d) + unat count"
    using d1(3,4) by (auto simp: Let_def split: if_splits)
  then have "2 * (length (drv_pending d1) + sum_list (map (unat \<circ> snd) ws)) \<le> KMALLOC_MAX_SIZE"
    using Cons.prems(3) w by (simp add: comp_def)
  from Cons.IH [OF _ d1(2) this, of "f_pos + count"] Cons.prems(1) d1(1,3) w show ?case by simp
qed auto

lemma fresh_device_reachable: "aesd_reachable fresh_device"
  using fresh_device_init by (rule aesd_reachable.load)

lemma fresh_device_state: "drv_inv fresh_device" "drv_log fresh_device = []" "drv_pending fresh_device = []"
  using aesd_init_inv [OF fresh_device_init] by simp_all

lemma example_kernel_copy: "copy_from_user (example_kernel data) n = (take (unat n) (data @ replicate (unat n) 0), 0)"
  by (simp add: example_kernel_def)

lemma example_write_succeeds: "unat count < 2 ^ 31 \<Longrightarrow> write_succeeds (example_kernel data) count"
  by (simp add: write_succeeds_def example_kernel_ok example_kernel_copy example_kernel_never_refuses)

lemma hi_device:
  obtains d where "aesd_write (example_kernel [104, 105, 10]) 3 0 fresh_device = Some (3, 3, d)"
    "aesd_reachable d" "drv_log d = [[104, 105, 10]]"
proof -
  from write_succeedsD [OF example_write_succeeds [of 3 "[104, 105, 10]"] fresh_device_state(1), of 0]
  obtain d where d: "aesd_write (example_kernel [104, 105, 10]) 3 0 fresh_device = Some (3, 3, d)"
    "drv_log d = [[104, 105, 10]]"
    by (auto simp: fresh_device_state example_kernel_copy newline_def last_n_def CB_MAX KMALLOC_MAX_SIZE_def)
  moreover have "aesd_reachable d"
    using fresh_device_reachable example_kernel_ok _ d(1) by (rule aesd_reachable.write_file) simp
  ultimately show ?thesis using that by blast
qed

section \<open>Properties\<close>

text \<open>
  C1. In every reachable state, a write under any answers of the kernel returns, faults nowhere and
  keeps the invariant. It either takes all bytes and acts as the specification says (collect, and on
  a final newline append the message to the log of the ten newest), or returns \<open>-EFAULT\<close> after
  a failed copy or \<open>-ENOMEM\<close> after a refused block of at most twice the bytes collected; then
  the log is unchanged and the unfinished message is dropped.
\<close>

theorem aesd_write_refines:
  assumes "aesd_reachable d" "kernel_ok K" "unat count < 2 ^ 31"
  shows "\<exists>ret f_pos' d'. aesd_write K count f_pos d = Some (ret, f_pos', d') \<and> drv_inv d' \<and>
    (ret = count \<and> f_pos' = f_pos + count \<and> length (fst (copy_from_user K count)) = unat count \<and>
       (drv_log d', drv_pending d') = spec_write (drv_log d, drv_pending d) (fst (copy_from_user K count))
     \<or> (ret = - EFAULT \<and> snd (copy_from_user K count) \<noteq> 0 \<or>
        ret = - ENOMEM \<and> refused K (max TEMP_BUFFER_STARTING_SIZE (2 * (length (drv_pending d) + unat count)))) \<and>
       f_pos' = f_pos \<and> drv_log d' = drv_log d \<and> drv_pending d' = [])"
  using aesd_write_correct [OF assms(2) aesd_reachable_inv [OF assms(1)] assms(3)] .

theorem aesd_write_refines_witness:
  "\<exists>d'. aesd_write (example_kernel [104, 105, 10]) 3 0 fresh_device = Some (3, 3, d') \<and>
     drv_log d' = [[104, 105, 10]] \<and> drv_pending d' = []"
proof -
  have "\<not> refused (example_kernel [104, 105, 10]) (max TEMP_BUFFER_STARTING_SIZE (2 * (0 + 3)))"
    by (rule example_kernel_never_refuses) (simp add: TEMP_BUFFER_STARTING_SIZE_def KMALLOC_MAX_SIZE_def)
  then show ?thesis
    using aesd_write_refines [OF fresh_device_reachable example_kernel_ok, of 3 "[104, 105, 10]" 0]
    by (auto simp: fresh_device_state example_kernel_copy newline_def last_n_def CB_MAX)
qed

text \<open>
  C5. From loading the module, every sequence of writes that the kernel serves is accepted in full and
  leaves the log and the unfinished message that the specification computes from the data alone.
\<close>

theorem aesd_write_history:
  assumes "aesd_init_module K0 loaded = Some (0, d)"
    and "\<forall>(K, count) \<in> set ws. write_succeeds K count"
    and "2 * sum_list (map (unat \<circ> snd) ws) \<le> KMALLOC_MAX_SIZE"
  shows "\<exists>f_pos d'. aesd_write_all ws 0 d = Some (f_pos, d') \<and>
    (drv_log d', drv_pending d') =
      foldl spec_write ([], []) (map (\<lambda>(K, count). fst (copy_from_user K count)) ws)"
  using aesd_write_all_correct [OF assms(2) aesd_init_inv(1) [OF assms(1)], of 0] assms(3)
  by (auto simp: aesd_init_inv(2,3) [OF assms(1)])

theorem aesd_write_history_witness:
  "\<exists>f_pos d. aesd_write_all [(example_kernel [97], 1), (example_kernel [98, 10], 2), (example_kernel [99], 1)]
      0 fresh_device = Some (f_pos, d) \<and> drv_log d = [[97, 98, 10]] \<and> drv_pending d = [99]"
proof -
  let ?ws = "[(example_kernel [97], 1), (example_kernel [98, 10], 2), (example_kernel [99], 1)]"
  have "\<forall>(K, count) \<in> set ?ws. write_succeeds K count" by (simp add: example_write_succeeds)
  from aesd_write_history [OF fresh_device_init [of "[]"] this] show ?thesis
    by (simp add: example_kernel_copy newline_def last_n_def CB_MAX KMALLOC_MAX_SIZE_def)
qed

text \<open>
  C26. In every reachable state the invariant holds, and seeking, unloading and a write without debug
  output never fault. A read faults exactly when it asks for at least one byte at a position
  other than 0 while no command is stored. A write of the driver as it is built, with
  \<open>AESD_DEBUG\<close>, gives the same result, except that it reads past the end of a block exactly
  when it completes a command and that command has no zero byte, or the log is full and the
  command that leaves it has none: the blocks have no terminating zero, and \<open>%s\<close> prints them.
\<close>

theorem aesd_fault_conditions:
  assumes "aesd_reachable d"
  shows "drv_inv d \<and> aesd_llseek offset whence f_pos d \<noteq> None \<and>
    aesd_unlockedioctl cmd arg f_pos d \<noteq> None \<and> aesd_cleanup_module d \<noteq> None \<and>
    (aesd_read K count f_pos d = None \<longleftrightarrow> drv_log d = [] \<and> f_pos \<noteq> 0 \<and> count \<noteq> 0) \<and>
    (kernel_ok K \<and> unat count < 2 ^ 31 \<longrightarrow>
      (\<exists>ret f_pos' d'. aesd_write K count f_pos d = Some (ret, f_pos', d') \<and>
         aesd_write_debug K count f_pos d =
           (if ret = count \<and> debug_overrun (drv_log d) (drv_pending d @ fst (copy_from_user K count))
            then None else Some (ret, f_pos', d'))))"
proof -
  have inv: "drv_inv d" using assms by (rule aesd_reachable_inv)
  moreover have "aesd_llseek offset whence f_pos d \<noteq> None"
    by (auto simp: aesd_llseek_def SEEK_SET_def SEEK_CUR_def SEEK_END_def)
  moreover have "aesd_unlockedioctl cmd arg f_pos d \<noteq> None" using inv by (rule aesd_ioctl_defined)
  moreover have "aesd_cleanup_module d \<noteq> None" using aesd_cleanup_frees [OF inv] by auto
  moreover have "\<exists>ret f_pos' d'. aesd_write K count f_pos d = Some (ret, f_pos', d') \<and>
      aesd_write_debug K count f_pos d =
        (if ret = count \<and> debug_overrun (drv_log d) (drv_pending d @ fst (copy_from_user K count))
         then None else Some (ret, f_pos', d'))" if "kernel_ok K" "unat count < 2 ^ 31"
    using aesd_write_correct [OF that(1) inv that(2), of f_pos] aesd_write_debug_correct [OF that(1) inv that(2), of f_pos]
    by auto
  moreover have "aesd_read K count f_pos d = None \<longleftrightarrow> drv_log d = [] \<and> f_pos \<noteq> 0 \<and> count \<noteq> 0"
    using aesd_read_empty [OF inv] aesd_read_nonempty [OF inv] by (cases "drv_log d = []") auto
  ultimately show ?thesis by blast
qed

theorem aesd_fault_conditions_witness:
  "aesd_read (example_kernel []) 1 5 fresh_device = None \<and>
   aesd_read (example_kernel []) 1 0 fresh_device \<noteq> None \<and>
   aesd_write_debug (example_kernel [65]) 1 0 fresh_device = aesd_write (example_kernel [65]) 1 0 fresh_device \<and>
   aesd_write_debug (example_kernel [65]) 1 0 fresh_device \<noteq> None \<and>
   (\<exists>d. aesd_write (example_kernel [104, 105, 10]) 3 0 fresh_device = Some (3, 3, d)) \<and>
   aesd_write_debug (example_kernel [104, 105, 10]) 3 0 fresh_device = None"
proof -
  note ex = aesd_fault_conditions [OF fresh_device_reachable]
  obtain d where hi: "aesd_write (example_kernel [104, 105, 10]) 3 0 fresh_device = Some (3, 3, d)"
    by (rule hi_device)
  note ok = example_kernel_ok fresh_device_state example_kernel_copy debug_overrun_def newline_def
  have "aesd_write_debug (example_kernel [104, 105, 10]) 3 0 fresh_device = None"
    using ex [of 0 0 0 0 0 "example_kernel [104, 105, 10]" 3] hi by (simp add: ok)
  moreover have "aesd_write_debug (example_kernel [65]) 1 0 fresh_device = aesd_write (example_kernel [65]) 1 0 fresh_device"
    "aesd_write_debug (example_kernel [65]) 1 0 fresh_device \<noteq> None"
    using ex [of 0 0 0 0 0 "example_kernel [65]" 1] by (auto simp: ok)
  moreover have "aesd_read (example_kernel []) 1 5 fresh_device = None"
    using ex [of 0 0 5 0 0 "example_kernel []" 1] by (simp add: fresh_device_state)
  moreover have "aesd_read (example_kernel []) 1 0 fresh_device \<noteq> None"
    using ex [of 0 0 0 0 0 "example_kernel []" 1] by simp
  ultimately show ?thesis using hi by blast
qed

text \<open>
  C4. Reading from a position until the end of file, in requests of any nonzero size, with every copy
  to the caller succeeding, ends, and returns exactly the rest of the concatenation of the stored
  commands; while no command is stored this holds at position 0 only, and at any other position
  the read faults.
\<close>

theorem read_all_returns_log:
  assumes "aesd_reachable d" "\<forall>bs. copy_to_user K bs = 0"
    and "0 < count" "length (concat (drv_log d)) - unat f_pos < fuel"
  shows "read_all K count fuel f_pos d =
    (if drv_log d = [] \<and> f_pos \<noteq> 0 then None else Some (drop (unat f_pos) (concat (drv_log d))))"
proof (cases "drv_log d = []")
  case True
  obtain n where n: "fuel = Suc n" using assms(4) by (cases fuel) auto
  have "count \<noteq> 0" using assms(3) by auto
  with aesd_read_empty [OF aesd_reachable_inv [OF assms(1)] True, of K count f_pos] assms(2) True n
  show ?thesis by simp
next
  case False
  with read_all_correct [OF aesd_reachable_inv [OF assms(1)] False assms(2-)] show ?thesis by simp
qed

theorem read_all_returns_log_witness:
  "\<exists>d. aesd_write (example_kernel [104, 105, 10]) 3 0 fresh_device = Some (3, 3, d) \<and>
     read_all (example_kernel []) 2 4 0 d = Some [104, 105, 10] \<and>
     read_all (example_kernel []) 2 1 7 fresh_device = None"
proof -
  obtain d where d: "aesd_write (example_kernel [104, 105, 10]) 3 0 fresh_device = Some (3, 3, d)"
    "aesd_reachable d" "drv_log d = [[104, 105, 10]]" by (rule hi_device)
  have "read_all (example_kernel []) 2 4 0 d = Some [104, 105, 10]"
    using read_all_returns_log [OF d(2), of "example_kernel []" 2 0 4] d(3)
    by (simp add: example_kernel_def)
  moreover have "read_all (example_kernel []) 2 1 7 fresh_device = None"
    using read_all_returns_log [OF fresh_device_reachable, of "example_kernel []" 2 7 1]
    by (simp add: example_kernel_def fresh_device_state)
  ultimately show ?thesis using d(1) by blast
qed

text \<open>
  C27. The seek request takes its two fields from the bytes of the argument itself, the command from
  the low and the offset from the high 32 bits; the header documents a pointer to a structure of
  the caller. With the fields of a stored command and an offset inside it packed into the
  argument, seeking and then reading (with a copy that succeeds) returns the bytes of that command
  from that offset on, as many as fit the request. An argument whose low 32 bits are 10 or more,
  as those of an address normally are, is refused with \<open>-EINVAL\<close> whatever it points to.
\<close>

theorem ioctl_seek_then_read:
  assumes "aesd_reachable d" "\<forall>bs. copy_to_user K bs = 0"
    and c: "c = unat arg mod 2 ^ 32" and off: "off = unat arg div 2 ^ 32"
  shows "(AESDCHAR_MAX_WRITE_OPERATIONS_SUPPORTED \<le> c \<longrightarrow>
      aesd_unlockedioctl AESDCHAR_IOCSEEKTO arg f_pos d = Some (- EINVAL, f_pos)) \<and>
    (c < length (drv_log d) \<and> off < length (drv_log d ! c) \<longrightarrow>
      (\<exists>pos. aesd_unlockedioctl AESDCHAR_IOCSEEKTO arg f_pos d = Some (pos, pos) \<and>
        (let bs = take (unat count) (drop off (drv_log d ! c)) in
         aesd_read K count pos d = Some (of_nat (length bs), pos + of_nat (length bs), bs))))"
proof -
  have inv: "drv_inv d" using assms(1) by (rule aesd_reachable_inv)
  note arg = seekto_of_arg_fields [of arg, folded c off]
  have "aesd_unlockedioctl AESDCHAR_IOCSEEKTO arg f_pos d = Some (- EINVAL, f_pos)"
    if "AESDCHAR_MAX_WRITE_OPERATIONS_SUPPORTED \<le> c"
    using that by (simp add: aesd_unlockedioctl_def Let_def arg)
  moreover have "\<exists>pos. aesd_unlockedioctl AESDCHAR_IOCSEEKTO arg f_pos d = Some (pos, pos) \<and>
      (let bs = take (unat count) (drop off (drv_log d ! c)) in
       aesd_read K count pos d = Some (of_nat (length bs), pos + of_nat (length bs), bs))"
    if "c < length (drv_log d)" "off < length (drv_log d ! c)"
    using ioctl_seek_read [OF inv assms(2), of arg _ count f_pos] that by (simp add: arg Let_def)
  ultimately show ?thesis by blast
qed

theorem ioctl_seek_then_read_witness:
  "\<exists>d. aesd_write (example_kernel [104, 105, 10]) 3 0 fresh_device = Some (3, 3, d) \<and>
     (\<exists>pos. aesd_unlockedioctl AESDCHAR_IOCSEEKTO (0x100000000) 0 d = Some (pos, pos) \<and>
        aesd_read (example_kernel []) 8 pos d = Some (2, pos + 2, [105, 10])) \<and>
     aesd_unlockedioctl AESDCHAR_IOCSEEKTO 0x7FFE12345678 0 d = Some (- EINVAL, 0)"
proof -
  obtain d where d: "aesd_write (example_kernel [104, 105, 10]) 3 0 fresh_device = Some (3, 3, d)"
    "aesd_reachable d" "drv_log d = [[104, 105, 10]]" by (rule hi_device)
  note seek = ioctl_seek_then_read [OF d(2) _ refl refl, of "example_kernel []" _ 0 8]
  have "\<exists>pos. aesd_unlockedioctl AESDCHAR_IOCSEEKTO 0x100000000 0 d = Some (pos, pos) \<and>
      aesd_read (example_kernel []) 8 pos d = Some (2, pos + 2, [105, 10])"
    using seek [of "0x100000000"] d(3) by (simp add: example_kernel_def)
  moreover have "aesd_unlockedioctl AESDCHAR_IOCSEEKTO 0x7FFE12345678 0 d = Some (- EINVAL, 0)"
    using seek [of "0x7FFE12345678"] by (simp add: example_kernel_def CB_MAX)
  ultimately show ?thesis using d(1) by blast
qed

text \<open>
  An ordinary use of a freshly loaded device reaches that fault: a write of three bytes without a
  newline, and a read at the position it left.
\<close>

lemma read_after_partial_write_faults:
  "\<exists>d. aesd_write (example_kernel [97, 98, 99]) 3 0 fresh_device = Some (3, 3, d) \<and>
     aesd_read K 1 3 d = None"
proof -
  from write_succeedsD [OF example_write_succeeds [of 3 "[97, 98, 99]"] fresh_device_state(1), of 0]
  obtain d where d: "aesd_write (example_kernel [97, 98, 99]) 3 0 fresh_device = Some (3, 3, d)"
    "drv_inv d" "drv_log d = []"
    by (auto simp: fresh_device_state example_kernel_copy newline_def KMALLOC_MAX_SIZE_def)
  with aesd_read_empty [OF d(2,3), of K 1 3] show ?thesis by auto
qed

text \<open>
  \<open>lseek\<close> never succeeds: the test of \<open>whence\<close> is a disjunction that is always true.
\<close>

lemma aesd_llseek_refuses:
  "aesd_llseek offset whence f_pos d = Some (- EINVAL, f_pos)"
  by (simp add: aesd_llseek_def SEEK_SET_def SEEK_CUR_def SEEK_END_def)

text \<open>
  C28. Unloading the module in a reachable state releases every block the driver owns except the
  buffer of an unfinished write, which is leaked.
\<close>

theorem aesd_cleanup_releases:
  assumes "aesd_reachable d"
  shows "\<exists>d'. aesd_cleanup_module d = Some d' \<and>
    Ptr ` dom (kheap d') = (if onGoingWrite (aesd_device d) \<noteq> 0 then {tempBuffer (aesd_device d)} else {})"
  using aesd_cleanup_frees [OF aesd_reachable_inv [OF assms]] by (simp add: writing_def)

theorem aesd_cleanup_releases_witness:
  "\<exists>d. aesd_write (example_kernel [104, 105, 10]) 3 0 fresh_device = Some (3, 3, d) \<and>
     (\<exists>d'. aesd_cleanup_module d = Some d' \<and> Ptr ` dom (kheap d') =
        (if onGoingWrite (aesd_device d) \<noteq> 0 then {tempBuffer (aesd_device d)} else {}))"
proof -
  obtain d where "aesd_write (example_kernel [104, 105, 10]) 3 0 fresh_device = Some (3, 3, d)"
    "aesd_reachable d" by (rule hi_device)
  with aesd_cleanup_releases [of d] show ?thesis by blast
qed

end
