(* ===== verification/NvmeInterface.thy ===== *)
theory NvmeInterface
  imports Prelude
begin

text \<open>
  The drive operations of the command server, \<open>server/nvmeInterface.c\<close>, \<open>nvmeInterface.h\<close>
  and \<open>interfaceCommon.h\<close>: listing, creating, deleting, reading and writing partitions of the
  drive \<open>/dev/nvme0n1\<close>, and the checks the server makes before a performance job.

  libparted and libnvme are parameters: a record of their functions over a world of any type
  \<open>'w\<close>. A device, disk or partition is the handle the library returned; a field of the structure
  behind a handle is a function of the handle and the world. The state keeps, beside the world,
  the memory the caller's buffers live in, what was printed to standard output and the calls
  made to libparted that open or close something, look at a partition's name or change the disk.

  \<open>None\<close> is undefined behaviour: a null pointer dereferenced or a buffer overrun.
\<close>

section \<open>Text\<close>

text \<open>\<open>strncmp\<close> on strings without their terminating zero.\<close>

fun strncmp :: "string \<Rightarrow> string \<Rightarrow> nat \<Rightarrow> int" where
  "strncmp s t 0 = 0"
| "strncmp [] [] (Suc n) = 0"
| "strncmp [] (d # t) (Suc n) = - int (of_char d)"
| "strncmp (c # s) [] (Suc n) = int (of_char c)"
| "strncmp (c # s) (d # t) (Suc n) =
     (if c = d then strncmp s t n else int (of_char c) - int (of_char d))"

text \<open>\<open>%d\<close> and \<open>%lld\<close>: decimal digits, a minus sign in front of a negative number.\<close>

definition digit :: "nat \<Rightarrow> char" where
  "digit n = char_of (48 + n)"

fun dec_nat :: "nat \<Rightarrow> string" where
  "dec_nat n = (if n < 10 then [digit n] else dec_nat (n div 10) @ [digit (n mod 10)])"

declare dec_nat.simps [simp del]

definition dec :: "int \<Rightarrow> string" where
  "dec i = (if i < 0 then CHR ''-'' # dec_nat (nat (- i)) else dec_nat (nat i))"

definition nl :: string where
  "nl = [CHR 0x0A]"

definition tab :: string where
  "tab = [CHR 0x09]"

section \<open>Status codes\<close>

datatype error_t = ERROR_NONE | ERROR_STATE | ERROR_INPUT | ERROR_MEMORY | ERROR_EMPTY_QUEUE
  | ERROR_RE_INIT | ERROR_NO_INIT | ERROR_FULL_QUEUE | ERROR_NOT_SUPPORTED | ERROR_GENERAL

fun error_code :: "error_t \<Rightarrow> int" where
  "error_code ERROR_NONE = 0"
| "error_code ERROR_STATE = -1"
| "error_code ERROR_INPUT = -2"
| "error_code ERROR_MEMORY = -3"
| "error_code ERROR_EMPTY_QUEUE = -4"
| "error_code ERROR_RE_INIT = -5"
| "error_code ERROR_NO_INIT = -6"
| "error_code ERROR_FULL_QUEUE = -7"
| "error_code ERROR_NOT_SUPPORTED = -8"
| "error_code ERROR_GENERAL = -9"

datatype nvmeStatus_t = NVME_STATUS_OK | NVME_STATUS_ERROR | NVME_STATUS_NOT_FOUND
  | NVME_STATUS_INPUT | NVME_STATUS_PART_DNE | NVME_STATUS_BAD_NAME

fun nvme_code :: "nvmeStatus_t \<Rightarrow> int" where
  "nvme_code NVME_STATUS_OK = 0"
| "nvme_code NVME_STATUS_ERROR = -1"
| "nvme_code NVME_STATUS_NOT_FOUND = -2"
| "nvme_code NVME_STATUS_INPUT = -3"
| "nvme_code NVME_STATUS_PART_DNE = -4"
| "nvme_code NVME_STATUS_BAD_NAME = -5"

record lbaRange_t =
  startlba :: u32
  endlba :: u32

section \<open>The libraries\<close>

text \<open>What libnvme finds: hosts with subsystems with controllers and namespaces.\<close>

record nvme_ns =
  ns_name :: "string option"
  ns_nsid :: cint
  ns_lba_size :: cint
  ns_lba_count :: u64

record nvme_ctrl =
  ctrl_name :: "string option"
  ctrl_model :: "string option"
  ctrl_serial :: "string option"
  ctrl_firmware :: "string option"
  ctrl_transport :: "string option"
  ctrl_address :: "string option"
  ctrl_ns :: "nvme_ns list"

record nvme_subsystem =
  subsystem_name :: "string option"
  subsystem_nqn :: "string option"
  subsystem_ctrls :: "nvme_ctrl list"
  subsystem_ns :: "nvme_ns list"

type_synonym nvme_root = "nvme_subsystem list list"

text \<open>
  The functions of libparted and libnvme the code calls, and the fields it reads. Sector numbers
  (\<open>PedSector\<close>, 64 bits and signed) are integers: the code only adds 32-bit numbers to them.
\<close>

record 'w parted =
  nvme_scan :: "'w \<Rightarrow> nvme_root option \<times> 'w"
  ped_device_get :: "string \<Rightarrow> 'w \<Rightarrow> nat option \<times> 'w"
  ped_device_open :: "nat \<Rightarrow> 'w \<Rightarrow> bool \<times> 'w"
  ped_device_close :: "nat \<Rightarrow> 'w \<Rightarrow> 'w"
  dev_model :: "nat \<Rightarrow> 'w \<Rightarrow> string"
  dev_sector_size :: "nat \<Rightarrow> 'w \<Rightarrow> int"
  dev_length :: "nat \<Rightarrow> 'w \<Rightarrow> int"
  ped_disk_new :: "nat \<Rightarrow> 'w \<Rightarrow> nat option \<times> 'w"
  ped_disk_destroy :: "nat \<Rightarrow> 'w \<Rightarrow> 'w"
  ped_disk_get_partition :: "nat \<Rightarrow> int \<Rightarrow> 'w \<Rightarrow> nat option"
  ped_disk_get_last_partition_num :: "nat \<Rightarrow> 'w \<Rightarrow> int"
  ped_disk_get_partition_alignment :: "nat \<Rightarrow> 'w \<Rightarrow> int option"
  ped_file_system_type_get :: "string \<Rightarrow> 'w \<Rightarrow> nat option"
  ped_partition_get_name :: "nat \<Rightarrow> 'w \<Rightarrow> string option"
  part_num :: "nat \<Rightarrow> 'w \<Rightarrow> int"
  geom_start :: "nat \<Rightarrow> 'w \<Rightarrow> int"
  geom_length :: "nat \<Rightarrow> 'w \<Rightarrow> int"
  geom_end :: "nat \<Rightarrow> 'w \<Rightarrow> int"
  ped_partition_new :: "nat \<Rightarrow> nat \<Rightarrow> int \<Rightarrow> int \<Rightarrow> 'w \<Rightarrow> nat option \<times> 'w"
  ped_device_get_optimal_aligned_constraint :: "nat \<Rightarrow> 'w \<Rightarrow> nat option \<times> 'w"
  ped_disk_add_partition :: "nat \<Rightarrow> nat \<Rightarrow> nat option \<Rightarrow> 'w \<Rightarrow> bool \<times> 'w"
  ped_partition_set_name :: "nat \<Rightarrow> string \<Rightarrow> 'w \<Rightarrow> 'w"
  ped_disk_commit_to_dev :: "nat \<Rightarrow> 'w \<Rightarrow> bool \<times> 'w"
  ped_disk_commit_to_os :: "nat \<Rightarrow> 'w \<Rightarrow> bool \<times> 'w"
  ped_disk_commit :: "nat \<Rightarrow> 'w \<Rightarrow> bool \<times> 'w"
  ped_disk_delete_partition :: "nat \<Rightarrow> nat \<Rightarrow> 'w \<Rightarrow> bool \<times> 'w"
  ped_geometry_write :: "nat \<Rightarrow> byte list \<Rightarrow> int \<Rightarrow> int \<Rightarrow> 'w \<Rightarrow> bool \<times> 'w"
  ped_geometry_read :: "nat \<Rightarrow> int \<Rightarrow> int \<Rightarrow> 'w \<Rightarrow> bool \<times> byte list \<times> 'w"
  ped_geometry_sync :: "nat \<Rightarrow> 'w \<Rightarrow> bool \<times> 'w"

section \<open>State\<close>

text \<open>A C pointer: a block and an offset into it.\<close>

type_synonym cptr = "ptr \<times> nat"

datatype ped_call =
    Opened nat
  | Closed nat
  | Named nat "string option"
  | PartitionNew nat int int
  | Added nat nat
  | NameSet nat string
  | Deleted nat
  | Committed nat
  | GeometryWrite nat "byte list" int int
  | GeometryRead nat int int

record 'w nv =
  lib :: 'w
  mem :: heap
  calls :: "ped_call list"
  stdout :: string

definition say :: "string \<Rightarrow> 'w nv \<Rightarrow> 'w nv" where
  "say t s = s\<lparr>stdout := stdout s @ t\<rparr>"

definition did :: "ped_call \<Rightarrow> 'w \<Rightarrow> 'w nv \<Rightarrow> 'w nv" where
  "did c w s = s\<lparr>lib := w, calls := calls s @ [c]\<rparr>"

section \<open>Status and namespaces\<close>

definition or_unknown :: "string option \<Rightarrow> string" where
  "or_unknown s = (case s of None \<Rightarrow> ''(unknown)'' | Some t \<Rightarrow> t)"

definition print_namespace_info :: "nvme_ns \<Rightarrow> string" where
  "print_namespace_info n =
     (let size_bytes = size_of_int (ns_lba_size n) * ns_lba_count n in
      ''    namespace: '' @ or_unknown (ns_name n) @ nl @
      ''      nsid: '' @ dec (sint (ns_nsid n)) @ nl @
      ''      lba size: '' @ dec (sint (ns_lba_size n)) @ nl @
      ''      lba count: '' @ dec (uint (ns_lba_count n)) @ nl @
      ''      approx size bytes: '' @ dec (uint size_bytes) @ nl)"

text \<open>The text of one controller of a subsystem in the status.\<close>

definition controller_info :: "nvme_subsystem \<Rightarrow> nvme_ctrl \<Rightarrow> string" where
  "controller_info s c =
     ''controller: '' @ or_unknown (ctrl_name c) @ nl @
     ''  subsystem: '' @ or_unknown (subsystem_name s) @ nl @
     ''  subnqn: '' @ or_unknown (subsystem_nqn s) @ nl @
     ''  model: '' @ or_unknown (ctrl_model c) @ nl @
     ''  serial: '' @ or_unknown (ctrl_serial c) @ nl @
     ''  firmware: '' @ or_unknown (ctrl_firmware c) @ nl @
     ''  transport: '' @ or_unknown (ctrl_transport c) @ nl @
     (case ctrl_address c of
        None \<Rightarrow> [] | Some a \<Rightarrow> if a \<noteq> [] then ''  address: '' @ a @ nl else []) @
     (if subsystem_ns s = [] then ''No namespace found in subsystem'' @ nl else []) @
     concat (map print_namespace_info (ctrl_ns c)) @
     concat (map print_namespace_info (subsystem_ns s)) @ nl"

text \<open>The three nested loops of the status, with the flag \<open>found\<close>.\<close>

definition status_ctrl :: "nvme_subsystem \<Rightarrow> nvme_ctrl \<Rightarrow> bool \<times> 'w nv \<Rightarrow> bool \<times> 'w nv" where
  "status_ctrl s c = (\<lambda>(found, st). (True, say (controller_info s c) st))"

definition status_loop :: "nvme_root \<Rightarrow> bool \<times> 'w nv \<Rightarrow> bool \<times> 'w nv" where
  "status_loop r = fold (\<lambda>h. fold (\<lambda>s. fold (status_ctrl s) (subsystem_ctrls s)) h) r"

definition nvmeGetStatus :: "'w parted \<Rightarrow> 'w nv \<Rightarrow> nvmeStatus_t \<times> 'w nv" where
  "nvmeGetStatus P s =
     (case nvme_scan P (lib s) of
        (None, w) \<Rightarrow> (NVME_STATUS_ERROR, s\<lparr>lib := w\<rparr>)
      | (Some r, w) \<Rightarrow>
          (let (found, s') = status_loop r (False, s\<lparr>lib := w\<rparr>)
           in (if \<not> found then NVME_STATUS_NOT_FOUND else NVME_STATUS_OK, s')))"

text \<open>The listing: its flag \<open>found\<close> is only ever read.\<close>

definition namespace_loop :: "nvme_root \<Rightarrow> 'w nv \<Rightarrow> 'w nv" where
  "namespace_loop r = fold (\<lambda>h. fold (\<lambda>s. fold (\<lambda>c.
     say (concat (map print_namespace_info (ctrl_ns c)) @ nl)) (subsystem_ctrls s)) h) r"

definition nvmeListNamespace :: "'w parted \<Rightarrow> 'w nv \<Rightarrow> nvmeStatus_t \<times> 'w nv" where
  "nvmeListNamespace P s =
     (let found = False in
      case nvme_scan P (lib s) of
        (None, w) \<Rightarrow> (NVME_STATUS_ERROR, s\<lparr>lib := w\<rparr>)
      | (Some r, w) \<Rightarrow>
          (let s' = namespace_loop r (s\<lparr>lib := w\<rparr>)
           in (if \<not> found then NVME_STATUS_NOT_FOUND else NVME_STATUS_OK, s')))"

section \<open>Opening the disk\<close>

definition devicePath :: string where
  "devicePath = ''/dev/nvme0n1''"

text \<open>
  Every partition operation starts by looking the device up, opening it and reading its
  partition table; \<open>fail\<close> is how the operation returns a status, \<open>greet\<close> what it prints
  between the lookup and the opening, \<open>k\<close> the rest of the operation.
\<close>

definition with_disk ::
    "'w parted \<Rightarrow> (nat \<Rightarrow> 'w nv \<Rightarrow> 'w nv) \<Rightarrow> (nvmeStatus_t \<Rightarrow> 'w nv \<Rightarrow> 'r) \<Rightarrow> 'w nv \<Rightarrow>
     (nat \<Rightarrow> nat \<Rightarrow> 'w nv \<Rightarrow> 'r option) \<Rightarrow> 'r option" where
  "with_disk P greet fail s k =
     (case ped_device_get P devicePath (lib s) of
        (None, w) \<Rightarrow> Some (fail NVME_STATUS_NOT_FOUND (s\<lparr>lib := w\<rparr>))
      | (Some dev, w) \<Rightarrow>
          (let s1 = greet dev (s\<lparr>lib := w\<rparr>);
               (rc, w1) = ped_device_open P dev (lib s1)
           in if \<not> rc then Some (fail NVME_STATUS_ERROR (s1\<lparr>lib := w1\<rparr>))
              else
                (let s2 = did (Opened dev) w1 s1 in
                 case ped_disk_new P dev (lib s2) of
                   (None, w2) \<Rightarrow> Some (fail NVME_STATUS_ERROR (s2\<lparr>lib := w2\<rparr>))
                 | (Some disk, w2) \<Rightarrow> k dev disk (s2\<lparr>lib := w2\<rparr>))))"

definition print_model :: "'w parted \<Rightarrow> nat \<Rightarrow> 'w nv \<Rightarrow> 'w nv" where
  "print_model P dev s = say (''Parted device name: '' @ dev_model P dev (lib s) @ nl) s"

definition no_greeting :: "nat \<Rightarrow> 'w nv \<Rightarrow> 'w nv" where
  "no_greeting dev s = s"

text \<open>The disk and the device released.\<close>

definition release_disk :: "'w parted \<Rightarrow> nat \<Rightarrow> nat \<Rightarrow> 'w nv \<Rightarrow> 'w nv" where
  "release_disk P dev disk s =
     (let w = ped_disk_destroy P disk (lib s) in did (Closed dev) (ped_device_close P dev w) s)"

section \<open>Listing partitions\<close>

definition or_null :: "string option \<Rightarrow> string" where
  "or_null s = (case s of None \<Rightarrow> ''(null)'' | Some t \<Rightarrow> t)"

definition partition_info :: "'w parted \<Rightarrow> int \<Rightarrow> nat \<Rightarrow> 'w \<Rightarrow> string" where
  "partition_info P i p w =
     ''part '' @ dec i @ '' name: '' @ or_null (ped_partition_get_name P p w) @ nl @
     tab @ ''Size: '' @ dec (geom_length P p w) @ '' Sectors'' @ nl @
     tab @ ''Start: '' @ dec (geom_start P p w) @ '' | End: '' @ dec (geom_end P p w) @ nl"

function list_loop :: "'w parted \<Rightarrow> nat \<Rightarrow> int \<Rightarrow> 'w nv \<Rightarrow> 'w nv" where
  "list_loop P disk i s =
     (if i < 16 then
        list_loop P disk (i + 1)
          (case ped_disk_get_partition P disk i (lib s) of
             None \<Rightarrow> s
           | Some p \<Rightarrow> say (partition_info P i p (lib s))
               (did (Named p (ped_partition_get_name P p (lib s))) (lib s) s))
      else s)"
  by pat_completeness auto
termination
  by (relation "measure (\<lambda>(_, _, i, _). nat (16 - i))") auto

declare list_loop.simps [simp del]

definition nvmeListPartitions :: "'w parted \<Rightarrow> 'w nv \<Rightarrow> (nvmeStatus_t \<times> 'w nv) option" where
  "nvmeListPartitions P s = with_disk P (print_model P) Pair s
     (\<lambda>dev disk s. Some (NVME_STATUS_OK, release_disk P dev disk (list_loop P disk 1 s)))"

section \<open>The name check\<close>

text \<open>A partition without a name makes \<open>strncmp\<close> read a null pointer.\<close>

definition nvmeCheckNameSafety :: "'w parted \<Rightarrow> nat \<Rightarrow> 'w nv \<Rightarrow> (nvmeStatus_t \<times> 'w nv) option" where
  "nvmeCheckNameSafety P p s =
     (let partName = ped_partition_get_name P p (lib s);
          s1 = say (''comparing string '' @ or_null partName @ '' to AESD'' @ nl)
                 (did (Named p partName) (lib s) s)
      in case partName of
           None \<Rightarrow> None
         | Some name \<Rightarrow>
             (let rc = strncmp name ''AESD'' (length ''AESD'');
                  s2 = say (''Check rc: '' @ dec rc @ nl) s1
              in Some (if rc = 0 then NVME_STATUS_OK else NVME_STATUS_BAD_NAME, s2)))"

definition nvmeCheckNameSafetyPartNumber ::
    "'w parted \<Rightarrow> u8 \<Rightarrow> 'w nv \<Rightarrow> (nvmeStatus_t \<times> 'w nv) option" where
  "nvmeCheckNameSafetyPartNumber P partNumber s = with_disk P no_greeting Pair s (\<lambda>dev disk s.
     case ped_disk_get_partition P disk (uint partNumber) (lib s) of
       None \<Rightarrow> Some (NVME_STATUS_PART_DNE,
                 release_disk P dev disk (say (''Specified partition does not exist.'' @ nl) s))
     | Some p \<Rightarrow> nvmeCheckNameSafety P p s)"

section \<open>Creating and deleting a partition\<close>

text \<open>
  The last part of the creation: name the partition added and commit. The result is the status
  and the number stored through \<open>newPartNumber\<close>.
\<close>

definition create_name ::
    "'w parted \<Rightarrow> nat \<Rightarrow> nat \<Rightarrow> u8 \<Rightarrow> 'w nv \<Rightarrow> nvmeStatus_t \<times> u8 \<times> 'w nv" where
  "create_name P disk newPart newPartNumber s =
     (let printed = ''AESD Part '' @ dec (part_num P newPart (lib s));
          partName = take 15 printed;
          s1 = say (''trying to name part '' @ partName @ nl) s
      in if length printed \<noteq> length partName then (NVME_STATUS_ERROR, newPartNumber, s1)
         else
           (let s2 = did (NameSet newPart partName)
                       (ped_partition_set_name P newPart partName (lib s1)) s1;
                (rc3, w3) = ped_disk_commit_to_dev P disk (lib s2)
            in if \<not> rc3 then (NVME_STATUS_ERROR, newPartNumber, s2\<lparr>lib := w3\<rparr>)
               else
                 (let s3 = did (Committed disk) w3 s2;
                      (rc4, w4) = ped_disk_commit_to_os P disk (lib s3);
                      s4 = s3\<lparr>lib := w4\<rparr>
                  in if \<not> rc4 then (NVME_STATUS_ERROR, newPartNumber, s4)
                     else (NVME_STATUS_OK, word_of_int (part_num P newPart (lib s4)), s4))))"

text \<open>The part after the new partition's sectors are chosen: make it, add it, name it.\<close>

definition create_at ::
    "'w parted \<Rightarrow> nat \<Rightarrow> nat \<Rightarrow> nat \<Rightarrow> int \<Rightarrow> int \<Rightarrow> u8 \<Rightarrow> 'w nv \<Rightarrow> nvmeStatus_t \<times> u8 \<times> 'w nv" where
  "create_at P dev disk fsType sectorStart sectorEnd newPartNumber s =
     (case ped_partition_new P disk fsType sectorStart sectorEnd (lib s) of
        (None, w) \<Rightarrow> (NVME_STATUS_ERROR, newPartNumber, s\<lparr>lib := w\<rparr>)
      | (Some newPart, w) \<Rightarrow>
          (let s1 = say (''created new part!'' @ nl) (did (PartitionNew newPart sectorStart sectorEnd) w s);
               (constraint, w1) = ped_device_get_optimal_aligned_constraint P dev (lib s1);
               (rc, w2) = ped_disk_add_partition P disk newPart constraint w1
           in if \<not> rc then (NVME_STATUS_ERROR, newPartNumber, s1\<lparr>lib := w2\<rparr>)
              else create_name P disk newPart newPartNumber (did (Added disk newPart) w2 s1)))"

definition nvmeCreatePartition ::
    "'w parted \<Rightarrow> u32 \<Rightarrow> u8 \<Rightarrow> 'w nv \<Rightarrow> (nvmeStatus_t \<times> u8 \<times> 'w nv) option" where
  "nvmeCreatePartition P sizeSectors newPartNumber s =
     with_disk P (print_model P) (\<lambda>st s. (st, newPartNumber, s)) s (\<lambda>dev disk s.
       case ped_file_system_type_get P ''ext4'' (lib s) of
         None \<Rightarrow> Some (NVME_STATUS_ERROR, newPartNumber, s)
       | Some fsType \<Rightarrow> do {
           grain \<leftarrow> ped_disk_get_partition_alignment P disk (lib s);
           let s1 = say (''sector size: '' @ dec (sint (word_of_int (dev_sector_size P dev (lib s)) :: cint)) @ nl)
                      (say (''Found '' @ dec grain @ '' alignment'' @ nl) s);
           let lastPartNum = ped_disk_get_last_partition_num P disk (lib s1);
           if lastPartNum = - 1 then Some (NVME_STATUS_ERROR, newPartNumber, s1)
           else do {
             lastPart \<leftarrow> ped_disk_get_partition P disk lastPartNum (lib s1);
             let sectorStart = geom_end P lastPart (lib s1);
             let maxSector = dev_length P dev (lib s1) - 1;
             if sectorStart + uint sizeSectors > maxSector then Some (NVME_STATUS_INPUT, newPartNumber, s1)
             else (case ped_disk_get_partition P disk lastPartNum (lib s1) of
                 None \<Rightarrow> Some (NVME_STATUS_ERROR, newPartNumber, s1)
               | Some lastPart \<Rightarrow>
                   (let sectorStart = geom_end P lastPart (lib s1) + 1;
                        sectorEnd = sectorStart + uint sizeSectors - 1
                    in if sectorEnd > dev_length P dev (lib s1) - 1
                       then Some (NVME_STATUS_INPUT, newPartNumber, s1)
                       else Some (create_at P dev disk fsType sectorStart sectorEnd newPartNumber s1)))
           }
         })"

definition nvmeDeletePartition :: "'w parted \<Rightarrow> cint \<Rightarrow> 'w nv \<Rightarrow> (nvmeStatus_t \<times> 'w nv) option" where
  "nvmeDeletePartition P partNumber s = with_disk P no_greeting Pair s (\<lambda>dev disk s.
     case ped_disk_get_partition P disk (sint partNumber) (lib s) of
       None \<Rightarrow> Some (NVME_STATUS_INPUT, s)
     | Some partToDelete \<Rightarrow> do {
         (rc, s1) \<leftarrow> nvmeCheckNameSafety P partToDelete s;
         if rc \<noteq> NVME_STATUS_OK
         then Some (NVME_STATUS_BAD_NAME,
                say (''Detected rmpart on non-AESD partition with SAFE_MODE active.'' @ nl @
                  ''Saving you from yourself.'' @ nl) s1)
         else do {
           let (rc2, w2) = ped_disk_delete_partition P disk partToDelete (lib s1);
           let s2 = did (Deleted partToDelete) w2 s1;
           let (rc3, w3) = ped_disk_commit P disk (lib s2);
           Some (if \<not> rc3 then (NVME_STATUS_ERROR, s2\<lparr>lib := w3\<rparr>)
                 else (NVME_STATUS_OK, did (Committed disk) w3 s2))
         }
       })"

section \<open>Writing and reading sectors\<close>

text \<open>One sector of the device is read from the buffer, whatever \<open>length\<close> says.\<close>

definition nvmeWritePartitionSector ::
    "'w parted \<Rightarrow> u32 \<Rightarrow> u32 \<Rightarrow> cptr \<Rightarrow> u64 \<Rightarrow> 'w nv \<Rightarrow> (nvmeStatus_t \<times> 'w nv) option" where
  "nvmeWritePartitionSector P partNumber sectorNumber buffer len s =
     with_disk P no_greeting Pair s (\<lambda>dev disk s.
       case ped_disk_get_partition P disk (sint (partNumber :: cint)) (lib s) of
         None \<Rightarrow> Some (NVME_STATUS_INPUT,
                   release_disk P dev disk (say (''Specified partition does not exist.'' @ nl) s))
       | Some partToWrite \<Rightarrow> do {
           (rc, s1) \<leftarrow> nvmeCheckNameSafety P partToWrite s;
           if rc \<noteq> NVME_STATUS_OK
           then Some (NVME_STATUS_BAD_NAME,
                  say (''Detected write on non-AESD partition with SAFE_MODE active.'' @ nl @
                    ''Saving you from yourself.'' @ nl) s1)
           else do {
             let s2 = say (''writing geom '' @ dec (geom_start P partToWrite (lib s1)) @ '' '' @
                       dec (geom_length P partToWrite (lib s1)) @ '' '' @
                       dec (geom_end P partToWrite (lib s1)) @ nl) s1;
             let sectorCount = 1;
             data \<leftarrow> mem_read (mem s2) (fst buffer) (snd buffer)
                       (nat (sectorCount * dev_sector_size P dev (lib s2)));
             let (rc3, w3) = ped_geometry_write P partToWrite data 0 sectorCount (lib s2);
             let s3 = did (GeometryWrite partToWrite data 0 sectorCount) w3 s2;
             if \<not> rc3 then Some (NVME_STATUS_ERROR, s3)
             else do {
               let (rc4, w4) = ped_geometry_sync P partToWrite (lib s3);
               Some (if \<not> rc4 then NVME_STATUS_ERROR else NVME_STATUS_OK, s3\<lparr>lib := w4\<rparr>)
             }
           }
         })"

text \<open>The bytes the library stores in the buffer must fit it; a sector size of 0 divides by zero.\<close>

definition nvmeReadPartitionSector ::
    "'w parted \<Rightarrow> u32 \<Rightarrow> u32 \<Rightarrow> cptr \<Rightarrow> u64 \<Rightarrow> 'w nv \<Rightarrow> (nvmeStatus_t \<times> 'w nv) option" where
  "nvmeReadPartitionSector P partNumber sectorNumber buffer len s =
     with_disk P no_greeting Pair s (\<lambda>dev disk s.
       case ped_disk_get_partition P disk (sint (partNumber :: cint)) (lib s) of
         None \<Rightarrow> Some (NVME_STATUS_PART_DNE,
                   release_disk P dev disk (say (''Specified partition does not exist.'' @ nl) s))
       | Some partToRead \<Rightarrow>
           (let sector = word_of_int (dev_sector_size P dev (lib s)) :: u64 in
            if sector = 0 then None
            else do {
              let sectorCount = sint (int_of_size (len div sector));
              let s1 = say (''nvmeRead: reading '' @ dec sectorCount @ '' sectors'' @ nl) s;
              let (rc, data, w) = ped_geometry_read P partToRead 0 sectorCount (lib s1);
              let s2 = did (GeometryRead partToRead 0 sectorCount) w s1;
              h \<leftarrow> mem_write (mem s2) (fst buffer) (snd buffer) data;
              Some (if \<not> rc then NVME_STATUS_ERROR else NVME_STATUS_OK, s2\<lparr>mem := h\<rparr>)
            }))"

section \<open>Sector ranges of a partition\<close>

text \<open>\<open>with_part\<close> is the shared start of the three queries.\<close>

definition with_part ::
    "'w parted \<Rightarrow> u8 \<Rightarrow> (nvmeStatus_t \<Rightarrow> 'w nv \<Rightarrow> 'r) \<Rightarrow> 'w nv \<Rightarrow> (nat \<Rightarrow> 'w nv \<Rightarrow> 'r) \<Rightarrow> 'r option" where
  "with_part P partNumber fail s k = with_disk P no_greeting fail s (\<lambda>dev disk s.
     case ped_disk_get_partition P disk (uint partNumber) (lib s) of
       None \<Rightarrow> Some (fail NVME_STATUS_PART_DNE
                 (release_disk P dev disk (say (''Specified partition does not exist.'' @ nl) s)))
     | Some part \<Rightarrow> Some (k part s))"

text \<open>The four tests; the first compares an unsigned 64-bit number with the signed length.\<close>

definition lba_in_bounds :: "lbaRange_t \<Rightarrow> int \<Rightarrow> int \<Rightarrow> int \<Rightarrow> bool" where
  "lba_in_bounds lbas gstart glength gend =
     (let size = uint (endlba lbas - startlba lbas) in
      \<not> (size > glength mod 2 ^ 64) \<and>
      \<not> (uint (startlba lbas) + gstart > gend) \<and>
      \<not> (uint (endlba lbas) + gstart > gend) \<and>
      \<not> (uint (endlba lbas - startlba lbas) > glength))"

definition nvmeCheckLbaRangeInPart ::
    "'w parted \<Rightarrow> u8 \<Rightarrow> lbaRange_t \<Rightarrow> 'w nv \<Rightarrow> (nvmeStatus_t \<times> 'w nv) option" where
  "nvmeCheckLbaRangeInPart P partNumber lbas s = with_part P partNumber Pair s (\<lambda>part s.
     (if lba_in_bounds lbas (geom_start P part (lib s)) (geom_length P part (lib s)) (geom_end P part (lib s))
      then NVME_STATUS_OK else NVME_STATUS_ERROR, s))"

text \<open>The result is the status and the value stored through \<open>lba\<close>.\<close>

definition nvmeGetStartLbaInPart ::
    "'w parted \<Rightarrow> u8 \<Rightarrow> u64 \<Rightarrow> 'w nv \<Rightarrow> (nvmeStatus_t \<times> u64 \<times> 'w nv) option" where
  "nvmeGetStartLbaInPart P partNumber lba s = with_part P partNumber (\<lambda>st s. (st, lba, s)) s
     (\<lambda>part s. (NVME_STATUS_OK, word_of_int (geom_start P part (lib s)), s))"

definition nvmeGetEndLbaInPart ::
    "'w parted \<Rightarrow> u8 \<Rightarrow> u64 \<Rightarrow> 'w nv \<Rightarrow> (nvmeStatus_t \<times> u64 \<times> 'w nv) option" where
  "nvmeGetEndLbaInPart P partNumber lba s = with_part P partNumber (\<lambda>st s. (st, lba, s)) s
     (\<lambda>part s. (NVME_STATUS_OK, word_of_int (geom_end P part (lib s)), s))"

section \<open>Specification notions\<close>

text \<open>
  A name that marks a partition of this program.
\<close>

definition aesd_name :: "string option \<Rightarrow> bool" where
  "aesd_name nm = (case nm of None \<Rightarrow> False | Some t \<Rightarrow> take 4 t = ''AESD'')"

text \<open>
  A sequence of calls deletes or writes only partitions whose name was looked at before, most
  recently with the program's prefix; \<open>C\<close> are the partitions already known to be ours.
\<close>

fun guarded :: "nat set \<Rightarrow> ped_call list \<Rightarrow> bool" where
  "guarded C [] = True"
| "guarded C (Named p nm # cs) = guarded (if aesd_name nm then insert p C else C - {p}) cs"
| "guarded C (Deleted p # cs) = (p \<in> C \<and> guarded (C - {p}) cs)"
| "guarded C (GeometryWrite p data off count # cs) = (p \<in> C \<and> guarded C cs)"
| "guarded C (c # cs) = guarded C cs"

text \<open>
  An operation appended such a sequence to the calls, trusting no earlier check.
\<close>

definition safe_step :: "'w nv \<Rightarrow> 'w nv \<Rightarrow> bool" where
  "safe_step s s' \<longleftrightarrow> (\<exists>new. calls s' = calls s @ new \<and> guarded {} new)"

text \<open>
  Devices opened less devices closed.
\<close>

fun open_balance :: "ped_call list \<Rightarrow> int" where
  "open_balance [] = 0"
| "open_balance (Opened dev # cs) = open_balance cs + 1"
| "open_balance (Closed dev # cs) = open_balance cs - 1"
| "open_balance (c # cs) = open_balance cs"

text \<open>
  The calls a creation makes, in order; a creation that fails stops after some of them.
\<close>

abbreviation create_calls :: "nat \<Rightarrow> nat \<Rightarrow> int \<Rightarrow> int \<Rightarrow> int \<Rightarrow> ped_call list" where
  "create_calls disk q a b num \<equiv>
     [PartitionNew q a b, Added disk q, NameSet q (''AESD Part '' @ dec num), Committed disk]"

text \<open>
  The disk can be opened from state \<open>s\<close>, giving the handles \<open>dev\<close> and \<open>disk\<close> in state
  \<open>s'\<close>.
\<close>

definition opens :: "'w parted \<Rightarrow> (nat \<Rightarrow> 'w nv \<Rightarrow> 'w nv) \<Rightarrow> 'w nv \<Rightarrow> nat \<Rightarrow> nat \<Rightarrow> 'w nv \<Rightarrow> bool" where
  "opens P greet s dev disk s' \<longleftrightarrow>
     (\<exists>w w1 w2. ped_device_get P devicePath (lib s) = (Some dev, w) \<and>
        (let s1 = greet dev (s\<lparr>lib := w\<rparr>) in
         ped_device_open P dev (lib s1) = (True, w1) \<and>
         ped_disk_new P dev w1 = (Some disk, w2) \<and> s' = (did (Opened dev) w1 s1)\<lparr>lib := w2\<rparr>))"

text \<open>
  A small drive to evaluate the operations on: two partitions, one of them of this program, with
  sectors of two bytes; a handle is an index into the list.
\<close>

record xpart =
  xnum :: int
  xname :: "string option"
  xstart :: int
  xend :: int
  xdata :: "byte list"

definition find_part :: "int \<Rightarrow> xpart list \<Rightarrow> nat option" where
  "find_part n ps = map_option fst (find (\<lambda>(i, p). xnum p = n) (enumerate 0 ps))"

definition example_parted :: "xpart list parted" where
  "example_parted = \<lparr>
     nvme_scan = (\<lambda>w. (Some [], w)),
     ped_device_get = (\<lambda>path w. (Some 0, w)),
     ped_device_open = (\<lambda>dev w. (True, w)),
     ped_device_close = (\<lambda>dev w. w),
     dev_model = (\<lambda>dev w. ''disk''),
     dev_sector_size = (\<lambda>dev w. 2),
     dev_length = (\<lambda>dev w. 1000),
     ped_disk_new = (\<lambda>dev w. (Some 0, w)),
     ped_disk_destroy = (\<lambda>disk w. w),
     ped_disk_get_partition = (\<lambda>disk n w. find_part n w),
     ped_disk_get_last_partition_num = (\<lambda>disk w. fold max (map xnum w) (- 1)),
     ped_disk_get_partition_alignment = (\<lambda>disk w. Some 1),
     ped_file_system_type_get = (\<lambda>name w. Some 0),
     ped_partition_get_name = (\<lambda>p w. xname (w ! p)),
     part_num = (\<lambda>p w. xnum (w ! p)),
     geom_start = (\<lambda>p w. xstart (w ! p)),
     geom_length = (\<lambda>p w. xend (w ! p) - xstart (w ! p) + 1),
     geom_end = (\<lambda>p w. xend (w ! p)),
     ped_partition_new = (\<lambda>disk fs a b w. (Some (length w),
       w @ [\<lparr>xnum = 0, xname = Some [], xstart = a, xend = b, xdata = []\<rparr>])),
     ped_device_get_optimal_aligned_constraint = (\<lambda>dev w. (None, w)),
     ped_disk_add_partition = (\<lambda>disk p c w. (True, w[p := (w ! p)\<lparr>xnum := fold max (map xnum w) 0 + 1\<rparr>])),
     ped_partition_set_name = (\<lambda>p nm w. w[p := (w ! p)\<lparr>xname := Some nm\<rparr>]),
     ped_disk_commit_to_dev = (\<lambda>disk w. (True, w)),
     ped_disk_commit_to_os = (\<lambda>disk w. (True, w)),
     ped_disk_commit = (\<lambda>disk w. (True, w)),
     ped_disk_delete_partition = (\<lambda>disk p w. (True, w[p := (w ! p)\<lparr>xnum := - 1\<rparr>])),
     ped_geometry_write = (\<lambda>p data off count w. (True, w[p := (w ! p)\<lparr>xdata := data\<rparr>])),
     ped_geometry_read = (\<lambda>p off count w. (True, take (nat (2 * count)) (xdata (w ! p)), w)),
     ped_geometry_sync = (\<lambda>p w. (True, w))\<rparr>"

definition example_drive :: "xpart list nv" where
  "example_drive = \<lparr>
     lib = [\<lparr>xnum = 1, xname = Some ''root'', xstart = 34, xend = 99, xdata = [1, 2]\<rparr>,
            \<lparr>xnum = 2, xname = Some ''AESD Part 2'', xstart = 100, xend = 199, xdata = [3, 4]\<rparr>],
     mem = [1 \<mapsto> [7, 8, 9]], calls = [], stdout = []\<rparr>"

section \<open>Text and traces\<close>

lemma did_sel [simp]:
  "lib (did c w s) = w" "calls (did c w s) = calls s @ [c]" "mem (did c w s) = mem s" "stdout (did c w s) = stdout s"
  by (simp_all add: did_def)

lemma say_sel [simp]:
  "lib (say t s) = lib s" "calls (say t s) = calls s" "mem (say t s) = mem s" "stdout (say t s) = stdout s @ t"
  by (simp_all add: say_def)

lemma of_char_simps: "(of_char c :: nat) = 0 \<longleftrightarrow> c = CHR 0x00" "int (of_char c) = int (of_char d) \<longleftrightarrow> c = d"
proof -
  have "(of_char c :: nat) = of_char (CHR 0x00) \<longleftrightarrow> c = CHR 0x00" by (rule of_char_eq_iff)
  then show "(of_char c :: nat) = 0 \<longleftrightarrow> c = CHR 0x00" by simp
  show "int (of_char c) = int (of_char d) \<longleftrightarrow> c = d" by (simp only: of_nat_eq_iff of_char_eq_iff)
qed

lemma strncmp_zero:
  "strncmp [] (d # t) (Suc n) = 0 \<longleftrightarrow> d = CHR 0x00" "strncmp (c # s) [] (Suc n) = 0 \<longleftrightarrow> c = CHR 0x00"
  "strncmp (c # s) (d # t) (Suc n) = 0 \<longleftrightarrow> c = d \<and> strncmp s t n = 0"
  using of_char_simps(1) [of d] of_char_simps(1) [of c] of_char_simps(2) [of c d]
  by (simp_all only: strncmp.simps neg_equal_0_iff_equal of_nat_eq_0_iff right_minus_eq split: if_split) auto

lemma strncmp_prefix:
  assumes "CHR 0x00 \<notin> set t"
  shows "strncmp s t (length t) = 0 \<longleftrightarrow> take (length t) s = t"
  using assms
proof (induction t arbitrary: s)
  case (Cons d t)
  then show ?case by (cases s) (auto simp: strncmp_zero simp del: strncmp.simps)
qed simp

lemma strncmp_full:
  assumes "CHR 0x00 \<notin> set s" "CHR 0x00 \<notin> set t"
  shows "strncmp s t (Suc (length t)) = 0 \<longleftrightarrow> s = t"
  using assms
proof (induction t arbitrary: s)
  case Nil
  then show ?case by (cases s) (auto simp: strncmp_zero simp del: strncmp.simps(3-5))
next
  case (Cons d t)
  then show ?case by (cases s) (auto simp: strncmp_zero simp del: strncmp.simps(3-5))
qed

lemma guarded_mono: "guarded C cs \<Longrightarrow> C \<subseteq> D \<Longrightarrow> guarded D cs"
proof (induction C cs arbitrary: D rule: guarded.induct)
  case (2 C p nm cs)
  have "(if aesd_name nm then insert p C else C - {p}) \<subseteq> (if aesd_name nm then insert p D else D - {p})"
    using "2.prems"(2) by auto
  with "2.prems"(1) "2.IH" show ?case by simp
next
  case (3 C p cs)
  from "3.prems" "3.IH" [of "D - {p}"] show ?case by (auto simp: Diff_mono)
qed auto

lemma guarded_append: "guarded C xs \<Longrightarrow> guarded {} ys \<Longrightarrow> guarded C (xs @ ys)"
  by (induction C xs rule: guarded.induct) (auto intro: guarded_mono)

lemma safe_step_refl [simp]: "safe_step s s"
  by (simp add: safe_step_def)

lemma safe_step_trans: "safe_step s s1 \<Longrightarrow> safe_step s1 s2 \<Longrightarrow> safe_step s s2"
  unfolding safe_step_def using guarded_append by fastforce

lemma safe_step_same: "calls s' = calls s \<Longrightarrow> safe_step s s'"
  by (simp add: safe_step_def)

lemma with_disk_eq:
  assumes "opens P greet s dev disk s'"
  shows "with_disk P greet fail s k = k dev disk s'"
  using assms by (auto simp: opens_def with_disk_def Let_def)

lemma with_disk_cases:
  assumes "with_disk P greet fail s k = r"
  obtains dev disk s' where "opens P greet s dev disk s'" "k dev disk s' = r"
  | st s' where "r = Some (fail st s')" "st \<in> {NVME_STATUS_NOT_FOUND, NVME_STATUS_ERROR}"
      "(\<exists>w. s' = s\<lparr>lib := w\<rparr>) \<or> (\<exists>dev w w'. s' = (greet dev (s\<lparr>lib := w\<rparr>))\<lparr>lib := w'\<rparr>) \<or>
       (\<exists>dev w w1 w2. s' = (did (Opened dev) w1 (greet dev (s\<lparr>lib := w\<rparr>)))\<lparr>lib := w2\<rparr>)"
proof -
  obtain d w where d: "ped_device_get P devicePath (lib s) = (d, w)" by fastforce
  show ?thesis
  proof (cases d)
    case None
    with d assms have "r = Some (fail NVME_STATUS_NOT_FOUND (s\<lparr>lib := w\<rparr>))" by (simp add: with_disk_def)
    with that(2) show ?thesis by blast
  next
    case (Some dev)
    let ?s1 = "greet dev (s\<lparr>lib := w\<rparr>)"
    obtain rc w1 where o: "ped_device_open P dev (lib ?s1) = (rc, w1)" by fastforce
    obtain k' w2 where n: "ped_disk_new P dev w1 = (k', w2)" by fastforce
    show ?thesis
    proof (cases "rc \<and> k' \<noteq> None")
      case True
      then obtain disk where "k' = Some disk" by auto
      with True d Some o n have "opens P greet s dev disk ((did (Opened dev) w1 ?s1)\<lparr>lib := w2\<rparr>)"
        by (auto simp: opens_def Let_def)
      with assms that(1) show ?thesis by (metis with_disk_eq)
    next
      case False
      with d Some o n assms have "r = Some (fail NVME_STATUS_ERROR
          (if rc then (did (Opened dev) w1 ?s1)\<lparr>lib := w2\<rparr> else ?s1\<lparr>lib := w1\<rparr>))"
        by (cases rc) (auto simp: with_disk_def Let_def)
      with that(2) show ?thesis by (cases rc) (simp; blast)+
    qed
  qed
qed

lemma opens_calls:
  assumes "opens P greet s dev disk s'" "\<And>dev s. calls (greet dev s) = calls s"
  shows "calls s' = calls s @ [Opened dev]"
  using assms by (auto simp: opens_def Let_def)

lemma greet_calls [simp]: "calls (print_model P dev s) = calls s" "calls (no_greeting dev s) = calls s"
  by (simp_all add: print_model_def no_greeting_def)

lemma with_disk_calls:
  assumes "with_disk P greet fail s k = Some r" "\<And>dev s. calls (greet dev s) = calls s"
  obtains dev disk s' where "opens P greet s dev disk s'" "calls s' = calls s @ [Opened dev]" "k dev disk s' = Some r"
  | st s' where "r = fail st s'" "st \<in> {NVME_STATUS_NOT_FOUND, NVME_STATUS_ERROR}"
      "\<exists>new. calls s' = calls s @ new \<and> new \<in> insert [] (range (\<lambda>dev. [Opened dev]))"
  using with_disk_cases [OF assms(1)]
proof cases
  case (1 dev disk s')
  with opens_calls [OF 1(1) assms(2)] that(1) show ?thesis by blast
next
  case (2 st s')
  then have "\<exists>new. calls s' = calls s @ new \<and> new \<in> insert [] (range (\<lambda>dev. [Opened dev]))"
    using assms(2) by auto
  with 2 that(2) show ?thesis by blast
qed

lemma release_disk_sel [simp]: "calls (release_disk P dev disk s) = calls s @ [Closed dev]" 
  "stdout (release_disk P dev disk s) = stdout s" "mem (release_disk P dev disk s) = mem s"
  by (simp_all add: release_disk_def Let_def)

lemma name_check:
  "nvmeCheckNameSafety P p s = (case ped_partition_get_name P p (lib s) of
     None \<Rightarrow> None
   | Some nm \<Rightarrow> Some (if aesd_name (Some nm) then NVME_STATUS_OK else NVME_STATUS_BAD_NAME,
       say (''Check rc: '' @ dec (strncmp nm ''AESD'' 4) @ nl)
         (say (''comparing string '' @ nm @ '' to AESD'' @ nl) (did (Named p (Some nm)) (lib s) s))))"
  using strncmp_prefix [of "''AESD''"]
  by (auto simp: nvmeCheckNameSafety_def Let_def aesd_name_def or_null_def numeral_nat split: option.splits)

section \<open>What the operations call\<close>

lemma list_loop_trace:
  "\<exists>new. calls (list_loop P disk i s) = calls s @ new \<and> guarded C new \<and> open_balance new = 0"
proof (induction P disk i s arbitrary: C rule: list_loop.induct)
  case (1 P disk i s)
  show ?case
  proof (cases "i < 16")
    case False
    then show ?thesis by (simp add: list_loop.simps)
  next
    case True
    show ?thesis
    proof (cases "ped_disk_get_partition P disk i (lib s)")
      case None
      with True "1.IH" [OF True, of C] show ?thesis by (simp add: list_loop.simps [of P disk i s])
    next
      case (Some p)
      let ?nm = "ped_partition_get_name P p (lib s)"
      from "1.IH" [OF True, of "if aesd_name ?nm then insert p C else C - {p}"] Some obtain new where
        "calls (list_loop P disk i s) = calls s @ Named p ?nm # new"
        "guarded (if aesd_name ?nm then insert p C else C - {p}) new" "open_balance new = 0"
        using True by (auto simp: list_loop.simps [of P disk i s])
      then show ?thesis by (intro exI [of _ "Named p ?nm # new"]) simp
    qed
  qed
qed

lemma list_loop_stdout:
  "lib (list_loop P disk i s) = lib s \<and> mem (list_loop P disk i s) = mem s \<and>
   stdout (list_loop P disk i s) = stdout s @ concat (map (\<lambda>n.
     case ped_disk_get_partition P disk n (lib s) of None \<Rightarrow> []
     | Some p \<Rightarrow> partition_info P n p (lib s)) [i..15])"
proof (induction P disk i s rule: list_loop.induct)
  case (1 P disk i s)
  show ?case
  proof (cases "i < 16")
    case True
    then have "[i..15] = i # [i + 1..15]" by (simp add: upto_rec1)
    with True "1.IH" [OF True] show ?thesis
      by (cases "ped_disk_get_partition P disk i (lib s)")
        (simp_all add: list_loop.simps [of P disk i s] cong: option.case_cong)
  qed (simp add: list_loop.simps)
qed

lemma create_name_trace:
  assumes "create_name P disk q n s = (st, n', s')"
  shows "\<exists>k. calls s' = calls s @ take k [NameSet q (''AESD Part '' @ dec (part_num P q (lib s))), Committed disk] \<and>
    st \<noteq> NVME_STATUS_INPUT \<and> (st \<noteq> NVME_STATUS_OK \<longrightarrow> n' = n) \<and>
    (st = NVME_STATUS_OK \<longrightarrow> k = 2 \<and> n' = word_of_int (part_num P q (lib s')) \<and>
       length (dec (part_num P q (lib s))) < 6)"
proof -
  let ?n = "NameSet q (''AESD Part '' @ dec (part_num P q (lib s)))"
  have "\<exists>new. calls s' = calls s @ new \<and> (new = [] \<or> new = [?n] \<or> new = [?n, Committed disk]) \<and>
    st \<noteq> NVME_STATUS_INPUT \<and> (st \<noteq> NVME_STATUS_OK \<longrightarrow> n' = n) \<and>
    (st = NVME_STATUS_OK \<longrightarrow> new = [?n, Committed disk] \<and> n' = word_of_int (part_num P q (lib s')) \<and>
       length (dec (part_num P q (lib s))) < 6)"
    using assms by (simp add: create_name_def Let_def case_prod_beta split: if_splits) auto
  then obtain new where new: "calls s' = calls s @ new" "new = take (length new) [?n, Committed disk]"
    "st \<noteq> NVME_STATUS_INPUT" "st \<noteq> NVME_STATUS_OK \<longrightarrow> n' = n"
    "st = NVME_STATUS_OK \<longrightarrow> length new = 2 \<and> n' = word_of_int (part_num P q (lib s')) \<and>
       length (dec (part_num P q (lib s))) < 6" by auto
  then show ?thesis by (intro exI [of _ "length new"]) simp
qed

lemma create_at_trace:
  assumes "create_at P dev disk fs a b n s = (st, n', s')"
  shows "\<exists>q num k. calls s' = calls s @ take k (create_calls disk q a b num) \<and>
    st \<noteq> NVME_STATUS_INPUT \<and> (st \<noteq> NVME_STATUS_OK \<longrightarrow> n' = n) \<and>
    (st = NVME_STATUS_OK \<longrightarrow> k = 4 \<and> n' = word_of_int (part_num P q (lib s')) \<and> length (dec num) < 6 \<and>
       (\<exists>w c w1 w2. ped_partition_new P disk fs a b (lib s) = (Some q, w) \<and>
          ped_device_get_optimal_aligned_constraint P dev w = (c, w1) \<and>
          ped_disk_add_partition P disk q c w1 = (True, w2) \<and> num = part_num P q w2))"
proof -
  obtain q w where q: "ped_partition_new P disk fs a b (lib s) = (q, w)" by fastforce
  show ?thesis
  proof (cases q)
    case None
    with assms q show ?thesis by (intro exI [of _ 0]) (auto simp: create_at_def)
  next
    case (Some p)
    obtain c w1 where c: "ped_device_get_optimal_aligned_constraint P dev w = (c, w1)" by fastforce
    obtain rc w2 where rc: "ped_disk_add_partition P disk p c w1 = (rc, w2)" by fastforce
    let ?num = "part_num P p w2"
    show ?thesis
    proof (cases rc)
      case False
      with assms q Some c rc show ?thesis
        by - (rule exI [of _ p], rule exI [of _ ?num], rule exI [of _ 1], auto simp: create_at_def Let_def)
    next
      case True
      with assms q Some c rc have
        "create_name P disk p n (did (Added disk p) w2 (say (''created new part!'' @ nl) (did (PartitionNew p a b) w s)))
          = (st, n', s')" by (simp add: create_at_def Let_def)
      from create_name_trace [OF this] obtain k where
        "calls s' = calls s @ take (Suc (Suc k)) (create_calls disk p a b ?num)"
        "st \<noteq> NVME_STATUS_INPUT" "st \<noteq> NVME_STATUS_OK \<longrightarrow> n' = n"
        "st = NVME_STATUS_OK \<longrightarrow> k = 2 \<and> n' = word_of_int (part_num P p (lib s')) \<and> length (dec ?num) < 6" by auto
      with q Some c rc True show ?thesis
        by - (rule exI [of _ p], rule exI [of _ ?num], rule exI [of _ "Suc (Suc k)"], auto)
    qed
  qed
qed

lemma create_calls_safe: "guarded C (take k (create_calls disk q a b num))" "open_balance (take k (create_calls disk q a b num)) = 0"
  by (simp_all add: take_Cons')

lemma create_cases:
  assumes "nvmeCreatePartition P sz n s = Some (st, n', s')" "opens P (print_model P) s dev disk s1"
  defines "free \<equiv> geom_end P (the (ped_disk_get_partition P disk (ped_disk_get_last_partition_num P disk (lib s1)) (lib s1))) (lib s1) + 1"
  shows "st \<in> {NVME_STATUS_ERROR, NVME_STATUS_INPUT} \<and> n' = n \<and> calls s' = calls s1 \<and>
      (st = NVME_STATUS_INPUT \<longrightarrow> dev_length P dev (lib s1) < free + uint sz) \<or>
    free + uint sz \<le> dev_length P dev (lib s1) \<and>
      (\<exists>fs s2. calls s2 = calls s1 \<and> lib s2 = lib s1 \<and> create_at P dev disk fs free (free + uint sz - 1) n s2 = (st, n', s'))"
  using assms(1) unfolding nvmeCreatePartition_def with_disk_eq [OF assms(2)] free_def
  by (auto simp: Let_def split: option.splits if_splits bind_splits)

lemma create_trace:
  assumes "nvmeCreatePartition P sz n s = Some (st, n', s')"
  shows "\<exists>new. calls s' = calls s @ new \<and> guarded C new \<and>
    (st = NVME_STATUS_OK \<longrightarrow> open_balance new = 1)"
  using assms [unfolded nvmeCreatePartition_def] greet_calls(1)
proof (cases rule: with_disk_calls)
  case (1 dev disk s1)
  from create_cases [OF assms 1(1)] show ?thesis
  proof (elim disjE conjE exE)
    fix fs a b s2
    assume "create_at P dev disk fs a b n s2 = (st, n', s')" "calls s2 = calls s1"
    with create_at_trace [of P dev disk fs a b n s2 st n' s'] obtain new where
      "calls s' = calls s1 @ new" "guarded C new" "open_balance new = 0" using create_calls_safe by force
    with 1(2) show ?thesis by (intro exI [of _ "Opened dev # new"]) simp
  qed (use 1(2) in auto)
next
  case (2 st' s1)
  then show ?thesis by auto
qed

lemma delete_eq:
  assumes "opens P no_greeting s dev disk s1"
  shows "nvmeDeletePartition P n s =
    (case ped_disk_get_partition P disk (sint n) (lib s1) of
       None \<Rightarrow> Some (NVME_STATUS_INPUT, s1)
     | Some p \<Rightarrow> (case ped_partition_get_name P p (lib s1) of
         None \<Rightarrow> None
       | Some nm \<Rightarrow>
           (let s2 = snd (the (nvmeCheckNameSafety P p s1)); w3 = snd (ped_disk_delete_partition P disk p (lib s1));
                s3 = did (Deleted p) w3 s2; (rc, w4) = ped_disk_commit P disk w3
            in Some (if \<not> aesd_name (Some nm) then (NVME_STATUS_BAD_NAME,
                 say (''Detected rmpart on non-AESD partition with SAFE_MODE active.'' @ nl @
                  ''Saving you from yourself.'' @ nl) s2)
               else if rc then (NVME_STATUS_OK, did (Committed disk) w4 s3)
               else (NVME_STATUS_ERROR, s3\<lparr>lib := w4\<rparr>)))))"
  unfolding nvmeDeletePartition_def with_disk_eq [OF assms] name_check
  by (auto simp: Let_def case_prod_beta split: option.splits)

lemma delete_trace:
  assumes "nvmeDeletePartition P n s = Some (st, s')"
  shows "\<exists>new. calls s' = calls s @ new \<and> guarded C new \<and> open_balance new \<ge> 0 \<and>
    (st = NVME_STATUS_OK \<longrightarrow> open_balance new = 1)"
  using assms [unfolded nvmeDeletePartition_def] greet_calls(2)
proof (cases rule: with_disk_calls)
  case (1 dev disk s1)
  then show ?thesis using assms unfolding delete_eq [OF 1(1)] name_check
    by (auto simp: Let_def case_prod_beta split: option.splits if_splits)
next
  case (2 st' s1)
  then show ?thesis by auto
qed

lemma write_eq:
  assumes "opens P no_greeting s dev disk s1" "ped_disk_get_partition P disk (sint part) (lib s1) = Some p"
    "ped_partition_get_name P p (lib s1) = Some nm" "aesd_name (Some nm)"
  shows "nvmeWritePartitionSector P part sec buf len s =
    (case mem_read (mem s1) (fst buf) (snd buf) (nat (dev_sector_size P dev (lib s1))) of
       None \<Rightarrow> None
     | Some data \<Rightarrow>
         (let (rc, w3) = ped_geometry_write P p data 0 1 (lib s1);
              (rc', w4) = ped_geometry_sync P p w3;
              s2 = say (''writing geom '' @ dec (geom_start P p (lib s1)) @ '' '' @
                     dec (geom_length P p (lib s1)) @ '' '' @ dec (geom_end P p (lib s1)) @ nl)
                   (snd (the (nvmeCheckNameSafety P p s1)))
          in Some (if \<not> rc then (NVME_STATUS_ERROR, did (GeometryWrite p data 0 1) w3 s2)
             else (if rc' then NVME_STATUS_OK else NVME_STATUS_ERROR,
                   (did (GeometryWrite p data 0 1) w3 s2)\<lparr>lib := w4\<rparr>))))"
  unfolding nvmeWritePartitionSector_def with_disk_eq [OF assms(1)] name_check
  using assms(2-) by (auto simp: Let_def case_prod_beta split: option.splits)

lemma write_trace:
  assumes "nvmeWritePartitionSector P part sec buf len s = Some (st, s')"
  shows "\<exists>new. calls s' = calls s @ new \<and> guarded C new \<and> (st = NVME_STATUS_OK \<longrightarrow> open_balance new = 1)"
  using assms [unfolded nvmeWritePartitionSector_def] greet_calls(2)
proof (cases rule: with_disk_calls)
  case (1 dev disk s1)
  then show ?thesis unfolding name_check
    by (auto simp: Let_def case_prod_beta split: option.splits if_splits bind_splits)
next
  case (2 st' s1)
  then show ?thesis by auto
qed

lemma read_correct:
  assumes "opens P no_greeting s dev disk s1" "ped_disk_get_partition P disk (sint part) (lib s1) = Some p"
    and sector: "dev_sector_size P dev (lib s1) = int sector" "0 < sector" "sector < 2 ^ 31"
    and buf: "mem s1 a = Some bs" "off + unat len \<le> length bs" "unat len < 2 ^ 31"
    and read: "ped_geometry_read P p 0 (int (unat len div sector)) (lib s1) = (ok, data, w)"
      "length data \<le> unat len div sector * sector"
  shows "\<exists>s'. nvmeReadPartitionSector P part sec (Ptr a, off) len s =
      Some (if ok then NVME_STATUS_OK else NVME_STATUS_ERROR, s') \<and> lib s' = w \<and>
      mem s' = (mem s1)(a \<mapsto> take off bs @ data @ drop (off + length data) bs)"
proof -
  let ?sector = "of_nat sector :: u64"
  have u: "unat ?sector = sector" using sector(3) by (intro unat_of_nat_u64) simp
  then have nz: "?sector \<noteq> 0" using sector(2) by auto
  have "unat (len div ?sector) = unat len div sector" using u by (simp add: unat_div)
  moreover have "unat len div sector < 2 ^ 31" using buf(3) by (meson div_le_dividend le_less_trans)
  ultimately have "sint (int_of_size (len div ?sector)) = int (unat len div sector)"
    by (simp add: sint_small cint_simps)
  with read(1) have rd: "ped_geometry_read P p 0 (sint (int_of_size (len div ?sector))) (lib s1) = (ok, data, w)" by simp
  have "length data \<le> unat len" using read(2) by (meson div_times_less_eq_dividend le_trans)
  then have "mem_write (mem s1) (Ptr a) off data = Some ((mem s1)(a \<mapsto> take off bs @ data @ drop (off + length data) bs))"
    using buf by (intro mem_write_live) auto
  then show ?thesis
    unfolding nvmeReadPartitionSector_def with_disk_eq [OF assms(1)] assms(2) sector(1)
    by (simp add: nz rd Let_def)
qed

lemma read_trace:
  assumes "nvmeReadPartitionSector P part sec buf len s = Some (st, s')"
  shows "\<exists>new. calls s' = calls s @ new \<and> guarded C new \<and> (st = NVME_STATUS_OK \<longrightarrow> open_balance new = 1)"
  using assms [unfolded nvmeReadPartitionSector_def] greet_calls(2)
proof (cases rule: with_disk_calls)
  case (1 dev disk s1)
  then show ?thesis
    by (auto simp: Let_def case_prod_beta split: option.splits if_splits bind_splits)
next
  case (2 st' s1)
  then show ?thesis by auto
qed

lemma name_part_trace:
  assumes "nvmeCheckNameSafetyPartNumber P n s = Some (st, s')"
  shows "\<exists>new. calls s' = calls s @ new \<and> guarded C new \<and> (st = NVME_STATUS_OK \<longrightarrow> open_balance new = 1)"
  using assms [unfolded nvmeCheckNameSafetyPartNumber_def] greet_calls(2)
proof (cases rule: with_disk_calls)
  case (1 dev disk s1)
  then show ?thesis unfolding name_check by (auto split: option.splits if_splits)
next
  case (2 st' s1)
  then show ?thesis by auto
qed

lemma with_part_trace:
  assumes "with_part P n fail s k = Some r" "\<And>st s. final (fail st s) = s" "\<And>p s. calls (final (k p s)) = calls s"
  shows "\<exists>new. calls (final r) = calls s @ new \<and> guarded C new"
  using assms(1) [unfolded with_part_def] greet_calls(2)
proof (cases rule: with_disk_calls)
  case (1 dev disk s1)
  then show ?thesis using assms(2,3) by (auto split: option.splits)
next
  case (2 st' s1)
  then show ?thesis using assms(2) by auto
qed

lemma list_trace:
  assumes "nvmeListPartitions P s = Some (st, s')"
  shows "\<exists>new. calls s' = calls s @ new \<and> guarded C new \<and> (st = NVME_STATUS_OK \<longrightarrow> open_balance new = 0)"
  using assms [unfolded nvmeListPartitions_def] greet_calls(1)
proof (cases rule: with_disk_calls)
  case (1 dev disk s1)
  obtain new where "calls (list_loop P disk 1 s1) = calls s1 @ new" "guarded C new" "open_balance new = 0"
    using list_loop_trace [of P disk 1 s1 C] by blast
  moreover have "open_balance (new @ [Closed dev]) = open_balance new - 1"
    by (induction new rule: open_balance.induct) auto
  ultimately show ?thesis using 1
    by (intro exI [of _ "Opened dev # new @ [Closed dev]"]) (auto intro: guarded_append)
next
  case (2 st' s1)
  then show ?thesis by auto
qed

lemma status_loop_calls: "calls (snd (status_loop r x)) = calls (snd x) \<and> lib (snd (status_loop r x)) = lib (snd x)"
proof -
  have c: "calls (snd (fold (status_ctrl s) cs x)) = calls (snd x) \<and> lib (snd (fold (status_ctrl s) cs x)) = lib (snd x)" for s cs x
    by (induction cs arbitrary: x) (auto simp: status_ctrl_def case_prod_beta)
  have h: "calls (snd (fold (\<lambda>s. fold (status_ctrl s) (subsystem_ctrls s)) h x)) = calls (snd x) \<and>
     lib (snd (fold (\<lambda>s. fold (status_ctrl s) (subsystem_ctrls s)) h x)) = lib (snd x)" for h x
    by (induction h arbitrary: x) (auto simp: c)
  show ?thesis unfolding status_loop_def by (induction r arbitrary: x) (auto simp: h)
qed

lemma namespace_loop_calls: "calls (namespace_loop r s) = calls s"
proof -
  have c: "calls (fold (\<lambda>c. say (f c)) cs s) = calls s" for f and cs :: "nvme_ctrl list" and s :: "'w nv"
    by (induction cs arbitrary: s) auto
  have h: "calls (fold (\<lambda>s. fold (\<lambda>c. say (f c)) (subsystem_ctrls s)) h s) = calls s" for f h and s :: "'w nv"
    by (induction h arbitrary: s) (auto simp: c)
  show ?thesis unfolding namespace_loop_def by (induction r arbitrary: s) (auto simp: h)
qed

lemma status_loop_found: "fst (status_loop r x) \<longleftrightarrow> fst x \<or> (\<exists>h \<in> set r. \<exists>s \<in> set h. subsystem_ctrls s \<noteq> [])"
proof -
  have c: "fst (fold (status_ctrl s) cs x) \<longleftrightarrow> fst x \<or> cs \<noteq> []" for s cs x
    by (induction cs arbitrary: x) (auto simp: status_ctrl_def case_prod_beta)
  have h: "fst (fold (\<lambda>s. fold (status_ctrl s) (subsystem_ctrls s)) h x) \<longleftrightarrow> fst x \<or> (\<exists>s \<in> set h. subsystem_ctrls s \<noteq> [])" for h x
    by (induction h arbitrary: x) (auto simp: c)
  show ?thesis unfolding status_loop_def by (induction r arbitrary: x) (auto simp: h)
qed

lemma lba_in_bounds_ordered:
  assumes "startlba r \<le> endlba r" "glength = gend - gstart + 1" "0 < glength" "glength < 2 ^ 64"
  shows "lba_in_bounds r gstart glength gend \<longleftrightarrow> gstart + uint (endlba r) \<le> gend"
proof -
  have "uint (endlba r - startlba r) = uint (endlba r) - uint (startlba r)"
    using assms(1) by (simp add: uint_minus_simple_alt)
  moreover have "glength mod 2 ^ 64 = glength" using assms(3,4) by simp
  moreover have "uint (startlba r) \<le> uint (endlba r)" using assms(1) by (simp add: word_le_def)
  moreover have "0 \<le> uint (startlba r)" by simp
  ultimately show ?thesis using assms(2) unfolding lba_in_bounds_def Let_def by linarith
qed

lemmas example_simps = example_parted_def example_drive_def find_part_def opens_def no_greeting_def did_def Let_def

lemma example_opens: "opens example_parted no_greeting example_drive 0 0 (did (Opened 0) (lib example_drive) example_drive)"
  by (simp add: example_simps)

section \<open>No operation touches a foreign partition\<close>

lemma delete_safe: "nvmeDeletePartition P dn s = Some (st, s') \<Longrightarrow> safe_step s s'"
  using delete_trace [of P dn s st s' "{}"] by (auto simp: safe_step_def)

lemma write_safe: "nvmeWritePartitionSector P part sec buf len s = Some (st, s') \<Longrightarrow> safe_step s s'"
  using write_trace [of P part sec buf len s st s' "{}"] by (auto simp: safe_step_def)

lemma read_safe: "nvmeReadPartitionSector P part sec buf len s = Some (st, s') \<Longrightarrow> safe_step s s'"
  using read_trace [of P part sec buf len s st s' "{}"] by (auto simp: safe_step_def)

lemma create_safe: "nvmeCreatePartition P sz n s = Some (st, n', s') \<Longrightarrow> safe_step s s'"
  using create_trace [of P sz n s st n' s' "{}"] by (auto simp: safe_step_def)

lemma list_safe: "nvmeListPartitions P s = Some (st, s') \<Longrightarrow> safe_step s s'"
  using list_trace [of P s st s' "{}"] by (auto simp: safe_step_def)

lemma name_part_safe: "nvmeCheckNameSafetyPartNumber P pn s = Some (st, s') \<Longrightarrow> safe_step s s'"
  using name_part_trace [of P pn s st s' "{}"] by (auto simp: safe_step_def)

lemma lba_check_safe: "nvmeCheckLbaRangeInPart P pn lbas s = Some (st, s') \<Longrightarrow> safe_step s s'"
  unfolding nvmeCheckLbaRangeInPart_def using with_part_trace [where final = snd and C = "{}"]
  by (fastforce simp: safe_step_def)

lemma lba_start_safe: "nvmeGetStartLbaInPart P pn lba s = Some (st, lba', s') \<Longrightarrow> safe_step s s'"
  unfolding nvmeGetStartLbaInPart_def using with_part_trace [where final = "snd \<circ> snd" and C = "{}"]
  by (fastforce simp: safe_step_def)

lemma lba_end_safe: "nvmeGetEndLbaInPart P pn lba s = Some (st, lba', s') \<Longrightarrow> safe_step s s'"
  unfolding nvmeGetEndLbaInPart_def using with_part_trace [where final = "snd \<circ> snd" and C = "{}"]
  by (fastforce simp: safe_step_def)

lemma status_safe: "safe_step s (snd (nvmeGetStatus P s))"
  using status_loop_calls [of _ "(False, s\<lparr>lib := _\<rparr>)"]
  by (auto simp: nvmeGetStatus_def case_prod_beta intro!: safe_step_same split: option.splits)

lemma namespace_safe: "safe_step s (snd (nvmeListNamespace P s))"
  by (auto simp: nvmeListNamespace_def case_prod_beta namespace_loop_calls intro!: safe_step_same split: option.splits)

lemmas drive_safe = delete_safe write_safe read_safe create_safe list_safe name_part_safe
  lba_check_safe lba_start_safe lba_end_safe status_safe namespace_safe

lemma example_lookup:
  "ped_disk_get_partition example_parted 0 1 (lib example_drive) = Some 0"
  "ped_partition_get_name example_parted 0 (lib example_drive) = Some ''root''"
  "ped_disk_get_partition example_parted 0 2 (lib example_drive) = Some 1"
  "ped_partition_get_name example_parted (Suc 0) (lib example_drive) = Some ''AESD Part 2''"
  "\<not> aesd_name (Some ''root'')" "aesd_name (Some ''AESD Part 2'')"
  "ped_disk_commit example_parted disk w = (True, w)" "calls example_drive = []"
  "dev_sector_size example_parted dev w = 2" "mem example_drive = [1 \<mapsto> [7, 8, 9]]"
  "sint (1 :: cint) = 1" "sint (2 :: cint) = 2"
  "ped_file_system_type_get example_parted nm w = Some 0" "dev_length example_parted dev w = 1000"
  "ped_disk_get_partition_alignment example_parted disk w = Some 1"
  "ped_disk_get_last_partition_num example_parted 0 (lib example_drive) = 2"
  "geom_end example_parted (Suc 0) (lib example_drive) = 199"
  "fst (ped_geometry_write example_parted p data a b w)" "fst (ped_geometry_sync example_parted p w)"
  "ped_geometry_read example_parted (Suc 0) 0 1 (lib example_drive) = (True, [3, 4], lib example_drive)"
  "stdout example_drive = []" "dev_model example_parted dev w = ''disk''"
  by (simp_all add: example_simps aesd_name_def)

lemma example_greet_opens:
  "opens example_parted (print_model example_parted) example_drive 0 0
     (did (Opened 0) (lib example_drive) (print_model example_parted 0 example_drive))"
  by (simp add: example_simps print_model_def say_def)

lemma dec_three: "dec 3 = ''3''"
  by (simp add: dec_def dec_nat.simps [of 3] digit_def) code_simp

lemma example_creates:
  assumes "lib s = lib example_drive"
  shows "\<exists>s'. create_at example_parted 0 0 fs 200 249 0 s = (NVME_STATUS_OK, 3, s')"
  using assms by (simp add: create_at_def create_name_def example_simps dec_three)

section \<open>Properties\<close>

text \<open>
  C6. No operation deletes or writes a partition unless, in the same call and after any other look at
  it, the partition's name was read and starts with AESD, whatever the libraries answer.
\<close>

theorem drive_ops_guarded:
  "(nvmeDeletePartition P dn s = Some (st, s') \<longrightarrow> safe_step s s') \<and>
   (nvmeWritePartitionSector P part sec buf len s = Some (st, s') \<longrightarrow> safe_step s s') \<and>
   (nvmeReadPartitionSector P part sec buf len s = Some (st, s') \<longrightarrow> safe_step s s') \<and>
   (nvmeCreatePartition P sz n s = Some (st, n', s') \<longrightarrow> safe_step s s') \<and>
   (nvmeListPartitions P s = Some (st, s') \<longrightarrow> safe_step s s') \<and>
   (nvmeCheckNameSafetyPartNumber P pn s = Some (st, s') \<longrightarrow> safe_step s s') \<and>
   (nvmeCheckLbaRangeInPart P pn lbas s = Some (st, s') \<longrightarrow> safe_step s s') \<and>
   (nvmeGetStartLbaInPart P pn lba s = Some (st, lba', s') \<longrightarrow> safe_step s s') \<and>
   (nvmeGetEndLbaInPart P pn lba s = Some (st, lba', s') \<longrightarrow> safe_step s s') \<and>
   safe_step s (snd (nvmeGetStatus P s)) \<and> safe_step s (snd (nvmeListNamespace P s))"
  by (intro conjI impI) (erule drive_safe | rule drive_safe)+

theorem drive_ops_guarded_witness:
  "\<exists>s'. nvmeDeletePartition example_parted 2 example_drive = Some (NVME_STATUS_OK, s') \<and>
     calls s' = [Opened 0, Named 1 (Some ''AESD Part 2''), Deleted 1, Committed 0] \<and>
     safe_step example_drive s'"
proof -
  obtain s' where s': "nvmeDeletePartition example_parted 2 example_drive = Some (NVME_STATUS_OK, s')"
    "calls s' = [Opened 0, Named 1 (Some ''AESD Part 2''), Deleted 1, Committed 0]"
    by (auto simp: delete_eq [OF example_opens] name_check example_lookup Let_def)
  with drive_ops_guarded [of example_parted 2 example_drive NVME_STATUS_OK s'] show ?thesis by blast
qed

text \<open>
  C30. Deleting: a number without partition is refused, a partition without a name faults, a name that
  does not start with AESD is refused and leaves the disk alone. Otherwise the partition is deleted
  and the disk committed, and the status is OK exactly when the commit succeeded: a deletion that
  failed is reported as success.
\<close>

theorem nvmeDeletePartition_outcome:
  assumes "opens P no_greeting s dev disk s1"
  shows "case ped_disk_get_partition P disk (sint n) (lib s1) of
      None \<Rightarrow> nvmeDeletePartition P n s = Some (NVME_STATUS_INPUT, s1)
    | Some p \<Rightarrow> (case ped_partition_get_name P p (lib s1) of
        None \<Rightarrow> nvmeDeletePartition P n s = None
      | Some nm \<Rightarrow> \<exists>st s'. nvmeDeletePartition P n s = Some (st, s') \<and>
          (if take 4 nm = ''AESD'' then
             lib s' = snd (ped_disk_commit P disk (snd (ped_disk_delete_partition P disk p (lib s1)))) \<and>
             (st = NVME_STATUS_OK \<longleftrightarrow> fst (ped_disk_commit P disk (snd (ped_disk_delete_partition P disk p (lib s1)))))
           else st = NVME_STATUS_BAD_NAME \<and> lib s' = lib s1))"
proof (cases "ped_disk_get_partition P disk (sint n) (lib s1)")
  case (Some p)
  show ?thesis
  proof (cases "ped_partition_get_name P p (lib s1)")
    case (Some nm)
    with \<open>ped_disk_get_partition P disk (sint n) (lib s1) = Some p\<close> show ?thesis
      by (cases "take 4 nm = ''AESD''")
        (auto simp: delete_eq [OF assms] name_check aesd_name_def Let_def case_prod_beta)
  qed (use Some in \<open>simp add: delete_eq [OF assms]\<close>)
qed (simp add: delete_eq [OF assms])

theorem nvmeDeletePartition_outcome_witness:
  "\<exists>st s'. nvmeDeletePartition example_parted 1 example_drive = Some (st, s') \<and>
     st = NVME_STATUS_BAD_NAME \<and> lib s' = lib example_drive"
  using nvmeDeletePartition_outcome [OF example_opens, of 1] by (simp add: example_lookup)

text \<open>
  C31. The geometry a creation requests of \<open>libparted\<close> starts right behind the last partition, has
  exactly the requested number of sectors and lies inside the device; a request is refused as bad
  input only if it does not fit there. The partition that is added, named \<open>AESD Part\<close> with the
  number it was given, and committed is the one made with that geometry; it is added under the
  device's optimal alignment constraint, by which \<open>libparted\<close> may still move its ends. A
  creation that fails stops after some of these calls and reports no number.
\<close>

theorem nvmeCreatePartition_placement:
  assumes "opens P (print_model P) s dev disk s1" "nvmeCreatePartition P sz n s = Some (st, n', s')"
    and "ped_disk_get_partition P disk (ped_disk_get_last_partition_num P disk (lib s1)) (lib s1) = Some p"
    and a: "a = geom_end P p (lib s1) + 1" and b: "b = geom_end P p (lib s1) + uint sz"
  shows "\<exists>q num k. calls s' = calls s1 @
      take k [PartitionNew q a b, Added disk q, NameSet q (''AESD Part '' @ dec num), Committed disk] \<and>
    (0 < k \<longrightarrow> b < dev_length P dev (lib s1)) \<and>
    (st = NVME_STATUS_INPUT \<longrightarrow> k = 0 \<and> dev_length P dev (lib s1) \<le> b) \<and>
    (st \<noteq> NVME_STATUS_OK \<longrightarrow> n' = n) \<and>
    (st = NVME_STATUS_OK \<longrightarrow> k = 4 \<and> n' = word_of_int (part_num P q (lib s')) \<and>
       length (''AESD Part '' @ dec num) < 16 \<and>
       (\<exists>fs w c w1 w2. ped_partition_new P disk fs a b (lib s1) = (Some q, w) \<and>
          ped_device_get_optimal_aligned_constraint P dev w = (c, w1) \<and>
          ped_disk_add_partition P disk q c w1 = (True, w2) \<and> num = part_num P q w2))"
  using create_cases [OF assms(2,1)] unfolding assms(3) option.sel
proof (elim disjE conjE exE)
  fix fs s2
  assume c: "calls s2 = calls s1" "lib s2 = lib s1" 
      "create_at P dev disk fs (geom_end P p (lib s1) + 1) (geom_end P p (lib s1) + 1 + uint sz - 1) n s2 = (st, n', s')"
    and "geom_end P p (lib s1) + 1 + uint sz \<le> dev_length P dev (lib s1)"
  then have fits: "b < dev_length P dev (lib s1)" and at: "create_at P dev disk fs a b n s2 = (st, n', s')"
    using a b by auto
  from create_at_trace [OF at, unfolded c(1,2)] obtain q num k where
    "calls s' = calls s1 @ take k (create_calls disk q a b num)" "st \<noteq> NVME_STATUS_INPUT"
    "st \<noteq> NVME_STATUS_OK \<longrightarrow> n' = n"
    "st = NVME_STATUS_OK \<longrightarrow> k = 4 \<and> n' = word_of_int (part_num P q (lib s')) \<and> length (dec num) < 6 \<and>
       (\<exists>fs w c w1 w2. ped_partition_new P disk fs a b (lib s1) = (Some q, w) \<and>
          ped_device_get_optimal_aligned_constraint P dev w = (c, w1) \<and>
          ped_disk_add_partition P disk q c w1 = (True, w2) \<and> num = part_num P q w2)" by blast
  with fits show ?thesis by - (rule exI [of _ q], rule exI [of _ num], rule exI [of _ k], simp)
qed (use b in \<open>intro exI [of _ 0]; auto\<close>)+

theorem nvmeCreatePartition_placement_witness:
  "\<exists>s'. nvmeCreatePartition example_parted 50 0 example_drive = Some (NVME_STATUS_OK, 3, s') \<and>
     calls s' = [Opened 0, PartitionNew 2 200 249, Added 0 2, NameSet 2 ''AESD Part 3'', Committed 0]"
proof -
  let ?s1 = "did (Opened 0) (lib example_drive) (print_model example_parted 0 example_drive)"
  have last: "ped_disk_get_partition example_parted 0
      (ped_disk_get_last_partition_num example_parted 0 (lib ?s1)) (lib ?s1) = Some (Suc 0)"
    "geom_end example_parted (Suc 0) (lib ?s1) = 199" "calls ?s1 = [Opened 0]"
    by (simp_all add: example_lookup)
  have "\<exists>s'. nvmeCreatePartition example_parted 50 0 example_drive = Some (NVME_STATUS_OK, 3, s')"
    unfolding nvmeCreatePartition_def with_disk_eq [OF example_greet_opens]
    by (simp add: example_lookup example_creates Let_def)
  then obtain s' where c: "nvmeCreatePartition example_parted 50 0 example_drive = Some (NVME_STATUS_OK, 3, s')" ..
  from nvmeCreatePartition_placement [OF example_greet_opens c last(1) refl refl]
  obtain q num fs w c w1 w2 where new: "calls s' = [Opened 0] @ create_calls 0 q 200 249 num"
    "ped_partition_new example_parted 0 fs 200 249 (lib example_drive) = (Some q, w)"
    "ped_device_get_optimal_aligned_constraint example_parted 0 w = (c, w1)"
    "ped_disk_add_partition example_parted 0 q c w1 = (True, w2)" "num = part_num example_parted q w2"
    unfolding last(2,3) by auto
  have "q = 2" "num = 3" using new(2-5) by (auto simp: example_simps)
  with c new(1) show ?thesis by (simp add: dec_three)
qed

text \<open>
  C34. A write on a partition of this program puts one sector at the start of the partition, whatever
  sector and length were asked for: the bytes written are a full sector from the buffer on, and a
  buffer with less than a sector left is overrun.
\<close>

theorem nvmeWritePartitionSector_effect:
  assumes "opens P no_greeting s dev disk s1" "ped_disk_get_partition P disk (sint part) (lib s1) = Some p"
    and "ped_partition_get_name P p (lib s1) = Some nm" "take 4 nm = ''AESD''"
  shows "case mem_read (mem s1) (fst buf) (snd buf) (nat (dev_sector_size P dev (lib s1))) of
      None \<Rightarrow> nvmeWritePartitionSector P part sec buf len s = None
    | Some data \<Rightarrow> \<exists>st s'. nvmeWritePartitionSector P part sec buf len s = Some (st, s') \<and>
        calls s' = calls s1 @ [Named p (Some nm), GeometryWrite p data 0 1] \<and> mem s' = mem s1 \<and>
        (st = NVME_STATUS_OK \<longleftrightarrow> fst (ped_geometry_write P p data 0 1 (lib s1)) \<and>
           fst (ped_geometry_sync P p (snd (ped_geometry_write P p data 0 1 (lib s1)))))"
  using assms(3,4) write_eq [OF assms(1-3), of sec buf len]
  by (auto simp: aesd_name_def name_check Let_def case_prod_beta split: option.splits)

theorem nvmeWritePartitionSector_effect_witness:
  "nvmeWritePartitionSector example_parted 2 5 (Ptr 1, 2) 1 example_drive = None \<and>
   (\<exists>s'. nvmeWritePartitionSector example_parted 2 5 (Ptr 1, 0) 1 example_drive = Some (NVME_STATUS_OK, s') \<and>
     calls s' = [Opened 0, Named 1 (Some ''AESD Part 2''), GeometryWrite 1 [7, 8] 0 1])"
  using nvmeWritePartitionSector_effect [OF example_opens, where part = 2 and p = "Suc 0"
      and nm = "''AESD Part 2''" and buf = "(Ptr 1, 2)" and sec = 5 and len = 1]
    nvmeWritePartitionSector_effect [OF example_opens, where part = 2 and p = "Suc 0"
      and nm = "''AESD Part 2''" and buf = "(Ptr 1, 0)" and sec = 5 and len = 1]
  by (auto simp: example_lookup mem_read_def)

text \<open>
  C32. A read whose buffer holds the length asked for never overruns it when the library stores at most
  the whole sectors requested; the bytes land at the start of the buffer, nothing else changes.
\<close>

theorem nvmeReadPartitionSector_bounds:
  assumes "opens P no_greeting s dev disk s1" "ped_disk_get_partition P disk (sint part) (lib s1) = Some p"
    and sector: "dev_sector_size P dev (lib s1) = int sector" "0 < sector" "sector < 2 ^ 31"
    and buf: "mem s1 a = Some bs" "off + unat len \<le> length bs" "unat len < 2 ^ 31"
    and read: "ped_geometry_read P p 0 (int (unat len div sector)) (lib s1) = (ok, data, w)"
      "length data \<le> unat len div sector * sector"
  shows "\<exists>s'. nvmeReadPartitionSector P part sec (Ptr a, off) len s =
      Some (if ok then NVME_STATUS_OK else NVME_STATUS_ERROR, s') \<and> lib s' = w \<and>
      mem s' = (mem s1)(a \<mapsto> take off bs @ data @ drop (off + length data) bs)"
  using read_correct [OF assms] .

theorem nvmeReadPartitionSector_bounds_witness:
  "\<exists>s'. nvmeReadPartitionSector example_parted 2 5 (Ptr 1, 0) 3 example_drive = Some (NVME_STATUS_OK, s') \<and>
     mem s' = [1 \<mapsto> [3, 4, 9]]"
  using nvmeReadPartitionSector_bounds [OF example_opens, of 2 "Suc 0" 2 1 "[7, 8, 9]" 0 3 True "[3, 4]" "lib example_drive" 5]
  by (simp add: example_lookup) (metis fun_upd_upd)

text \<open>
  The listing describes the existing partitions with numbers 1 to 15, in order, and no others.
\<close>

lemma nvmeListPartitions_text:
  assumes "opens P (print_model P) s dev disk s1"
  shows "\<exists>s'. nvmeListPartitions P s = Some (NVME_STATUS_OK, s') \<and>
    stdout s' = stdout s1 @ concat (map (\<lambda>n. case ped_disk_get_partition P disk n (lib s1) of
        None \<Rightarrow> [] | Some p \<Rightarrow> partition_info P n p (lib s1)) [1..15])"
  unfolding nvmeListPartitions_def with_disk_eq [OF assms] using list_loop_stdout [of P disk 1 s1] by simp

text \<open>
  The status succeeds exactly when the scan finds a controller; the namespace listing never
  succeeds, since nothing sets its flag.
\<close>

lemma status_and_namespaces:
  "(fst (nvmeGetStatus P s) = NVME_STATUS_OK \<longleftrightarrow>
      (\<exists>r w. nvme_scan P (lib s) = (Some r, w) \<and> (\<exists>h \<in> set r. \<exists>sub \<in> set h. subsystem_ctrls sub \<noteq> []))) \<and>
   fst (nvmeListNamespace P s) \<noteq> NVME_STATUS_OK"
proof -
  obtain q w where "nvme_scan P (lib s) = (q, w)" by fastforce
  then show ?thesis using status_loop_found [of "the q" "(False, s\<lparr>lib := w\<rparr>)"]
    by (cases q) (auto simp: nvmeGetStatus_def nvmeListNamespace_def case_prod_beta)
qed

text \<open>
  C35. Every successful operation on a partition leaves one more device open than it closed; only the
  listing closes what it opens.
\<close>

theorem drive_ops_leak_devices:
  "(nvmeDeletePartition P dn s = Some (NVME_STATUS_OK, s') \<or>
    nvmeWritePartitionSector P part sec buf len s = Some (NVME_STATUS_OK, s') \<or>
    nvmeReadPartitionSector P part sec buf len s = Some (NVME_STATUS_OK, s') \<or>
    nvmeCreatePartition P sz n s = Some (NVME_STATUS_OK, n', s') \<or>
    nvmeCheckNameSafetyPartNumber P pn s = Some (NVME_STATUS_OK, s') \<longrightarrow>
      (\<exists>new. calls s' = calls s @ new \<and> open_balance new = 1)) \<and>
   (nvmeListPartitions P s = Some (NVME_STATUS_OK, s') \<longrightarrow>
      (\<exists>new. calls s' = calls s @ new \<and> open_balance new = 0))"
  using delete_trace write_trace read_trace create_trace name_part_trace list_trace by (metis (full_types))

text \<open>
  C33. For an ordered range and a partition with consistent geometry the range check succeeds exactly
  when the last block lies in the partition.
\<close>

theorem lba_range_check:
  assumes "opens P no_greeting s dev disk s1" "ped_disk_get_partition P disk (uint part) (lib s1) = Some p"
    and "startlba lbas \<le> endlba lbas"
    and "geom_length P p (lib s1) = geom_end P p (lib s1) - geom_start P p (lib s1) + 1"
    and "0 < geom_length P p (lib s1)" "geom_length P p (lib s1) < 2 ^ 63"
  shows "nvmeCheckLbaRangeInPart P part lbas s =
    Some (if geom_start P p (lib s1) + uint (endlba lbas) \<le> geom_end P p (lib s1)
          then NVME_STATUS_OK else NVME_STATUS_ERROR, s1)"
  unfolding nvmeCheckLbaRangeInPart_def with_part_def with_disk_eq [OF assms(1)]
  using lba_in_bounds_ordered [OF assms(3-5)] assms(2,6) by simp

theorem drive_ops_leak_devices_witness:
  "\<exists>s'. nvmeDeletePartition example_parted 2 example_drive = Some (NVME_STATUS_OK, s') \<and>
     (\<exists>new. calls s' = calls example_drive @ new \<and> open_balance new = 1)"
proof -
  obtain s' where s': "nvmeDeletePartition example_parted 2 example_drive = Some (NVME_STATUS_OK, s')"
    by (auto simp: delete_eq [OF example_opens] name_check example_lookup Let_def)
  moreover from s' have "\<exists>new. calls s' = calls example_drive @ new \<and> open_balance new = 1"
    by (intro mp [OF conjunct1 [OF drive_ops_leak_devices]] disjI1)
  ultimately show ?thesis by blast
qed

theorem lba_range_check_witness:
  "(\<exists>s'. nvmeCheckLbaRangeInPart example_parted 2 \<lparr>startlba = 3, endlba = 99\<rparr> example_drive = Some (NVME_STATUS_OK, s')) \<and>
   (\<exists>s'. nvmeCheckLbaRangeInPart example_parted 2 \<lparr>startlba = 3, endlba = 100\<rparr> example_drive = Some (NVME_STATUS_ERROR, s'))"
proof -
  have "geom_start example_parted (Suc 0) (lib example_drive) = 100" "geom_length example_parted (Suc 0) (lib example_drive) = 100"
    by (simp_all add: example_simps)
  then show ?thesis
    using lba_range_check [OF example_opens, of 2 "Suc 0" "\<lparr>startlba = 3, endlba = 99\<rparr>"]
      lba_range_check [OF example_opens, of 2 "Suc 0" "\<lparr>startlba = 3, endlba = 100\<rparr>"]
    by (simp add: example_lookup)
qed

end
