(* ===== verification/ServerText.thy ===== *)
theory ServerText
  imports NvmeInterface
begin

text \<open>
  The text handling of the command server \<open>server/aesdsocket.c\<close>: splitting a received message
  into words with \<open>strtok_r\<close>, converting a word to a number with \<open>atoi\<close>, the formatted
  reply and the hex dump of \<open>hexDump\<close>.

  A buffer is the list of its bytes, a position in it an index; running past the end of the
  buffer is undefined, \<open>None\<close>.
\<close>

section \<open>Bytes and text\<close>

definition chr :: "byte \<Rightarrow> char" where
  "chr b = char_of (unat b)"

definition text_of :: "byte list \<Rightarrow> string" where
  "text_of bs = map chr bs"

definition bytes_of_text :: "string \<Rightarrow> byte list" where
  "bytes_of_text s = map of_char s"

text \<open>The characters of a string in a buffer, up to its terminating zero.\<close>

definition cstring :: "byte list \<Rightarrow> nat \<Rightarrow> byte list" where
  "cstring bs i = takeWhile (\<lambda>b. b \<noteq> 0) (drop i bs)"

section \<open>Splitting a message\<close>

text \<open>The delimiters: space, tab, carriage return and newline.\<close>

definition is_delim :: "byte \<Rightarrow> bool" where
  "is_delim b \<longleftrightarrow> b \<in> {32, 9, 13, 10}"

text \<open>The first position from \<open>i\<close> on whose byte does not satisfy \<open>f\<close>.\<close>

function scan :: "(byte \<Rightarrow> bool) \<Rightarrow> byte list \<Rightarrow> nat \<Rightarrow> nat option" where
  "scan f bs i = (if i < length bs then (if f (bs ! i) then scan f bs (i + 1) else Some i) else None)"
  by pat_completeness auto
termination
  by (relation "measure (\<lambda>(_, bs, i). length bs - i)") auto

declare scan.simps [simp del]

text \<open>
  \<open>strtok_r\<close> from position \<open>i\<close>: the start of the next word, if there is one, the buffer with
  the delimiter behind the word overwritten, and the position to go on from.
\<close>

definition strtok_r :: "byte list \<Rightarrow> nat \<Rightarrow> (nat option \<times> byte list \<times> nat) option" where
  "strtok_r bs i = do {
     s \<leftarrow> scan is_delim bs i;
     if bs ! s = 0 then Some (None, bs, s)
     else do {
       e \<leftarrow> scan (\<lambda>b. b \<noteq> 0 \<and> \<not> is_delim b) bs s;
       Some (if bs ! e = 0 then (Some s, bs, e) else (Some s, bs[e := 0], e + 1))
     }
   }"

text \<open>The words of a command line: the command, three arguments and \<open>extra\<close>.\<close>

record tokens =
  tcmd :: "nat option"
  targ1 :: "nat option"
  targ2 :: "nat option"
  targ3 :: "nat option"
  textra :: "nat option"

definition tokenize :: "byte list \<Rightarrow> (tokens \<times> byte list) option" where
  "tokenize bs = do {
     (c, bs1, i1) \<leftarrow> strtok_r bs 0;
     (a1, bs2, i2) \<leftarrow> strtok_r bs1 i1;
     (a2, bs3, i3) \<leftarrow> strtok_r bs2 i2;
     (a3, bs4, i4) \<leftarrow> strtok_r bs3 i3;
     (ex, bs5, i5) \<leftarrow> strtok_r bs4 i4;
     Some (\<lparr>tcmd = c, targ1 = a1, targ2 = a2, targ3 = a3, textra = ex\<rparr>, bs5)
   }"

section \<open>Numbers\<close>

definition is_space :: "byte \<Rightarrow> bool" where
  "is_space b \<longleftrightarrow> b = 32 \<or> 9 \<le> b \<and> b \<le> 13"

definition is_digit :: "byte \<Rightarrow> bool" where
  "is_digit b \<longleftrightarrow> 48 \<le> b \<and> b \<le> 57"

definition digits_value :: "byte list \<Rightarrow> int" where
  "digits_value ds = foldl (\<lambda>v d. 10 * v + (uint d - 48)) 0 ds"

text \<open>\<open>strtol\<close> in base 10: the value is cut to the range of \<open>long\<close>.\<close>

definition strtol :: "byte list \<Rightarrow> int" where
  "strtol bs =
     (let t = dropWhile is_space bs;
          (neg, u) = (case t of [] \<Rightarrow> (False, []) | b # r \<Rightarrow>
             if b = 45 then (True, r) else if b = 43 then (False, r) else (False, t));
          v = digits_value (takeWhile is_digit u);
          w = (if neg then - v else v)
      in max (- (2 ^ 63)) (min (2 ^ 63 - 1) w))"

text \<open>\<open>atoi\<close> keeps the low 32 bits.\<close>

definition atoi :: "byte list \<Rightarrow> cint" where
  "atoi bs = word_of_int (strtol bs)"

section \<open>Replies\<close>

text \<open>
  \<open>sendOnSocketf\<close> formats into a buffer of 1024 bytes and sends what is in it; the result is the value
  returned and the bytes the socket took, none for a negative descriptor or a failing \<open>send\<close>.
\<close>

definition socket_text :: "string \<Rightarrow> string" where
  "socket_text formatted = takeWhile (\<lambda>c. c \<noteq> CHR 0x00) (take 1023 formatted)"

definition sendOnSocketf :: "int \<Rightarrow> bool \<Rightarrow> string \<Rightarrow> int \<times> string" where
  "sendOnSocketf sockfd send_ok formatted =
     (if sockfd < 0 then (- 1, [])
      else (let buffer = socket_text formatted
            in if \<not> send_ok then (- 1, []) else (0, buffer)))"

section \<open>The hex dump\<close>

definition hex_digit :: "bool \<Rightarrow> nat \<Rightarrow> char" where
  "hex_digit upper n = char_of (if n < 10 then 48 + n else (if upper then 55 else 87) + n)"

text \<open>\<open>%08zx\<close> and \<open>%02X\<close>.\<close>

fun hex_nat :: "nat \<Rightarrow> string" where
  "hex_nat n = (if n < 16 then [hex_digit False n] else hex_nat (n div 16) @ [hex_digit False (n mod 16)])"

declare hex_nat.simps [simp del]

definition hex8 :: "nat \<Rightarrow> string" where
  "hex8 n = replicate (8 - length (hex_nat n)) (CHR ''0'') @ hex_nat n"

definition hex2 :: "byte \<Rightarrow> string" where
  "hex2 b = [hex_digit True (unat b div 16), hex_digit True (unat b mod 16)]"

definition isprint :: "byte \<Rightarrow> bool" where
  "isprint b \<longleftrightarrow> 32 \<le> b \<and> b < 127"

text \<open>Column \<open>j\<close> of the line that starts at byte \<open>i\<close>, and the whole line.\<close>

definition hex_column :: "byte list \<Rightarrow> nat \<Rightarrow> nat \<Rightarrow> string" where
  "hex_column buf i j =
     (if i + j < length buf then hex2 (buf ! (i + j)) @ '' '' else ''   '') @
     (if j = 7 then '' '' else [])"

definition hex_line :: "byte list \<Rightarrow> nat \<Rightarrow> string" where
  "hex_line buf i =
     hex8 i @ ''  '' @ concat (map (hex_column buf i) [0..<16]) @ '' |'' @
     map (\<lambda>b. if isprint b then chr b else CHR ''.'') (take 16 (drop i buf)) @ ''|'' @ nl"

function hexDump_from :: "byte list \<Rightarrow> nat \<Rightarrow> string" where
  "hexDump_from buf i = (if i < length buf then hex_line buf i @ hexDump_from buf (i + 16) else [])"
  by pat_completeness auto
termination
  by (relation "measure (\<lambda>(buf, i). length buf - i)") auto

declare hexDump_from.simps [simp del]

definition hexDump :: "byte list option \<Rightarrow> string" where
  "hexDump data = (case data of None \<Rightarrow> ''(null)'' @ nl | Some buf \<Rightarrow> hexDump_from buf 0)"

section \<open>Specification notions\<close>

text \<open>
  The words of a message: the maximal pieces without a delimiter.
\<close>

function words :: "byte list \<Rightarrow> byte list list" where
  "words bs = (let t = dropWhile is_delim bs in
     if t = [] then [] else takeWhile (\<lambda>b. \<not> is_delim b) t # words (dropWhile (\<lambda>b. \<not> is_delim b) t))"
  by pat_completeness auto
termination
proof (relation "measure length")
  fix bs :: "byte list" and t assume t: "t = dropWhile is_delim bs" "t \<noteq> []"
  then have "\<not> is_delim (hd t)" using hd_dropWhile [of is_delim bs] by simp
  with t(2) have "length (dropWhile (\<lambda>b. \<not> is_delim b) t) < length t" by (cases t) (auto simp: le_imp_less_Suc length_dropWhile_le)
  also have "\<dots> \<le> length bs" using t by (simp add: length_dropWhile_le)
  finally show "(dropWhile (\<lambda>b. \<not> is_delim b) t, bs) \<in> measure length" by simp
qed simp

text \<open>
  A number of calls of \<open>strtok_r\<close>, one after the other.
\<close>

fun strtok_seq :: "nat \<Rightarrow> byte list \<Rightarrow> nat \<Rightarrow> (nat option list \<times> byte list) option" where
  "strtok_seq 0 bs i = Some ([], bs)"
| "strtok_seq (Suc n) bs i = do {
     (t, bs', i') \<leftarrow> strtok_r bs i;
     (ts, bs'') \<leftarrow> strtok_seq n bs' i';
     Some (t # ts, bs'')
   }"

text \<open>
  A later call leaves what is before its start, and every zero, as it was; \<open>word_at\<close> is a
  terminated word in the buffer.
\<close>

definition keeps :: "byte list \<Rightarrow> byte list \<Rightarrow> nat \<Rightarrow> bool" where
  "keeps bs bs' i \<longleftrightarrow> length bs' = length bs \<and> (\<forall>j < i. bs' ! j = bs ! j) \<and>
     (\<forall>j < length bs. bs ! j = 0 \<longrightarrow> bs' ! j = 0)"

definition word_at :: "byte list \<Rightarrow> nat \<Rightarrow> byte list \<Rightarrow> bool" where
  "word_at bs s w \<longleftrightarrow> s + length w < length bs \<and> take (length w) (drop s bs) = w \<and> bs ! (s + length w) = 0 \<and> 0 \<notin> set w"

text \<open>
  The five words in order.
\<close>

definition token_list :: "tokens \<Rightarrow> nat option list" where
  "token_list tk = [tcmd tk, targ1 tk, targ2 tk, targ3 tk, textra tk]"

text \<open>
  Reading a dump back: the byte two hexadecimal digits stand for, the column of a byte in its line,
  and the bytes of a dump given as its lines.
\<close>

fun unhex2 :: "string \<Rightarrow> byte" where
  "unhex2 (a # b # t) = (let v = (\<lambda>c. if of_char c < (58 :: nat) then of_char c - 48 else of_char c - 55) in of_nat (16 * v a + v b))"
| "unhex2 t = 0"

definition hex_column_start :: "nat \<Rightarrow> nat" where
  "hex_column_start j = 10 + 3 * j + (if 7 < j then 1 else 0)"

definition undump :: "string list \<Rightarrow> nat \<Rightarrow> byte list" where
  "undump ls n = map (\<lambda>m. unhex2 (take 2 (drop (hex_column_start (m mod 16)) (ls ! (m div 16))))) [0..<n]"

definition hexDump_lines :: "byte list \<Rightarrow> string list" where
  "hexDump_lines buf = map (\<lambda>k. hex_line buf (16 * k)) [0..<(length buf + 15) div 16]"

declare words.simps [simp del]

section \<open>Splitting\<close>

lemma scan_over:
  assumes "\<forall>b \<in> set xs. f b" "\<not> f y"
  shows "scan f (pre @ xs @ y # ys) (length pre) = Some (length pre + length xs)"
  using assms
proof (induction xs arbitrary: pre)
  case Nil
  then show ?case by (subst scan.simps) simp
next
  case (Cons x xs)
  from Cons.IH [of "pre @ [x]"] Cons.prems show ?case by (subst scan.simps) simp
qed

lemma words_delims: "\<forall>b \<in> set d. is_delim b \<Longrightarrow> words (d @ bs) = words bs"
  by (subst (1 2) words.simps) (simp add: dropWhile_append2)

lemma words_split:
  assumes "words R = w # ws"
  obtains d u where "R = d @ w @ u" "\<forall>b \<in> set d. is_delim b" "\<forall>b \<in> set w. \<not> is_delim b" "w \<noteq> []"
    "u = [] \<or> is_delim (hd u)" "words u = ws"
proof -
  let ?d = "takeWhile is_delim R" and ?t = "dropWhile is_delim R"
  let ?u = "dropWhile (\<lambda>b. \<not> is_delim b) ?t"
  have t: "?t \<noteq> []" "w = takeWhile (\<lambda>b. \<not> is_delim b) ?t" "ws = words ?u"
    using assms by (subst (asm) words.simps; simp add: Let_def split: if_splits)+
  then have "\<not> is_delim (hd ?t)" using hd_dropWhile by blast
  then have "w \<noteq> []" using t by (cases ?t) auto
  moreover have "R = ?d @ w @ ?u" by (simp add: t(2))
  moreover have "?u = [] \<or> is_delim (hd ?u)" using hd_dropWhile [of "\<lambda>b. \<not> is_delim b" ?t] by auto
  moreover have "\<forall>b \<in> set ?d. is_delim b" "\<forall>b \<in> set w. \<not> is_delim b" using t(2) by (auto dest: set_takeWhileD)
  ultimately show ?thesis using that t(3) by blast
qed

lemma words_Nil: "words R = [] \<Longrightarrow> \<forall>b \<in> set R. is_delim b"
  by (subst (asm) words.simps) (auto simp: Let_def split: if_splits)

lemma not_delim_0 [simp]: "\<not> is_delim 0"
  by (simp add: is_delim_def)

lemma strtok_none:
  assumes "words R = []"
  shows "strtok_r (pre @ R @ 0 # rest) (length pre) = Some (None, pre @ R @ 0 # rest, length (pre @ R))"
  using words_Nil [OF assms] by (simp add: strtok_r_def scan_over nth_append)

lemma word_atI: "0 \<notin> set w \<Longrightarrow> word_at (pre @ w @ 0 # rest) (length pre) w"
  by (simp add: word_at_def nth_append)

lemma strtok_word:
  assumes bs: "bs = pre @ d @ w @ x # v" and d: "\<forall>b \<in> set d. is_delim b"
    and w: "\<forall>b \<in> set w. b \<noteq> 0 \<and> \<not> is_delim b" "w \<noteq> []" and x: "x = 0 \<or> is_delim x"
  shows "strtok_r bs (length pre) = Some (Some (length (pre @ d)),
    if x = 0 then (bs, length (pre @ d @ w)) else (pre @ d @ w @ 0 # v, length (pre @ d @ w @ [0])))"
proof -
  obtain c w' where c: "w = c # w'" using w(2) by (cases w) auto
  have "scan is_delim bs (length pre) = Some (length (pre @ d))"
    using scan_over [of d is_delim c pre "w' @ x # v"] bs d w(1) c by simp
  moreover have "bs ! length (pre @ d) \<noteq> 0" using bs c w(1) by (simp add: nth_append)
  moreover have "scan (\<lambda>b. b \<noteq> 0 \<and> \<not> is_delim b) bs (length (pre @ d)) = Some (length (pre @ d @ w))"
    using scan_over [OF w(1), of x "pre @ d" v] bs x by auto
  moreover have "bs ! length (pre @ d @ w) = x" using bs by (simp add: nth_append)
  moreover have "bs[length (pre @ d @ w) := 0] = pre @ d @ w @ 0 # v" using bs by (simp add: list_update_append)
  ultimately show ?thesis by (simp add: strtok_r_def)
qed

lemma strtok_some:
  assumes bs: "bs = pre @ R @ 0 # rest" "0 \<notin> set R" and w: "words R = w # ws"
  shows "\<exists>s bs' pre' R'. strtok_r bs (length pre) = Some (Some s, bs', length pre') \<and>
    bs' = pre' @ R' @ 0 # rest \<and> 0 \<notin> set R' \<and> words R' = ws \<and> word_at bs' s w \<and> s + length w \<le> length pre' \<and>
    keeps bs bs' (length pre) \<and> length pre \<le> length pre'"
proof -
  from words_split [OF w] obtain d u where u: "R = d @ w @ u" "\<forall>b \<in> set d. is_delim b" "\<forall>b \<in> set w. \<not> is_delim b"
    "w \<noteq> []" "u = [] \<or> is_delim (hd u)" "words u = ws" .
  have w0: "\<forall>b \<in> set w. b \<noteq> 0 \<and> \<not> is_delim b" "0 \<notin> set w" using u(1,3) bs(2) by auto
  show ?thesis
  proof (cases u)
    case Nil
    have bs1: "bs = pre @ d @ w @ 0 # rest" using bs(1) u(1) Nil by simp
    moreover have "words [] = ws" using u(6) Nil by simp
    ultimately show ?thesis using strtok_word [OF bs1 u(2) w0(1) u(4)] word_atI [OF w0(2), of "pre @ d" rest]
      by (intro exI [of _ "length (pre @ d)"] exI [of _ bs] exI [of _ "pre @ d @ w"] exI [of _ "[]"]) (simp add: keeps_def)
  next
    case (Cons x u')
    then have x: "is_delim x" "x \<noteq> 0" using u(5) by auto
    let ?bs = "pre @ d @ w @ 0 # u' @ 0 # rest"
    have bs1: "bs = pre @ d @ w @ x # u' @ 0 # rest" using bs(1) u(1) Cons by simp
    have "strtok_r bs (length pre) = Some (Some (length (pre @ d)), ?bs, length (pre @ d @ w @ [0]))"
      using strtok_word [OF bs1 u(2) w0(1) u(4)] x by simp
    moreover have "word_at ?bs (length (pre @ d)) w" using word_atI [OF w0(2), of "pre @ d" "u' @ 0 # rest"] by simp
    moreover have "words u' = ws" using u(6) Cons words_delims [of "[x]" u'] x by simp
    moreover have "keeps bs ?bs (length pre)" unfolding bs1 keeps_def by (simp add: nth_append nth_Cons')
    moreover have "0 \<notin> set u'" using bs(2) u(1) Cons by simp
    ultimately show ?thesis
      by (intro exI [of _ "length (pre @ d)"] exI [of _ ?bs] exI [of _ "pre @ d @ w @ [0]"] exI [of _ u']) simp
  qed
qed

lemma word_at_keeps:
  assumes "word_at bs s w" "s + length w \<le> i" "keeps bs bs' i"
  shows "word_at bs' s w"
proof -
  have "take (length w) (drop s bs') = take (length w) (drop s bs)"
    using assms by (intro nth_equalityI) (auto simp: keeps_def)
  then show ?thesis using assms by (auto simp: word_at_def keeps_def)
qed

lemma word_at_cstring: "word_at bs s w \<Longrightarrow> cstring bs s = w"
proof -
  assume w: "word_at bs s w"
  then have "drop s bs = w @ drop (s + length w) bs"
    by (metis add.commute append_take_drop_id drop_drop word_at_def)
  moreover have "drop (s + length w) bs = 0 # drop (Suc (s + length w)) bs"
    using w by (metis Cons_nth_drop_Suc word_at_def)
  ultimately have "drop s bs = w @ 0 # drop (Suc (s + length w)) bs" by simp
  with w show ?thesis by (simp add: cstring_def word_at_def takeWhile_append)
qed

lemma keeps_trans: "keeps bs bs1 i \<Longrightarrow> keeps bs1 bs2 j \<Longrightarrow> i \<le> j \<Longrightarrow> keeps bs bs2 i"
  by (auto simp: keeps_def)

lemma strtok_seq_words:
  assumes "bs = pre @ R @ 0 # rest" "0 \<notin> set R"
  shows "\<exists>ts bs'. strtok_seq n bs (length pre) = Some (ts, bs') \<and> length ts = n \<and> keeps bs bs' (length pre) \<and>
    (\<forall>k < n. case ts ! k of None \<Rightarrow> length (words R) \<le> k
       | Some p \<Rightarrow> k < length (words R) \<and> word_at bs' p (words R ! k))"
  using assms
proof (induction n arbitrary: bs pre R)
  case 0
  then show ?case by (simp add: keeps_def)
next
  case (Suc n)
  show ?case
  proof (cases "words R")
    case Nil
    have R: "words [] = []" by (simp add: words.simps)
    from Suc.IH [of bs "pre @ R" "[]"] Suc.prems(1) R obtain ts bs' where
      ih: "strtok_seq n bs (length (pre @ R)) = Some (ts, bs')" "length ts = n" "keeps bs bs' (length (pre @ R))"
        "\<forall>k < n. ts ! k = None" by (auto split: option.splits)
    have "strtok_seq (Suc n) bs (length pre) = Some (None # ts, bs')"
      using strtok_none [OF Nil, of pre rest] ih(1) Suc.prems(1) by simp
    moreover have "keeps bs bs' (length pre)" using ih(3) by (auto simp: keeps_def)
    ultimately show ?thesis using ih(2,4) Nil by (auto simp: nth_Cons split: nat.splits)
  next
    case (Cons w ws)
    from strtok_some [OF Suc.prems Cons] obtain s bs1 pre1 R1 where
      st: "strtok_r bs (length pre) = Some (Some s, bs1, length pre1)" "bs1 = pre1 @ R1 @ 0 # rest" "0 \<notin> set R1"
        "words R1 = ws" "word_at bs1 s w" "s + length w \<le> length pre1" "keeps bs bs1 (length pre)" "length pre \<le> length pre1"
      by blast
    from Suc.IH [OF st(2,3)] obtain ts bs' where
      ih: "strtok_seq n bs1 (length pre1) = Some (ts, bs')" "length ts = n" "keeps bs1 bs' (length pre1)"
        "\<forall>k < n. case ts ! k of None \<Rightarrow> length ws \<le> k | Some p \<Rightarrow> k < length ws \<and> word_at bs' p (ws ! k)"
      unfolding st(4) by blast
    have "strtok_seq (Suc n) bs (length pre) = Some (Some s # ts, bs')" using st(1) ih(1) by simp
    moreover have "word_at bs' s w" using word_at_keeps [OF st(5,6) ih(3)] .
    moreover have "keeps bs bs' (length pre)" using keeps_trans [OF st(7) ih(3) st(8)] .
    ultimately show ?thesis using ih(2,4) Cons by (auto simp: nth_Cons split: nat.splits option.splits)
  qed
qed

lemma token_list_nth:
  "length ts = 5 \<Longrightarrow>
   token_list \<lparr>tcmd = ts ! 0, targ1 = ts ! Suc 0, targ2 = ts ! 2, targ3 = ts ! 3, textra = ts ! 4\<rparr> = ts"
  by (auto simp: token_list_def numeral_nat length_Suc_conv)

lemma tokenize_seq:
  "tokenize bs = map_option (\<lambda>(ts, bs'). (\<lparr>tcmd = ts ! 0, targ1 = ts ! 1, targ2 = ts ! 2, targ3 = ts ! 3, textra = ts ! 4\<rparr>, bs'))
     (strtok_seq 5 bs 0)"
  by (simp add: tokenize_def numeral_nat split: bind_splits prod.splits)

lemma tokenize_spec:
  assumes "0 \<notin> set msg"
  obtains tk buf where "tokenize (msg @ 0 # rest) = Some (tk, buf)" "length buf = length (msg @ 0 # rest)"
    "map (map_option (cstring buf)) (token_list tk) = take 5 (map Some (words msg) @ replicate 5 None)"
proof -
  from strtok_seq_words [of "msg @ 0 # rest" "[]" msg rest 5] assms obtain ts buf where
    ts: "strtok_seq 5 (msg @ 0 # rest) 0 = Some (ts, buf)" "length ts = 5" "keeps (msg @ 0 # rest) buf 0"
      "\<forall>k < 5. case ts ! k of None \<Rightarrow> length (words msg) \<le> k
       | Some p \<Rightarrow> k < length (words msg) \<and> word_at buf p (words msg ! k)" by auto
  have "map_option (cstring buf) (ts ! k) = (map Some (words msg) @ replicate 5 None) ! k" if "k < 5" for k
    using ts(4) that word_at_cstring by (fastforce simp: nth_append split: option.splits)
  then have "map (map_option (cstring buf)) ts = take 5 (map Some (words msg) @ replicate 5 None)"
    using ts(2) by (intro nth_equalityI) (auto simp del: take_append)
  with ts(1,3) show ?thesis using that [of _ buf]
    by (simp add: tokenize_seq token_list_nth [OF ts(2)] keeps_def)
qed

lemma words_Cons:
  assumes "w \<noteq> []" "\<forall>b \<in> set w. \<not> is_delim b" "is_delim d"
  shows "words (w @ d # r) = w # words r"
proof -
  have "dropWhile is_delim (w @ d # r) = w @ d # r" using assms by (cases w) auto
  moreover have "takeWhile (\<lambda>b. \<not> is_delim b) (w @ d # r) = w" "dropWhile (\<lambda>b. \<not> is_delim b) (w @ d # r) = d # r"
    using assms by (auto simp: takeWhile_append dropWhile_append)
  moreover have "words (d # r) = words r" using words_delims [of "[d]" r] assms(3) by simp
  ultimately show ?thesis using assms(1) by (subst words.simps) simp
qed

lemma words_end [simp]: "words [] = []"
  by (simp add: words.simps)

section \<open>Numbers\<close>

lemma of_char_small: "(of_char c :: nat) < 256"
  by (metis mod_less_divisor of_char_mod_256 zero_less_numeral)

lemma unat_of_char: "unat (of_char c :: byte) = of_char c"
proof -
  have "(of_char c :: byte) = of_nat (of_char c)" by (simp add: of_nat_of_char)
  then show ?thesis using of_char_small [of c] by (simp add: unat_of_nat take_bit_nat_eq_self)
qed

lemma chr_of_char [simp]: "chr (of_char c) = c"
  by (simp add: chr_def unat_of_char)

lemma of_char_digit:
  assumes "n < 10"
  shows "(of_char (digit n) :: byte) = of_nat (48 + n)"
proof -
  have "(of_char (digit n) :: nat) = 48 + n" using assms by (simp add: digit_def)
  then show ?thesis by (metis of_nat_of_char)
qed

lemma is_digit_digit [simp]: "n < 10 \<Longrightarrow> is_digit (of_char (digit n))"
  by (simp add: of_char_digit is_digit_def word_le_nat_alt unat_of_nat take_bit_nat_eq_self del: of_nat_add)

lemma uint_digit: "n < 10 \<Longrightarrow> uint (of_char (digit n) :: byte) = 48 + int n"
  by (simp add: of_char_digit uint_nat unat_of_nat take_bit_nat_eq_self del: of_nat_add)

lemma dec_nat_digits:
  "dec_nat n \<noteq> [] \<and> list_all is_digit (bytes_of_text (dec_nat n)) \<and> digits_value (bytes_of_text (dec_nat n)) = int n"
proof (induction n rule: dec_nat.induct)
  case (1 n)
  show ?case
  proof (cases "n < 10")
    case True
    then show ?thesis by (simp add: dec_nat.simps bytes_of_text_def digits_value_def uint_digit)
  next
    case False
    have "10 * int (n div 10) + int (n mod 10) = int n" by presburger
    with False 1 show ?thesis
      by (simp add: dec_nat.simps [of n] bytes_of_text_def digits_value_def uint_digit)
  qed
qed

lemma is_digit_facts: "is_digit b \<Longrightarrow> \<not> is_space b \<and> b \<noteq> 45 \<and> b \<noteq> 43"
  by (auto simp: is_digit_def is_space_def word_le_nat_alt)

lemma digits_takeWhile: "list_all is_digit ds \<Longrightarrow> takeWhile is_digit ds = ds"
  by (induction ds) auto

lemma strtol_dec:
  assumes "- (2 ^ 63) \<le> n" "n < 2 ^ 63"
  shows "strtol (bytes_of_text (dec n)) = n"
proof (cases "n < 0")
  case True
  note d = dec_nat_digits [of "nat (- n)"]
  have "\<not> is_space 45" by (simp add: is_space_def word_le_nat_alt)
  then have "strtol (bytes_of_text (dec n)) = max (- (2 ^ 63)) (min (2 ^ 63 - 1) (- int (nat (- n))))"
    using True d by (simp add: strtol_def dec_def bytes_of_text_def digits_takeWhile Let_def)
  then show ?thesis using assms True by simp
next
  case False
  note d = dec_nat_digits [of "nat n"]
  then obtain b r where b: "bytes_of_text (dec_nat (nat n)) = b # r" "is_digit b"
    by (cases "dec_nat (nat n)") (auto simp: bytes_of_text_def)
  then have "strtol (bytes_of_text (dec n)) = max (- (2 ^ 63)) (min (2 ^ 63 - 1) (int (nat n)))"
    using False d is_digit_facts [OF b(2)] by (simp add: strtol_def dec_def Let_def digits_takeWhile)
  then show ?thesis using assms False by simp
qed

lemma dec_nat_length: "n < 10 ^ Suc k \<Longrightarrow> length (dec_nat n) \<le> Suc k"
proof (induction k arbitrary: n)
  case 0
  then show ?case by (simp add: dec_nat.simps)
next
  case (Suc k)
  then have "n div 10 < 10 ^ Suc k" by (simp add: div_less_iff_less_mult mult.commute)
  from Suc.IH [OF this] show ?case by (subst dec_nat.simps) simp
qed

lemma dec_word:
  assumes "0 < n" "n < 2 ^ 31"
  shows "dec n \<noteq> []" "\<forall>b \<in> set (bytes_of_text (dec n)). \<not> is_delim b \<and> b \<noteq> 0" "length (dec n) \<le> 10"
    "atoi (bytes_of_text (dec n)) = word_of_int n"
proof -
  have d: "dec n = dec_nat (nat n)" using assms by (simp add: dec_def)
  show "dec n \<noteq> []" using dec_nat_digits [of "nat n"] d by simp
  have "\<not> is_delim b \<and> b \<noteq> 0" if "is_digit b" for b using that by (auto simp: is_digit_def is_delim_def)
  then show "\<forall>b \<in> set (bytes_of_text (dec n)). \<not> is_delim b \<and> b \<noteq> 0"
    using dec_nat_digits [of "nat n"] d by (auto simp: list_all_iff)
  have "nat n < 10 ^ Suc 9" using assms by (simp add: nat_less_iff)
  from dec_nat_length [OF this] d show "length (dec n) \<le> 10" by simp
  show "atoi (bytes_of_text (dec n)) = word_of_int n" using strtol_dec [of n] assms by (simp add: atoi_def)
qed

lemma sint_word_of_int: "0 < n \<Longrightarrow> n < 2 ^ 31 \<Longrightarrow> sint (word_of_int n :: cint) = n"
  by (simp add: signed_of_int signed_take_bit_int_eq_self)

section \<open>The hex dump\<close>

lemma of_char_hex: "n < 16 \<Longrightarrow> (of_char (hex_digit True n) :: nat) = (if n < 10 then 48 + n else 55 + n)"
  by (simp add: hex_digit_def)

lemma unhex2_hex2: "unhex2 (hex2 b) = b"
proof -
  have "unat b < 256" using unsigned_less [of b] by simp
  then have "unat b div 16 < 16" by simp
  then have "unhex2 (hex2 b) = 16 * of_nat (unat b div 16) + of_nat (unat b mod 16)"
    by (simp add: hex2_def of_char_hex Let_def)
  also have "\<dots> = of_nat (16 * (unat b div 16) + unat b mod 16)"
    by (simp only: of_nat_add of_nat_mult of_nat_numeral)
  also have "\<dots> = b" by simp
  finally show ?thesis .
qed

lemma length_hex_column: "length (hex_column buf i j) = (if j = 7 then 4 else 3)"
  by (simp add: hex_column_def hex2_def)

lemma length_hex_columns: "length (concat (map (hex_column buf i) [0..<j])) = 3 * j + (if 7 < j then 1 else 0)"
  by (induction j) (auto simp: length_hex_column)

lemma hex_nat_length: "n < 16 ^ Suc k \<Longrightarrow> length (hex_nat n) \<le> Suc k"
proof (induction n arbitrary: k rule: hex_nat.induct)
  case (1 n)
  show ?case
  proof (cases "n < 16")
    case False
    then obtain k' where k: "k = Suc k'" using 1(2) by (cases k) auto
    then have "n div 16 < 16 ^ Suc k'" using 1(2) by (simp add: less_mult_imp_div_less mult.commute)
    from 1(1) [OF False this] False k show ?thesis by (simp add: hex_nat.simps [of n])
  qed (simp add: hex_nat.simps)
qed

lemma length_hex8: "n < 16 ^ 8 \<Longrightarrow> length (hex8 n) = 8"
  using hex_nat_length [of n 7] by (simp add: hex8_def)

lemma hex_line_column:
  assumes "j < 16" "i + j < length buf" "i < 16 ^ 8"
  shows "take 2 (drop (hex_column_start j) (hex_line buf i)) = hex2 (buf ! (i + j))"
proof -
  let ?c = "\<lambda>a b. concat (map (hex_column buf i) [a..<b])"
  have "[0..<16] = [0..<j] @ j # [Suc j..<16]"
    using upt_add_eq_append [of 0 j "16 - j"] upt_conv_Cons [OF assms(1)] assms(1) by simp
  then have "?c 0 16 = ?c 0 j @ hex_column buf i j @ ?c (Suc j) 16" by simp
  then have "drop (hex_column_start j) (hex_line buf i) = hex_column buf i j @ ?c (Suc j) 16 @ '' |'' @
     map (\<lambda>b. if isprint b then chr b else CHR ''.'') (take 16 (drop i buf)) @ ''|'' @ nl"
    using length_hex_columns [of buf i j] length_hex8 [OF assms(3)]
    by (simp add: hex_line_def hex_column_start_def)
  then show ?thesis using assms(2) by (simp add: hex_column_def hex2_def numeral_2_eq_2)
qed

lemma hexDump_from_lines:
  "hexDump_from buf (16 * k) = concat (map (\<lambda>k. hex_line buf (16 * k)) [k..<(length buf + 15) div 16])"
proof (induction "length buf - 16 * k" arbitrary: k rule: less_induct)
  case less
  show ?case
  proof (cases "16 * k < length buf")
    case True
    then have "k < (length buf + 15) div 16" by linarith
    then have "[k..<(length buf + 15) div 16] = k # [Suc k..<(length buf + 15) div 16]" by (simp add: upt_conv_Cons)
    moreover have "hexDump_from buf (16 * Suc k) = concat (map (\<lambda>k. hex_line buf (16 * k)) [Suc k..<(length buf + 15) div 16])"
      using True by (intro less.hyps) auto
    ultimately show ?thesis using True by (simp add: hexDump_from.simps [of buf "16 * k"] add.commute)
  next
    case False
    then have "(length buf + 15) div 16 \<le> k" by linarith
    with False show ?thesis by (simp add: hexDump_from.simps)
  qed
qed

section \<open>Properties\<close>

text \<open>
  C22. On a message that is terminated inside its buffer, the five calls of \<open>strtok_r\<close> stay inside
  the buffer and return the first five words of the message, each terminated in place, and null
  where the message has no more words.
\<close>

theorem tokenize_words:
  assumes "0 \<notin> set msg"
  shows "\<exists>tk buf. tokenize (msg @ 0 # rest) = Some (tk, buf) \<and>
    map (map_option (cstring buf)) (token_list tk) = take 5 (map Some (words msg) @ replicate 5 None)"
  using tokenize_spec [OF assms] by metis

theorem tokenize_words_witness:
  "\<exists>tk buf. tokenize (bytes_of_text ''rmpart 2'' @ 0 # []) = Some (tk, buf) \<and>
     map (map_option (cstring buf)) (token_list tk) =
       [Some (bytes_of_text ''rmpart''), Some (bytes_of_text ''2''), None, None, None]"
proof -
  have w: "words (bytes_of_text ''rmpart 2'') = [bytes_of_text ''rmpart'', bytes_of_text ''2'']"
    by (simp add: words.simps bytes_of_text_def is_delim_def Let_def)
  have "0 \<notin> set (bytes_of_text ''rmpart 2'')" by (simp add: bytes_of_text_def)
  from tokenize_words [OF this, of "[]"] show ?thesis unfolding w by (simp add: numeral_nat)
qed

text \<open>
  C24. The dump of a buffer is a sequence of lines from which every byte can be read back at its
  column.
\<close>

theorem hexDump_roundtrip:
  assumes "length buf \<le> 16 ^ 8"
  shows "hexDump (Some buf) = concat (hexDump_lines buf) \<and> undump (hexDump_lines buf) (length buf) = buf"
proof
  show "hexDump (Some buf) = concat (hexDump_lines buf)"
    using hexDump_from_lines [of buf 0] by (simp add: hexDump_def hexDump_lines_def)
  have "unhex2 (take 2 (drop (hex_column_start (m mod 16)) (hexDump_lines buf ! (m div 16)))) = buf ! m"
    if "m < length buf" for m
  proof -
    have "m div 16 < (length buf + 15) div 16" using that by linarith
    then have "hexDump_lines buf ! (m div 16) = hex_line buf (16 * (m div 16))" by (simp add: hexDump_lines_def)
    with hex_line_column [of "m mod 16" "16 * (m div 16)" buf] that assms show ?thesis
      by (simp add: unhex2_hex2)
  qed
  then show "undump (hexDump_lines buf) (length buf) = buf"
    unfolding undump_def by (intro nth_equalityI) auto
qed

theorem hexDump_roundtrip_witness:
  "hexDump (Some [65, 200]) = concat (hexDump_lines [65, 200]) \<and> undump (hexDump_lines [65, 200]) 2 = [65, 200]"
  using hexDump_roundtrip [of "[65, 200]"] by (simp add: numeral_2_eq_2)

end
