(* ===== verification/CommandServer.thy ===== *)
theory CommandServer
  imports ServerText Interfaces
begin

text \<open>
  The thread that serves one client, \<open>repsondingThread\<close> of \<open>server/aesdsocket.c\<close>: it receives
  a line, splits it into words and carries out the command on the drive.

  The state is what the thread works on: the drive with the memory (\<open>nv\<close>), what was sent to the
  client, the performance job it keeps between commands, the performance jobs started, the file
  descriptors \<open>dup\<close> made, what is still to be received and whether the thread goes on. The text
  an operation prints is redirected to the client by \<open>dup2\<close>; it stays in the standard output of
  the drive's state. The server's own debug output is left out; it prints arguments that
  are missing as null pointers, which the C library shows as \<open>(null)\<close>.

  Parameters: \<open>malloc\<close> and \<open>realloc\<close>, the performance jobs of \<open>perfInterface\<close>, and whether
  the value stored in the job's duration counts as negative, which depends on the type
  \<open>perfInterface.h\<close> gives that field.
\<close>

section \<open>State\<close>

datatype perf_kind = SeqWrite | SeqRead | RandWrite | RandRead

record perfJobInfo_t =
  lbaRange :: lbaRange_t
  duration_ms :: cint

record 'w host =
  malloc :: "heap \<Rightarrow> nat \<Rightarrow> (nat \<times> byte list) option"
  realloc :: "heap \<Rightarrow> nat \<Rightarrow> nat \<Rightarrow> (nat \<times> byte list) option"
  perf_start :: "perf_kind \<Rightarrow> perfJobInfo_t \<Rightarrow> 'w \<Rightarrow> 'w"
  negative_duration :: "cint \<Rightarrow> bool"

text \<open>
  What \<open>recv\<close> finds: an error, bytes, or nothing for good, when the client stays connected and silent, so
  that the call does not return; no more entries, or no bytes, is the end of the stream.
\<close>

datatype recv_result = RecvError | RecvData "byte list" | RecvSilent

record 'w session =
  nv :: "'w nv"
  sent :: string
  perfJob :: perfJobInfo_t
  jobs :: "(perf_kind \<times> perfJobInfo_t) list"
  savedFds :: nat
  input :: "recv_result list"
  threadActive :: bool

definition RECV_BUFFER_LENGTH_BYTES :: nat where
  "RECV_BUFFER_LENGTH_BYTES = 32"

definition send :: "string \<Rightarrow> 'w session \<Rightarrow> 'w session" where
  "send t s = s\<lparr>sent := sent s @ t\<rparr>"

text \<open>
  A reply. \<open>sent\<close> is what the thread hands to an open connection; the thread ignores the result, and on a
  descriptor that takes nothing the replies are lost and all else is the same.
\<close>

definition reply :: "string \<Rightarrow> 'w session \<Rightarrow> 'w session" where
  "reply t s = send (snd (sendOnSocketf 0 True t)) s"

text \<open>\<open>dup\<close> of the standard output before a redirected operation; nothing closes the copy.\<close>

definition redirected :: "'w session \<Rightarrow> 'w session" where
  "redirected s = s\<lparr>savedFds := savedFds s + 1\<rparr>"

section \<open>Usage\<close>

definition usage_lines :: "string list" where
  "usage_lines = [
     ''----- Start Command Usage -----'' @ nl,
     ''help/? -- prints this command usage screen'' @ nl,
     ''status -- prints status of drive'' @ nl,
     ''listparts/ls -- list active partitions on the drive'' @ nl,
     ''mkpart <size_in_sectors> '' @ nl,
     ''rmpart <part_number> '' @ nl,
     ''write <part> <data> <offset> -- writes <data> to <part>'' @ nl,
     ''read <part> <offset> <num_sectors> -- reads <num_sectors> from <part> '' @ nl,
     nl @ ''----- Performance Command Usage -----'' @ nl,
     ''seq_write/sw <part> <sector_start> <sector_end> <duration_ms>'' @ nl,
     ''seq_read/sr <part> <sector_start> <sector_end> <duration_ms>'' @ nl,
     ''rand_write/rw <part> <sector_start> <sector_end> <duration_ms>'' @ nl,
     ''rand_read/rr <part> <sector_start> <sector_end> <duration_ms>'' @ nl,
     ''quit --  ends session'' @ nl,
     nl @ ''----- End Command usage -----'' @ nl @ nl]"

definition sendCommandUsage :: "'w session \<Rightarrow> 'w session" where
  "sendCommandUsage s = fold send usage_lines s"

section \<open>The commands\<close>

text \<open>An argument is the word it points to; \<open>None\<close> is the null pointer, which \<open>atoi\<close> must not get.\<close>

type_synonym arg = "byte list option"

definition cmd_status :: "'w parted \<Rightarrow> 'w session \<Rightarrow> 'w session" where
  "cmd_status P s = (redirected s)\<lparr>nv := snd (nvmeGetStatus P (nv s))\<rparr>"

definition cmd_listparts :: "'w parted \<Rightarrow> 'w session \<Rightarrow> 'w session option" where
  "cmd_listparts P s = do {
     let s1 = redirected s;
     (rc, v) \<leftarrow> nvmeListPartitions P (nv s1);
     let s2 = s1\<lparr>nv := v\<rparr>;
     Some (if rc \<noteq> NVME_STATUS_OK
           then reply (''Encountered and error while listing drive partitions.'' @ nl) s2 else s2)
   }"

definition cmd_mkpart :: "'w parted \<Rightarrow> arg \<Rightarrow> 'w session \<Rightarrow> 'w session option" where
  "cmd_mkpart P arg1 s = do {
     let s1 = (if arg1 = None
               then reply (''expected second argument for size of new partition.'' @ nl) s else s);
     a1 \<leftarrow> arg1;
     let newPartSize = atoi a1;
     if 0 < sint newPartSize then do {
       (rc, newPartIndex, v) \<leftarrow> nvmeCreatePartition P newPartSize 0 (nv s1);
       let s2 = s1\<lparr>nv := v\<rparr>;
       Some (if rc \<noteq> NVME_STATUS_OK then reply (nl @ ''failed to create partition.'' @ nl) s2
             else reply (nl @ ''created new partition with number '' @ dec (uint newPartIndex) @ nl) s2)
     } else Some (reply (''expected greater than zero argument for new partition size.'' @ nl) s1)
   }"

definition cmd_rmpart :: "'w parted \<Rightarrow> arg \<Rightarrow> 'w session \<Rightarrow> 'w session option" where
  "cmd_rmpart P arg1 s = do {
     let s1 = (if arg1 = None
               then reply (''expected second argument for number of partition to delete'' @ nl) s else s);
     a1 \<leftarrow> arg1;
     let partToDel = atoi a1;
     if 0 < sint partToDel then do {
       (rc, v) \<leftarrow> nvmeDeletePartition P partToDel (nv s1);
       let s2 = s1\<lparr>nv := v\<rparr>;
       Some (if rc = NVME_STATUS_BAD_NAME
             then reply (''Cannot delete a partition that doesn't prefix with AESD with SAFE_MODE active.'' @
               replicate 24 (CHR '' '') @ nl @
               ''Try to delete a partition created with this utility instead.'' @ nl) s2
             else if rc \<noteq> NVME_STATUS_OK then reply (''failed to delete partition.'' @ nl) s2
             else reply (''deleted part with number '' @ dec (sint partToDel) @ nl) s2)
     } else Some (reply (''expected greater than zero argument for partition to delete.'' @ nl) s1)
   }"

text \<open>The data is passed as the pointer to the second argument, at offset \<open>off2\<close> of the message in \<open>a\<close>.\<close>

definition cmd_write ::
    "'w parted \<Rightarrow> nat \<Rightarrow> arg \<Rightarrow> arg \<Rightarrow> nat \<Rightarrow> arg \<Rightarrow> 'w session \<Rightarrow> 'w session option" where
  "cmd_write P a arg1 arg2 off2 arg3 s =
     (case arg1 of
        None \<Rightarrow> Some (reply (''Expected a partition to write to. Try again.'' @ nl) s)
      | Some a1 \<Rightarrow> do {
          let partToWrite = atoi a1;
          let s1 = (if arg3 = None then reply (''No socket offset received. Assuming 0.'' @ nl) s else s);
          let sectorOffset = (case arg3 of None \<Rightarrow> 0 | Some a3 \<Rightarrow> atoi a3);
          a2 \<leftarrow> arg2;
          let s2 = reply (''Writing '' @ dec (int (length a2)) @ '' bytes to part '' @
                     dec (sint partToWrite) @ '' at sector '' @ dec (sint sectorOffset) @ nl) s1;
          (rc, v) \<leftarrow> nvmeWritePartitionSector P partToWrite sectorOffset (Ptr a, off2)
                      (of_nat (length a2)) (nv s2);
          let s3 = s2\<lparr>nv := v\<rparr>;
          Some (if rc = NVME_STATUS_BAD_NAME
                then reply (''Cannot write to partition that doesn't prefix with AESD with SAFE_MODE active.'' @
                  replicate 24 (CHR '' '') @ nl @
                  ''Try to write to a partition created with this utility instead.'' @ nl) s3
                else if rc \<noteq> NVME_STATUS_OK
                then reply (''An error occured during the write operation.'' @ nl) s3 else s3)
        })"

definition s_malloc :: "'w host \<Rightarrow> nat \<Rightarrow> 'w session \<Rightarrow> ptr \<times> 'w session" where
  "s_malloc H n s = (case malloc H (mem (nv s)) n of
     None \<Rightarrow> (NULL, s)
   | Some (a, bs) \<Rightarrow> (Ptr a, s\<lparr>nv := (nv s)\<lparr>mem := (mem (nv s))(a \<mapsto> bs)\<rparr>\<rparr>))"

definition s_free :: "ptr \<Rightarrow> 'w session \<Rightarrow> 'w session option" where
  "s_free p s = map_option (\<lambda>h. s\<lparr>nv := (nv s)\<lparr>mem := h\<rparr>\<rparr>) (mem_free (mem (nv s)) p)"

text \<open>The part of a read after its arguments are checked; the product of two \<open>int\<close> must not overflow.\<close>

definition read_sectors ::
    "'w host \<Rightarrow> 'w parted \<Rightarrow> cint \<Rightarrow> cint \<Rightarrow> cint \<Rightarrow> bool \<Rightarrow> 'w session \<Rightarrow> 'w session option" where
  "read_sectors H P partToRead sectorOffset sectorsToRead printAsHex s =
   (if 2 ^ 31 \<le> sint sectorsToRead * 512 then None else do {
     let readBufferSize = size_of_int (sectorsToRead * 512);
     let (readBuffer, s1) = s_malloc H (unat readBufferSize) s;
     let s2 = reply (''Reading '' @ dec (sint readBufferSize) @ '' bytes from part '' @
                dec (sint partToRead) @ '' at sector '' @ dec (sint sectorOffset) @ nl) s1;
     (rc, v) \<leftarrow> nvmeReadPartitionSector P partToRead sectorOffset (readBuffer, 0) readBufferSize (nv s2);
     let s3 = s2\<lparr>nv := v\<rparr>;
     if rc = NVME_STATUS_PART_DNE
     then s_free readBuffer (reply (''Specified partition does not exist.'' @ nl) s3)
     else if rc \<noteq> NVME_STATUS_OK
     then s_free readBuffer (reply (''Encountered an error during read'' @ nl) s3)
     else do {
       h \<leftarrow> mem_write (mem (nv s3)) readBuffer (unat (readBufferSize - 1)) [0];
       data \<leftarrow> mem_read h readBuffer 0 (unat readBufferSize);
       let s4 = s3\<lparr>nv := (nv s3)\<lparr>mem := h\<rparr>\<rparr>;
       let s5 = (if printAsHex
                 then (redirected s4)\<lparr>nv := say (hexDump (Some data)) (nv s4)\<rparr>
                 else reply (''Read '' @ text_of (cstring data 0) @ '' from socket'' @ nl) s4);
       s_free readBuffer s5
     }
   })"

definition cmd_read ::
    "'w host \<Rightarrow> 'w parted \<Rightarrow> arg \<Rightarrow> arg \<Rightarrow> arg \<Rightarrow> arg \<Rightarrow> 'w session \<Rightarrow> 'w session option" where
  "cmd_read H P arg1 arg2 arg3 extra s =
     (case arg1 of
        None \<Rightarrow> Some (reply (''Expected a partition to write to. Try again.'' @ nl) s)
      | Some a1 \<Rightarrow>
          (let partToRead = atoi a1;
               s1 = (if arg2 = None then reply (''No socket offset received. Assuming 0.'' @ nl) s else s);
               sectorOffset = (case arg2 of None \<Rightarrow> 0 | Some a2 \<Rightarrow> atoi a2)
           in case arg3 of
                None \<Rightarrow> Some (reply (''Expected a number of sectors to read. Try again.'' @ nl) s1)
              | Some a3 \<Rightarrow>
                  (let sectorsToRead = atoi a3 in
                   if sint sectorsToRead \<le> 0
                   then Some (reply (''Expected a number of sectors to read greater than 0.'' @ nl) s1)
                   else
                     (let printAsHex = (case extra of None \<Rightarrow> False
                            | Some x \<Rightarrow> strncmp (text_of x) ''-b'' (length ''-b'' + 1) = 0)
                      in read_sectors H P partToRead sectorOffset sectorsToRead printAsHex s1))))"

section \<open>Performance jobs\<close>

definition perf_writes :: "perf_kind \<Rightarrow> bool" where
  "perf_writes k \<longleftrightarrow> k = SeqWrite \<or> k = RandWrite"

definition perf_ready :: "perf_kind \<Rightarrow> string" where
  "perf_ready k = (case k of
     SeqWrite \<Rightarrow> ''Ready to seq_write in range '' | SeqRead \<Rightarrow> ''Ready to seq_read in range ''
   | RandWrite \<Rightarrow> ''Ready to rand write in range '' | RandRead \<Rightarrow> ''Ready to rand_read in range '')"

text \<open>The name check of the two writing jobs: a refusal that was answered, or the way on.\<close>

definition perf_name_check ::
    "'w parted \<Rightarrow> perf_kind \<Rightarrow> cint \<Rightarrow> 'w session \<Rightarrow> ('w session + 'w session) option" where
  "perf_name_check P kind partToPerf s =
     (if perf_writes kind then do {
        (rc, v) \<leftarrow> nvmeCheckNameSafetyPartNumber P (ucast partToPerf) (nv s);
        let s1 = s\<lparr>nv := v\<rparr>;
        Some (if rc = NVME_STATUS_BAD_NAME
              then Inl (reply (''Cannot test performance on a partition that doesn't prefix with AESD with SAFE_MODE active.'' @
                replicate 24 (CHR '' '') @ nl @
                ''Try to test a partition created with this utility instead.'' @ nl) s1)
              else if rc \<noteq> NVME_STATUS_OK
              then Inl (reply (''Encountered an error during namecheck'' @ nl) s1)
              else Inr s1)
      } else Some (Inr s))"

text \<open>
  The rest of a job: check the order and the range, look the partition's start and end up, shift
  the range by the start (cut to 32 bits) and start the job.
\<close>

definition shift_lba :: "u32 \<Rightarrow> u64 \<Rightarrow> u32" where
  "shift_lba l start = ucast (ucast l + start)"

definition perf_run ::
    "'w host \<Rightarrow> 'w parted \<Rightarrow> perf_kind \<Rightarrow> cint \<Rightarrow> 'w session \<Rightarrow> 'w session option" where
  "perf_run H P kind partToPerf s =
     (let r = lbaRange (perfJob s) in
      if startlba r > endlba r \<or> negative_duration H (duration_ms (perfJob s))
      then Some (reply (''Bad inputs. Try again.'' @ nl) s)
      else do {
        (rc, v) \<leftarrow> nvmeCheckLbaRangeInPart P (ucast partToPerf) r (nv s);
        let s1 = s\<lparr>nv := v\<rparr>;
        if rc = NVME_STATUS_ERROR
        then Some (reply (''Lba range is not possible on this partition ('' @ dec (sint partToPerf) @ '').'' @ nl) s1)
        else do {
          (rc2, partStartAddr, v2) \<leftarrow> nvmeGetStartLbaInPart P (ucast partToPerf) 0 (nv s1);
          let s2 = s1\<lparr>nv := v2\<rparr>;
          if rc2 \<noteq> NVME_STATUS_OK then Some (reply (''Failed to get start lba for part'' @ nl) s2)
          else do {
            (rc3, partEndAddr, v3) \<leftarrow> nvmeGetEndLbaInPart P (ucast partToPerf) 0 (nv s2);
            let s3 = s2\<lparr>nv := v3\<rparr>;
            if rc3 \<noteq> NVME_STATUS_OK then Some (reply (''Failed to get end lba for part'' @ nl) s3)
            else do {
              let r' = \<lparr>startlba = shift_lba (startlba r) partStartAddr,
                        endlba = shift_lba (endlba r) partStartAddr\<rparr>;
              let job = (perfJob s3)\<lparr>lbaRange := r'\<rparr>;
              let s4 = reply (perf_ready kind @ dec (sint (startlba r')) @ ''-'' @ dec (sint (endlba r')) @ nl)
                         (s3\<lparr>perfJob := job\<rparr>);
              let s5 = redirected s4;
              Some (s5\<lparr>jobs := jobs s5 @ [(kind, job)],
                       nv := (nv s5)\<lparr>lib := perf_start H kind job (lib (nv s5))\<rparr>\<rparr>)
            }
          }
        }
      })"

definition cmd_perf ::
    "'w host \<Rightarrow> 'w parted \<Rightarrow> perf_kind \<Rightarrow> arg \<Rightarrow> arg \<Rightarrow> arg \<Rightarrow> arg \<Rightarrow> 'w session \<Rightarrow> 'w session option" where
  "cmd_perf H P kind arg1 arg2 arg3 extra s =
     (case (arg1, arg2, arg3, extra) of
        (Some a1, Some a2, Some a3, Some ex) \<Rightarrow> do {
          let partToPerf = atoi a1;
          let s1 = s\<lparr>perfJob := \<lparr>lbaRange = \<lparr>startlba = atoi a2, endlba = atoi a3\<rparr>, duration_ms = atoi ex\<rparr>\<rparr>;
          checked \<leftarrow> perf_name_check P kind partToPerf s1;
          (case checked of Inl s2 \<Rightarrow> Some s2 | Inr s2 \<Rightarrow> perf_run H P kind partToPerf s2)
        }
      | _ \<Rightarrow> Some (reply (''expected all arguments. Try again.'' @ nl) s))"

text \<open>The four performance commands; the branches differ in the name check, the text and the job.\<close>

definition cmd_seq_write ::
    "'w host \<Rightarrow> 'w parted \<Rightarrow> arg \<Rightarrow> arg \<Rightarrow> arg \<Rightarrow> arg \<Rightarrow> 'w session \<Rightarrow> 'w session option" where
  "cmd_seq_write H P = cmd_perf H P SeqWrite"

definition cmd_seq_read ::
    "'w host \<Rightarrow> 'w parted \<Rightarrow> arg \<Rightarrow> arg \<Rightarrow> arg \<Rightarrow> arg \<Rightarrow> 'w session \<Rightarrow> 'w session option" where
  "cmd_seq_read H P = cmd_perf H P SeqRead"

definition cmd_rand_write ::
    "'w host \<Rightarrow> 'w parted \<Rightarrow> arg \<Rightarrow> arg \<Rightarrow> arg \<Rightarrow> arg \<Rightarrow> 'w session \<Rightarrow> 'w session option" where
  "cmd_rand_write H P = cmd_perf H P RandWrite"

definition cmd_rand_read ::
    "'w host \<Rightarrow> 'w parted \<Rightarrow> arg \<Rightarrow> arg \<Rightarrow> arg \<Rightarrow> arg \<Rightarrow> 'w session \<Rightarrow> 'w session option" where
  "cmd_rand_read H P = cmd_perf H P RandRead"

section \<open>Dispatch\<close>

definition is_cmd :: "byte list \<Rightarrow> string \<Rightarrow> bool" where
  "is_cmd w name \<longleftrightarrow> strncmp (text_of w) name (length name + 1) = 0"

text \<open>The message is in the block \<open>a\<close>, split into the words \<open>tk\<close> in \<open>buf\<close>.\<close>

definition dispatch ::
    "'w host \<Rightarrow> 'w parted \<Rightarrow> nat \<Rightarrow> byte list \<Rightarrow> tokens \<Rightarrow> byte list \<Rightarrow> 'w session \<Rightarrow> 'w session option" where
  "dispatch H P a buf tk cmd s =
     (let arg1 = map_option (cstring buf) (targ1 tk);
          arg2 = map_option (cstring buf) (targ2 tk);
          arg3 = map_option (cstring buf) (targ3 tk);
          extra = map_option (cstring buf) (textra tk)
      in if is_cmd cmd ''?'' \<or> is_cmd cmd ''help'' then Some (sendCommandUsage s)
         else if is_cmd cmd ''status'' then Some (cmd_status P s)
         else if is_cmd cmd ''listparts'' \<or> is_cmd cmd ''ls'' then cmd_listparts P s
         else if is_cmd cmd ''quit'' then Some (s\<lparr>threadActive := False\<rparr>)
         else if is_cmd cmd ''mkpart'' then cmd_mkpart P arg1 s
         else if is_cmd cmd ''rmpart'' then cmd_rmpart P arg1 s
         else if is_cmd cmd ''write'' then
           cmd_write P a arg1 arg2 (case targ2 tk of None \<Rightarrow> 0 | Some off \<Rightarrow> off) arg3 s
         else if is_cmd cmd ''read'' then cmd_read H P arg1 arg2 arg3 extra s
         else if is_cmd cmd ''seq_write'' \<or> is_cmd cmd ''sw'' then cmd_seq_write H P arg1 arg2 arg3 extra s
         else if is_cmd cmd ''seq_read'' \<or> is_cmd cmd ''sr'' then cmd_seq_read H P arg1 arg2 arg3 extra s
         else if is_cmd cmd ''rand_write'' \<or> is_cmd cmd ''rw'' then cmd_rand_write H P arg1 arg2 arg3 extra s
         else if is_cmd cmd ''rand_read'' \<or> is_cmd cmd ''rr'' then cmd_rand_read H P arg1 arg2 arg3 extra s
         else Some s)"

text \<open>A received message: logged as a string, so a zero byte must be in its buffer, then split and carried out.\<close>

definition handle_message :: "'w host \<Rightarrow> 'w parted \<Rightarrow> nat \<Rightarrow> 'w session \<Rightarrow> 'w session option" where
  "handle_message H P a s = do {
     bs \<leftarrow> mem (nv s) a;
     if 0 \<notin> set bs then None
     else do {
       (tk, buf) \<leftarrow> tokenize bs;
       let s1 = s\<lparr>nv := (nv s)\<lparr>mem := (mem (nv s))(a \<mapsto> buf)\<rparr>\<rparr>;
       (case tcmd tk of
          None \<Rightarrow> Some s1
        | Some c \<Rightarrow> dispatch H P a buf tk (cstring buf c) s1)
     }
   }"

section \<open>Receiving\<close>

text \<open>
  How receiving a message ends: with a message in a block (and whether the client closed the
  connection), with a message given up for lack of memory, with an error, or not at all.
\<close>

datatype recv_outcome = Message nat bool | Tossed | Failed | Silent

fun recv_size :: "recv_result list \<Rightarrow> nat" where
  "recv_size [] = 0"
| "recv_size (RecvError # r) = Suc (recv_size r)"
| "recv_size (RecvSilent # r) = Suc (recv_size r)"
| "recv_size (RecvData bs # r) = Suc (length bs + recv_size r)"

text \<open>
  The block is doubled when it is full; the new bytes are whatever \<open>realloc\<close> leaves there. The counter
  \<open>totalBytesRecvd\<close> is an \<open>int\<close>, whose overflow is undefined.
\<close>

definition recv_grow :: "'w host \<Rightarrow> nat \<Rightarrow> nat \<Rightarrow> nat \<Rightarrow> heap \<Rightarrow> (nat \<times> nat \<times> heap) option" where
  "recv_grow H bufferCapacity totalBytesRecvd a h =
     (if totalBytesRecvd = bufferCapacity
      then (case realloc H h a (bufferCapacity * 2) of
          None \<Rightarrow> None
        | Some (a', bs) \<Rightarrow> Some (bufferCapacity * 2, a', (h(a := None))(a' \<mapsto> bs)))
      else Some (bufferCapacity, a, h))"

definition int_overflows :: "nat \<Rightarrow> bool" where
  "int_overflows n \<longleftrightarrow> 2 ^ 31 \<le> int n"

function recv_loop ::
    "'w host \<Rightarrow> nat \<Rightarrow> nat \<Rightarrow> nat \<Rightarrow> heap \<Rightarrow> recv_result list \<Rightarrow>
     (recv_outcome \<times> heap \<times> recv_result list) option" where
  "recv_loop H bufferCapacity totalBytesRecvd a h inp =
     (case recv_grow H bufferCapacity totalBytesRecvd a h of
        None \<Rightarrow> Some (Tossed, h(a := None), inp)
      | Some (cap, a', h') \<Rightarrow>
          (case inp of
             [] \<Rightarrow> Some (Message a' True, h', [])
           | RecvError # r \<Rightarrow> Some (Failed, h'(a' := None), r)
           | RecvSilent # r \<Rightarrow> Some (Silent, h', inp)
           | RecvData bs # r \<Rightarrow>
               (let n = min (length bs) (cap - totalBytesRecvd) in
                if n = 0 then Some (Message a' True, h', r)
                else if int_overflows (totalBytesRecvd + n) then None
                else do {
                  h2 \<leftarrow> mem_write h' (Ptr a') totalBytesRecvd (take n bs);
                  let inp' = (if n < length bs then RecvData (drop n bs) # r else r);
                  let total = totalBytesRecvd + n;
                  c \<leftarrow> mem_read h2 (Ptr a') (total - 1) 1;
                  if c = [10] then Some (Message a' False, h2, inp')
                  else recv_loop H cap total a' h2 inp'
                })))"
  by pat_completeness auto
termination
  by (relation "measure (\<lambda>(_, _, _, _, _, inp). recv_size inp)") (auto split: if_splits)

declare recv_loop.simps [simp del]

section \<open>The thread\<close>

text \<open>
  One round of the thread's loop: it ends with the early return after a receive error, at the next test of
  the loop, or not, when \<open>recv\<close> waits for a client that stays silent.
\<close>

datatype 'w round_end = Early "'w session" | Again "'w session" | Waits "'w session"

definition thread_round :: "'w host \<Rightarrow> 'w parted \<Rightarrow> 'w session \<Rightarrow> 'w round_end option" where
  "thread_round H P s = do {
     let (buffer, s1) = s_malloc H RECV_BUFFER_LENGTH_BYTES s;
     h \<leftarrow> mem_write (mem (nv s1)) buffer 0 (replicate RECV_BUFFER_LENGTH_BYTES 0);
     (out, h', inp) \<leftarrow> recv_loop H RECV_BUFFER_LENGTH_BYTES 0
                        (case buffer of NULL \<Rightarrow> 0 | Ptr a \<Rightarrow> a) h (input s1);
     let s2 = s1\<lparr>nv := (nv s1)\<lparr>mem := h'\<rparr>, input := inp\<rparr>;
     (case out of
        Failed \<Rightarrow> Some (Early s2)
      | Silent \<Rightarrow> Some (Waits s2)
      | Tossed \<Rightarrow> Some (Again s2)
      | Message a closed \<Rightarrow>
          map_option Again (handle_message H P a (if closed then s2\<lparr>threadActive := False\<rparr> else s2)))
   }"

text \<open>
  How the thread ends: at the end of its function, which marks it complete, by the early return,
  or not at all because it waits for its client or because the behaviour is undefined. \<open>fuel\<close> bounds the rounds; \<open>E k\<close> is the flag
  \<open>endProgram\<close> when it is read for the \<open>k\<close>-th time.
\<close>

datatype 'w thread_end = Finished "'w session" | Aborted "'w session" | Stays "'w session" | Faulted | OutOfFuel

fun thread_loop :: "'w host \<Rightarrow> 'w parted \<Rightarrow> (nat \<Rightarrow> bool) \<Rightarrow> nat \<Rightarrow> nat \<Rightarrow> 'w session \<Rightarrow> 'w thread_end" where
  "thread_loop H P E 0 k s = OutOfFuel"
| "thread_loop H P E (Suc fuel) k s =
     (if threadActive s \<and> \<not> E k then
        (case thread_round H P s of
           None \<Rightarrow> Faulted
         | Some (Early s') \<Rightarrow> Aborted s'
         | Some (Waits s') \<Rightarrow> Stays s'
         | Some (Again s') \<Rightarrow> thread_loop H P E fuel (Suc k) s')
      else Finished s)"

text \<open>The state of a new connection with the stream \<open>inp\<close>, after the greeting.\<close>

definition session_start :: "recv_result list \<Rightarrow> 'w nv \<Rightarrow> 'w session" where
  "session_start inp v =
     sendCommandUsage (send (''Welcome to the NVME command server!'' @ nl @ nl @ nl)
       \<lparr>nv = v, sent = [], perfJob = \<lparr>lbaRange = \<lparr>startlba = 0, endlba = 0\<rparr>, duration_ms = 0\<rparr>,
        jobs = [], savedFds = 0, input = inp, threadActive = True\<rparr>)"

text \<open>
  The whole thread; every round but the last takes something from the stream, so the length of
  the stream is enough fuel.
\<close>

definition repsondingThread ::
    "'w host \<Rightarrow> 'w parted \<Rightarrow> (nat \<Rightarrow> bool) \<Rightarrow> recv_result list \<Rightarrow> 'w nv \<Rightarrow> 'w thread_end" where
  "repsondingThread H P E inp v = thread_loop H P E (recv_size inp + 2) 0 (session_start inp v)"

end
