(* ===== verification/CommandServerProps.thy ===== *)
theory CommandServerProps
  imports CommandServer
begin

text \<open>
  Properties of the thread that serves one client: every call it makes on the drive is guarded and
  its loop ends, a message is received whole and dispatched on its words, which messages run into
  undefined behaviour, and where the performance jobs it starts read and write.
\<close>

section \<open>Specification notions\<close>

text \<open>
  What a command may do to the session: its calls on the drive are guarded, it receives nothing, and
  it does not start the thread again.
\<close>

definition srv_ok :: "'w session \<Rightarrow> 'w session \<Rightarrow> bool" where
  "srv_ok s s' \<longleftrightarrow> safe_step (nv s) (nv s') \<and> input s' = input s \<and> (threadActive s' \<longrightarrow> threadActive s)"

text \<open>
  The pieces in which a message arrives: none is empty and only the last ends with a newline.
\<close>

fun short_chunks :: "byte list list \<Rightarrow> bool" where
  "short_chunks [] = False"
| "short_chunks [c] = (c \<noteq> [] \<and> last c = 10)"
| "short_chunks (c # d # cs) = (c \<noteq> [] \<and> last c \<noteq> 10 \<and> short_chunks (d # cs))"

text \<open>
  The allocation of the message buffer succeeds and returns the block \<open>a\<close>.
\<close>

definition mallocs :: "'w host \<Rightarrow> 'w session \<Rightarrow> nat \<Rightarrow> bool" where
  "mallocs H s a \<longleftrightarrow> (\<exists>bs. malloc H (mem (nv s)) RECV_BUFFER_LENGTH_BYTES = Some (a, bs) \<and> length bs = RECV_BUFFER_LENGTH_BYTES)"

text \<open>
  The session after the receive loop left the memory \<open>h\<close> and the rest \<open>r\<close> of the stream.
\<close>

definition arrived :: "recv_result list \<Rightarrow> heap \<Rightarrow> 'w session \<Rightarrow> 'w session" where
  "arrived r h s = s\<lparr>nv := (nv s)\<lparr>mem := h\<rparr>, input := r\<rparr>"

text \<open>
  \<open>realloc\<close> succeeds and keeps the bytes of the block; what follows them is not specified.
\<close>

definition realloc_ok :: "'w host \<Rightarrow> bool" where
  "realloc_ok H \<longleftrightarrow> (\<forall>h a bs n. h a = Some bs \<longrightarrow> length bs \<le> n \<longrightarrow>
     (\<exists>a' bs'. realloc H h a n = Some (a', bs') \<and> length bs' = n \<and> take (length bs) bs' = bs))"

text \<open>
  What the partition table says of a partition, and the assumption on libparted the performance jobs
  need: looking the device up, opening it, reading its label and releasing it, which may all fail, do not change
  the table, and a label that was read shows it. The device may be missing at some moment at which the
  table is the same.
\<close>

record part_entry =
  ename :: "string option"
  estart :: int
  elength :: int
  eend :: int

definition entry :: "'w parted \<Rightarrow> 'w \<Rightarrow> nat \<Rightarrow> part_entry" where
  "entry P w p = \<lparr>ename = ped_partition_get_name P p w, estart = geom_start P p w,
     elength = geom_length P p w, eend = geom_end P p w\<rparr>"

definition stable_table :: "'w parted \<Rightarrow> ('w \<Rightarrow> int \<Rightarrow> part_entry option) \<Rightarrow> bool" where
  "stable_table P tbl \<longleftrightarrow>
     (\<forall>w. tbl (snd (ped_device_get P devicePath w)) = tbl w) \<and>
     (\<forall>dev w. tbl (snd (ped_device_open P dev w)) = tbl w) \<and>
     (\<forall>dev w. tbl (snd (ped_disk_new P dev w)) = tbl w) \<and>
     (\<forall>v dev disk v'. opens P no_greeting v dev disk v' \<longrightarrow>
        (\<forall>n. map_option (entry P (lib v')) (ped_disk_get_partition P disk n (lib v')) = tbl (lib v) n)) \<and>
     (\<forall>v dev disk. tbl (lib (release_disk P dev disk v)) = tbl (lib v))"

definition device_missing :: "'w parted \<Rightarrow> ('w \<Rightarrow> int \<Rightarrow> part_entry option) \<Rightarrow> 'w \<Rightarrow> bool" where
  "device_missing P tbl w \<longleftrightarrow> (\<exists>w'. tbl w' = tbl w \<and> fst (ped_device_get P devicePath w') = None)"

text \<open>
  A host to evaluate the thread on, its fresh memory filled with the byte 170, sessions on the small
  drive, and a drive whose device is not found at the first lookup.
\<close>

definition example_host :: "'w host" where
  "example_host = \<lparr>malloc = (\<lambda>h n. Some (n, replicate n 170)),
     realloc = (\<lambda>h a n. Some (a, (case h a of None \<Rightarrow> [] | Some bs \<Rightarrow> take n bs) @
        replicate (n - length (case h a of None \<Rightarrow> [] | Some bs \<Rightarrow> bs)) 170)),
     perf_start = (\<lambda>k j w. w), negative_duration = (\<lambda>d. sint d < 0)\<rparr>"

definition example_session :: "string list \<Rightarrow> xpart list session" where
  "example_session cs = session_start (map (\<lambda>c. RecvData (bytes_of_text c)) cs) example_drive"

definition flaky_parted :: "xpart list parted" where
  "flaky_parted = example_parted\<lparr>ped_device_get := (\<lambda>path w.
     if xdata (hd w) = [] then (None, map (\<lambda>x. x\<lparr>xdata := [1]\<rparr>) w) else (Some 0, w))\<rparr>"

definition flaky_drive :: "xpart list nv" where
  "flaky_drive = example_drive\<lparr>lib := map (\<lambda>x. x\<lparr>xdata := []\<rparr>) (lib example_drive)\<rparr>"

definition example_table :: "xpart list \<Rightarrow> int \<Rightarrow> part_entry option" where
  "example_table w n = map_option (entry example_parted w) (find_part n w)"

text \<open>
  A drive with sectors of 512 bytes and one partition to read from.
\<close>

definition sector_parted :: "xpart list parted" where
  "sector_parted = example_parted\<lparr>dev_sector_size := (\<lambda>dev w. 512),
     ped_geometry_read := (\<lambda>p off count w. (True, take (nat (512 * count)) (xdata (w ! p)), w))\<rparr>"

definition sector_session :: "xpart list session" where
  "sector_session = session_start [] (example_drive\<lparr>lib :=
     [\<lparr>xnum = 1, xname = Some ''root'', xstart = 34, xend = 99, xdata = replicate 512 65\<rparr>]\<rparr>)"

section \<open>What the commands keep\<close>

lemma session_sel [simp]:
  "nv (send t s) = nv s" "input (send t s) = input s" "threadActive (send t s) = threadActive s" "jobs (send t s) = jobs s" "perfJob (send t s) = perfJob s"
  "nv (reply t s) = nv s" "input (reply t s) = input s" "threadActive (reply t s) = threadActive s" "jobs (reply t s) = jobs s" "perfJob (reply t s) = perfJob s"
  "nv (redirected s) = nv s" "input (redirected s) = input s" "threadActive (redirected s) = threadActive s" "jobs (redirected s) = jobs s" "perfJob (redirected s) = perfJob s"
  by (simp_all add: send_def reply_def redirected_def)

lemma usage_sel [simp]: "nv (sendCommandUsage s) = nv s" "input (sendCommandUsage s) = input s"
  "threadActive (sendCommandUsage s) = threadActive s" "jobs (sendCommandUsage s) = jobs s"
proof -
  have "nv (fold send ts s) = nv s \<and> input (fold send ts s) = input s \<and> threadActive (fold send ts s) = threadActive s \<and> jobs (fold send ts s) = jobs s" for ts
    by (induction ts arbitrary: s) auto
  then show "nv (sendCommandUsage s) = nv s" "input (sendCommandUsage s) = input s"
    "threadActive (sendCommandUsage s) = threadActive s" "jobs (sendCommandUsage s) = jobs s" by (simp_all add: sendCommandUsage_def)
qed

lemma srv_ok_refl [simp]: "srv_ok s s"
  by (simp add: srv_ok_def)

lemma srv_ok_trans: "srv_ok s s1 \<Longrightarrow> srv_ok s1 s2 \<Longrightarrow> srv_ok s s2"
  unfolding srv_ok_def by (metis safe_step_trans)

lemma safe_step_mem: "safe_step (v\<lparr>mem := h\<rparr>) v' = safe_step v v'" "safe_step v (v'\<lparr>mem := h\<rparr>) = safe_step v v'"
  "safe_step (v\<lparr>lib := w\<rparr>) v' = safe_step v v'" "safe_step v (v'\<lparr>lib := w\<rparr>) = safe_step v v'" "safe_step v (say t v') = safe_step v v'"
  by (simp_all add: safe_step_def)

lemma srv_ok_simps [simp]:
  "srv_ok s (reply t x) = srv_ok s x" "srv_ok s (send t x) = srv_ok s x" "srv_ok s (redirected x) = srv_ok s x"
  "srv_ok s (x\<lparr>nv := v\<rparr>) \<longleftrightarrow> safe_step (nv s) v \<and> input x = input s \<and> (threadActive x \<longrightarrow> threadActive s)"
  "srv_ok s (x\<lparr>perfJob := j\<rparr>) = srv_ok s x" "srv_ok (s\<lparr>perfJob := j\<rparr>) x = srv_ok s x" "srv_ok s (x\<lparr>jobs := js\<rparr>) = srv_ok s x"
  by (simp_all add: srv_ok_def)

lemma s_malloc_ok: "s_malloc H n s = (p, s') \<Longrightarrow> srv_ok s s' \<and> srv_ok s' s \<and> calls (nv s') = calls (nv s) \<and> input s' = input s \<and> threadActive s' = threadActive s \<and> lib (nv s') = lib (nv s)"
  by (auto simp: s_malloc_def srv_ok_def safe_step_mem split: option.splits)

lemma s_free_ok: "s_free p s = Some s' \<Longrightarrow> srv_ok s s'"
  by (auto simp: s_free_def srv_ok_def safe_step_mem)

lemma cmd_status_ok: "srv_ok s (cmd_status P s)"
  by (simp add: cmd_status_def srv_ok_def status_safe)

lemma cmd_listparts_ok: "cmd_listparts P s = Some s' \<Longrightarrow> srv_ok s s'"
  by (auto simp: cmd_listparts_def Let_def intro: list_safe split: bind_splits if_splits)

lemma cmd_mkpart_ok: "cmd_mkpart P a1 s = Some s' \<Longrightarrow> srv_ok s s'"
  by (auto simp: cmd_mkpart_def Let_def intro: create_safe split: bind_splits if_splits)

lemma cmd_rmpart_ok: "cmd_rmpart P a1 s = Some s' \<Longrightarrow> srv_ok s s'"
  by (auto simp: cmd_rmpart_def Let_def intro: delete_safe split: bind_splits if_splits)

lemma cmd_write_ok: "cmd_write P a a1 a2 off a3 s = Some s' \<Longrightarrow> srv_ok s s'"
  by (auto simp: cmd_write_def Let_def intro: write_safe split: bind_splits if_splits option.splits)

lemma read_sectors_ok:
  assumes "read_sectors H P part off n hex s = Some s'"
  shows "srv_ok s s'"
proof -
  let ?size = "size_of_int (n * 512)"
  obtain p s1 where m: "s_malloc H (unat ?size) s = (p, s1)" by fastforce
  obtain rc v where v: "nvmeReadPartitionSector P part off (p, 0) ?size (nv s1) = Some (rc, v)"
    using assms by (auto simp: read_sectors_def m Let_def split: bind_splits if_splits)
  have v': "safe_step (nv s1) v" using read_safe [OF v] .
  have f: "srv_ok s1 s'" if "s_free p x = Some s'" "srv_ok s1 x" for x
    using srv_ok_trans [OF that(2) s_free_ok [OF that(1)]] .
  have "srv_ok s1 s'" using assms v m
    by (auto simp: read_sectors_def Let_def v' safe_step_mem elim!: f split: bind_splits if_splits)
  with s_malloc_ok [OF m] srv_ok_trans show ?thesis by blast
qed

lemma cmd_read_ok: "cmd_read H P a1 a2 a3 ex s = Some s' \<Longrightarrow> srv_ok s s'"
  using read_sectors_ok [of H P _ _ _ _ "reply _ s" s'] read_sectors_ok [of H P _ _ _ _ s s']
  by (auto simp: cmd_read_def Let_def srv_ok_def split: if_splits option.splits)

lemma perf_name_check_ok:
  "perf_name_check P kind part s = Some r \<Longrightarrow> srv_ok s (case r of Inl s' \<Rightarrow> s' | Inr s' \<Rightarrow> s')"
  by (auto simp: perf_name_check_def Let_def intro: name_part_safe split: bind_splits if_splits)

lemma perf_run_ok:
  assumes "perf_run H P kind part s = Some s'"
  shows "srv_ok s s'"
proof -
  have c: "safe_step v1 v3" if "safe_step v1 v2" "safe_step v2 v3" for v1 v2 v3 :: "'a nv"
    using that by (rule safe_step_trans)
  show ?thesis using assms
    by (auto simp: perf_run_def Let_def safe_step_mem split: bind_splits if_splits
       dest!: lba_check_safe lba_start_safe lba_end_safe) (blast intro: c)+
qed

lemma cmd_perf_ok:
  assumes "cmd_perf H P kind a1 a2 a3 ex s = Some s'"
  shows "srv_ok s s'"
proof (cases "\<exists>b1 b2 b3 x. (a1, a2, a3, ex) = (Some b1, Some b2, Some b3, Some x)")
  case False
  with assms show ?thesis by (auto simp: cmd_perf_def split: option.splits)
next
  case True
  then obtain b1 b2 b3 x where a: "a1 = Some b1" "a2 = Some b2" "a3 = Some b3" "ex = Some x" by auto
  define j where "j = \<lparr>lbaRange = \<lparr>startlba = atoi b2, endlba = atoi b3\<rparr>, duration_ms = atoi x\<rparr>"
  from assms obtain r where r: "perf_name_check P kind (atoi b1) (s\<lparr>perfJob := j\<rparr>) = Some r"
    "(case r of Inl s2 \<Rightarrow> Some s2 | Inr s2 \<Rightarrow> perf_run H P kind (atoi b1) s2) = Some s'"
    by (auto simp: cmd_perf_def a j_def Let_def split: bind_splits)
  from perf_name_check_ok [OF r(1)] have "srv_ok s (case r of Inl s2 \<Rightarrow> s2 | Inr s2 \<Rightarrow> s2)" by simp
  with r(2) show ?thesis by (cases r) (auto intro: srv_ok_trans perf_run_ok)
qed

lemma dispatch_ok:
  assumes "dispatch H P a buf tk c s = Some s'" shows "srv_ok s s'"
proof -
  note ok = cmd_status_ok cmd_listparts_ok cmd_mkpart_ok cmd_rmpart_ok cmd_write_ok cmd_read_ok cmd_perf_ok
  have "srv_ok s (sendCommandUsage s)" "srv_ok s (s\<lparr>threadActive := False\<rparr>)" by (simp_all add: srv_ok_def)
  with assms ok show ?thesis
    unfolding dispatch_def cmd_seq_write_def cmd_seq_read_def cmd_rand_write_def cmd_rand_read_def Let_def by (auto split: if_splits)
qed

lemma handle_message_ok:
  assumes "handle_message H P a s = Some s'"
  shows "srv_ok s s'"
proof -
  from assms obtain bs tk buf where m: "mem (nv s) a = Some bs" "tokenize bs = Some (tk, buf)"
    "(case tcmd tk of None \<Rightarrow> Some (s\<lparr>nv := (nv s)\<lparr>mem := (mem (nv s))(a \<mapsto> buf)\<rparr>\<rparr>)
      | Some c \<Rightarrow> dispatch H P a buf tk (cstring buf c) (s\<lparr>nv := (nv s)\<lparr>mem := (mem (nv s))(a \<mapsto> buf)\<rparr>\<rparr>)) = Some s'"
    by (auto simp: handle_message_def Let_def split: bind_splits if_splits)
  have ok: "srv_ok s (s\<lparr>nv := (nv s)\<lparr>mem := (mem (nv s))(a \<mapsto> buf)\<rparr>\<rparr>)" by (simp add: safe_step_mem)
  show ?thesis
  proof (cases "tcmd tk")
    case None
    with m(3) ok show ?thesis by auto
  next
    case (Some c)
    with m(3) have "dispatch H P a buf tk (cstring buf c) (s\<lparr>nv := (nv s)\<lparr>mem := (mem (nv s))(a \<mapsto> buf)\<rparr>\<rparr>) = Some s'"
      by simp
    from srv_ok_trans [OF ok dispatch_ok [OF this]] show ?thesis .
  qed
qed

section \<open>The receive loop\<close>

lemma recv_loop_step:
  assumes "recv_loop H cap n a h inp = Some (out, h', inp')"
  obtains (toss) "recv_grow H cap n a h = None" "n = cap" "out = Tossed" "h' = h(a := None)" "inp' = inp"
  | (closed) cap' a' h1 where "recv_grow H cap n a h = Some (cap', a', h1)" "out = Message a' True" "h' = h1"
      "recv_size inp' \<le> recv_size inp" "set inp' \<subseteq> set inp"
  | (failed) cap' a' h1 where "recv_grow H cap n a h = Some (cap', a', h1)" "out = Failed" "h' = h1(a' := None)"
      "recv_size inp' < recv_size inp" "set inp' \<subseteq> set inp"
  | (silent) "out = Silent" "inp' = inp" "RecvSilent \<in> set inp"
  | (got) cap' a' h1 bs r m h2 inp1 where "recv_grow H cap n a h = Some (cap', a', h1)"
      "inp = RecvData bs # r" "m = min (length bs) (cap' - n)" "0 < m"
      "inp1 = (if m < length bs then RecvData (drop m bs) # r else r)" "recv_size inp1 < recv_size inp"
      "mem_write h1 (Ptr a') n (take m bs) = Some h2"
      "out = Message a' False \<and> h' = h2 \<and> inp' = inp1 \<or> recv_loop H cap' (n + m) a' h2 inp1 = Some (out, h', inp')"
proof (cases "recv_grow H cap n a h")
  case None
  then have "n = cap" by (auto simp: recv_grow_def split: if_splits)
  with None assms toss show ?thesis by (subst (asm) recv_loop.simps) simp
next
  case (Some g)
  obtain cap' a' h1 where g: "g = (cap', a', h1)" by (cases g)
  show ?thesis
  proof (cases inp)
    case Nil
    with assms Some g closed show ?thesis by (subst (asm) recv_loop.simps) simp
  next
    case (Cons x r)
    show ?thesis
    proof (cases x)
      case RecvError
      with assms Some g Cons failed show ?thesis by (subst (asm) recv_loop.simps) (auto simp: subset_insertI)
    next
      case RecvSilent
      with assms Some g Cons silent show ?thesis by (subst (asm) recv_loop.simps) auto
    next
      case (RecvData bs)
      let ?m = "min (length bs) (cap' - n)"
      let ?inp = "if ?m < length bs then RecvData (drop ?m bs) # r else r"
      show ?thesis
      proof (cases "?m = 0")
        case True
        with assms Some g Cons RecvData closed show ?thesis by (subst (asm) recv_loop.simps) (auto simp: subset_insertI)
      next
        case False
        with assms Some g Cons RecvData obtain h2 where "mem_write h1 (Ptr a') n (take ?m bs) = Some h2"
          "out = Message a' False \<and> h' = h2 \<and> inp' = ?inp \<or> recv_loop H cap' (n + ?m) a' h2 ?inp = Some (out, h', inp')"
          by (subst (asm) recv_loop.simps) (auto simp: Let_def split: bind_splits if_splits)
        moreover have "recv_size ?inp < recv_size inp" using False Cons RecvData by auto
        ultimately show ?thesis using got [of cap' a' h1 bs r ?m ?inp h2] Some g Cons RecvData False by blast
      qed
    qed
  qed
qed

lemma recv_loop_size:
  assumes "recv_loop H cap n a h inp = Some (out, h', inp')"
  shows "recv_size inp' \<le> recv_size inp \<and>
    (n < cap \<longrightarrow> (\<forall>b. out \<noteq> Message b True) \<longrightarrow> out \<noteq> Silent \<longrightarrow> recv_size inp' < recv_size inp)"
  using assms
proof (induction "recv_size inp" arbitrary: cap n a h inp rule: less_induct)
  case less
  from less.prems show ?case
  proof (cases rule: recv_loop_step)
    case (got cap' a' h1 bs r m h2 inp1)
    from got(8) show ?thesis
    proof
      assume "recv_loop H cap' (n + m) a' h2 inp1 = Some (out, h', inp')"
      from less.hyps [OF got(6) this] got(6) show ?thesis by simp
    qed (use got(6) in simp)
  qed auto
qed

lemma recv_loop_silent:
  assumes "recv_loop H cap n a h inp = Some (out, h', inp')"
  shows "(RecvSilent \<in> set inp' \<longrightarrow> RecvSilent \<in> set inp) \<and> (out = Silent \<longrightarrow> RecvSilent \<in> set inp)"
  using assms
proof (induction "recv_size inp" arbitrary: cap n a h inp rule: less_induct)
  case less
  from less.prems show ?case
  proof (cases rule: recv_loop_step)
    case (got cap' a' h1 bs r m h2 inp1)
    then have "RecvSilent \<in> set inp1 \<longrightarrow> RecvSilent \<in> set inp" by (auto split: if_splits)
    with got(8) less.hyps [OF got(6)] show ?thesis by auto
  qed auto
qed

section \<open>The thread\<close>

lemma thread_round_ok:
  assumes "thread_round H P s = Some r"
  shows "case r of Early s' \<Rightarrow> safe_step (nv s) (nv s') | Waits s' \<Rightarrow> safe_step (nv s) (nv s')
    | Again s' \<Rightarrow> safe_step (nv s) (nv s') \<and> (threadActive s' \<longrightarrow> recv_size (input s') < recv_size (input s))"
proof -
  obtain p s1 where m: "s_malloc H RECV_BUFFER_LENGTH_BYTES s = (p, s1)" by fastforce
  note m' = s_malloc_ok [OF m]
  obtain h out h' inp where l: "recv_loop H RECV_BUFFER_LENGTH_BYTES 0 (case p of NULL \<Rightarrow> 0 | Ptr a \<Rightarrow> a) h (input s1) = Some (out, h', inp)"
    "(case out of Failed \<Rightarrow> Some (Early (s1\<lparr>nv := (nv s1)\<lparr>mem := h'\<rparr>, input := inp\<rparr>))
      | Silent \<Rightarrow> Some (Waits (s1\<lparr>nv := (nv s1)\<lparr>mem := h'\<rparr>, input := inp\<rparr>))
      | Tossed \<Rightarrow> Some (Again (s1\<lparr>nv := (nv s1)\<lparr>mem := h'\<rparr>, input := inp\<rparr>))
      | Message a closed \<Rightarrow> map_option Again (handle_message H P a
         (if closed then s1\<lparr>nv := (nv s1)\<lparr>mem := h'\<rparr>, input := inp, threadActive := False\<rparr> else s1\<lparr>nv := (nv s1)\<lparr>mem := h'\<rparr>, input := inp\<rparr>))) = Some r"
    using assms by (auto simp: thread_round_def m Let_def split: bind_splits)
  have sz: "(\<forall>b. out \<noteq> Message b True) \<longrightarrow> out \<noteq> Silent \<longrightarrow> recv_size inp < recv_size (input s)"
    using recv_loop_size [OF l(1)] m' by (simp add: RECV_BUFFER_LENGTH_BYTES_def)
  have sf: "safe_step (nv s) (nv s1\<lparr>mem := h'\<rparr>)" using m' by (simp add: safe_step_def)
  show ?thesis
  proof (cases out)
    case (Message a closed)
    then obtain s' where s': "r = Again s'" "handle_message H P a
        (if closed then s1\<lparr>nv := (nv s1)\<lparr>mem := h'\<rparr>, input := inp, threadActive := False\<rparr> else s1\<lparr>nv := (nv s1)\<lparr>mem := h'\<rparr>, input := inp\<rparr>) = Some s'"
      using l(2) by auto
    from handle_message_ok [OF s'(2)] sz sf safe_step_trans [OF sf] s'(1) Message show ?thesis
      by (auto simp: srv_ok_def safe_step_mem split: if_splits)
  qed (use l(2) sz sf in auto)
qed

lemma thread_round_silent:
  assumes "thread_round H P s = Some r"
  shows "case r of Waits s' \<Rightarrow> RecvSilent \<in> set (input s)
    | Again s' \<Rightarrow> RecvSilent \<in> set (input s') \<longrightarrow> RecvSilent \<in> set (input s) | Early s' \<Rightarrow> True"
proof -
  obtain p s1 where m: "s_malloc H RECV_BUFFER_LENGTH_BYTES s = (p, s1)" by fastforce
  then have i: "input s1 = input s" using s_malloc_ok [OF m] by simp
  show ?thesis using assms
    by (auto simp: thread_round_def m i Let_def srv_ok_def dest!: recv_loop_silent handle_message_ok
      split: bind_splits recv_outcome.splits if_splits)
qed

lemma thread_loop_ends:
  assumes "recv_size (input s) + 1 < fuel"
  shows "thread_loop H P E fuel k s \<noteq> OutOfFuel"
  using assms
proof (induction fuel arbitrary: k s)
  case (Suc fuel)
  show ?case
  proof (cases "threadActive s \<and> \<not> E k")
    case True
    show ?thesis
    proof (cases "thread_round H P s")
      case (Some r)
      note ok = thread_round_ok [OF Some]
      show ?thesis
      proof (cases r)
        case (Again s')
        show ?thesis
        proof (cases "threadActive s'")
          case True
          then have "recv_size (input s') + 1 < fuel" using ok Again Suc.prems by simp
          from Suc.IH [OF this] Some Again show ?thesis by simp
        next
          case False
          moreover obtain f where "fuel = Suc f" using Suc.prems by (cases fuel) auto
          ultimately show ?thesis using Some Again by simp
        qed
      qed (use Some in simp_all)
    qed simp
  qed auto
qed simp

lemma thread_loop_safe:
  "case thread_loop H P E fuel k s of
     Finished s' \<Rightarrow> safe_step (nv s) (nv s') \<and> (threadActive s' \<longrightarrow> (\<exists>j. E j))
   | Aborted s' \<Rightarrow> safe_step (nv s) (nv s') | Stays s' \<Rightarrow> safe_step (nv s) (nv s') \<and> RecvSilent \<in> set (input s) | _ \<Rightarrow> True"
proof (induction fuel arbitrary: k s)
  case (Suc fuel)
  show ?case
  proof (cases "threadActive s \<and> \<not> E k")
    case True
    show ?thesis
    proof (cases "thread_round H P s")
      case (Some r)
      note ok = thread_round_ok [OF Some] and silent = thread_round_silent [OF Some]
      show ?thesis
      proof (cases r)
        case (Early s')
        with Some ok True show ?thesis by simp
      next
        case (Again s')
        from Suc.IH [of s' "Suc k"] ok silent Again Some True show ?thesis
          by (auto split: thread_end.splits intro: safe_step_trans)
      qed (use Some ok silent True in simp)
    qed (use True in simp)
  qed auto
qed simp

lemma session_start_sel [simp]:
  "nv (session_start inp v) = v" "input (session_start inp v) = inp" "threadActive (session_start inp v)"
  "jobs (session_start inp v) = []"
  by (simp_all add: session_start_def)

section \<open>Receiving a message\<close>

lemma recv_write_last:
  assumes "h a = Some bs" "n + length xs \<le> length bs" "xs \<noteq> []"
  shows "mem_write h (Ptr a) n xs = Some (h(a \<mapsto> take n bs @ xs @ drop (n + length xs) bs))"
    "mem_read (h(a \<mapsto> take n bs @ xs @ drop (n + length xs) bs)) (Ptr a) (n + length xs - 1) 1 = Some [last xs]"
proof -
  show "mem_write h (Ptr a) n xs = Some (h(a \<mapsto> take n bs @ xs @ drop (n + length xs) bs))"
    using assms by (intro mem_write_live) auto
  have "drop (n + length xs - 1) (take n bs @ xs @ drop (n + length xs) bs) = last xs # drop (n + length xs) bs"
    using assms by (cases xs rule: rev_cases) simp_all
  then show "mem_read (h(a \<mapsto> take n bs @ xs @ drop (n + length xs) bs)) (Ptr a) (n + length xs - 1) 1 = Some [last xs]"
    using assms by (subst mem_read_live [of _ _ "take n bs @ xs @ drop (n + length xs) bs"]) simp_all
qed

lemma int_overflows_nat [simp]: "int_overflows n \<longleftrightarrow> 2 ^ 31 \<le> n"
  by (simp add: int_overflows_def)

lemma recv_step_data:
  assumes "recv_grow H cap n a h = Some (cap', a', h1)" "h1 a' = Some bs" "length bs = cap'" "n < cap'" "c \<noteq> []"
  shows "recv_loop H cap n a h (RecvData c # r) = (if 2 ^ 31 \<le> n + min (length c) (cap' - n) then None else
    let m = min (length c) (cap' - n); xs = take m c; h2 = h1(a' \<mapsto> take n bs @ xs @ drop (n + m) bs);
         inp' = (if m < length c then RecvData (drop m c) # r else r)
     in if last xs = 10 then Some (Message a' False, h2, inp') else recv_loop H cap' (n + m) a' h2 inp')"
proof -
  define m where "m = min (length c) (cap' - n)"
  have m: "0 < m" "length (take m c) = m" "take m c \<noteq> []" using assms by (auto simp: m_def)
  have "n + length (take m c) \<le> length bs" using assms by (simp add: m_def)
  note w = recv_write_last [where h = h1 and a = a' and bs = bs, OF assms(2) this m(3), unfolded m(2)]
  show ?thesis using assms(1) m w by (subst recv_loop.simps) (simp add: Let_def m_def [symmetric])
qed

lemma recv_short:
  assumes "short_chunks cs" "h a = Some (pre @ z)" "length (pre @ z) = cap" "length pre + length (concat cs) \<le> cap" "cap < 2 ^ 31"
  shows "recv_loop H cap (length pre) a h (map RecvData cs @ r) =
    Some (Message a False, h(a \<mapsto> pre @ concat cs @ drop (length (concat cs)) z), r)"
  using assms
proof (induction cs arbitrary: pre z h rule: short_chunks.induct)
  case (2 c)
  then have g: "recv_grow H cap (length pre) a h = Some (cap, a, h)" by (cases c) (auto simp: recv_grow_def)
  have l: "length pre < cap" using 2 by (cases c) auto
  from recv_step_data [OF g 2(2,3) l, of c] 2 show ?case by (auto simp: min_absorb1 Let_def fun_eq_iff)
next
  case (3 c d cs)
  then have g: "recv_grow H cap (length pre) a h = Some (cap, a, h)" by (cases c) (auto simp: recv_grow_def)
  have l: "length pre < cap" using 3 by (cases c) auto
  let ?h = "h(a \<mapsto> pre @ c @ drop (length c) z)"
  have "recv_loop H cap (length pre) a h (map RecvData (c # d # cs) @ r) =
    recv_loop H cap (length (pre @ c)) a ?h (map RecvData (d # cs) @ r)"
    using recv_step_data [OF g 3(3,4) l, of c] 3 by (simp add: min_absorb1 Let_def)
  also have "\<dots> = Some (Message a False, ?h(a \<mapsto> (pre @ c) @ concat (d # cs) @ drop (length (concat (d # cs))) (drop (length c) z)), r)"
    using 3 by (intro "3.IH") auto
  finally show ?case by (simp add: add_ac fun_eq_iff)
qed simp

lemma arrived_sel [simp]:
  "mem (nv (arrived r h s)) = h" "calls (nv (arrived r h s)) = calls (nv s)"
  "(arrived r h s)\<lparr>nv := (nv (arrived r h s))\<lparr>mem := h'\<rparr>\<rparr> = arrived r h' s"
  by (simp_all add: arrived_def)

lemma round_short:
  assumes "mallocs H s a" "short_chunks cs" "length (concat cs) \<le> RECV_BUFFER_LENGTH_BYTES" "input s = map RecvData cs @ r"
  shows "thread_round H P s = map_option Again (handle_message H P a
    (arrived r ((mem (nv s))(a \<mapsto> concat cs @ replicate (RECV_BUFFER_LENGTH_BYTES - length (concat cs)) 0)) s))"
proof -
  let ?n = "RECV_BUFFER_LENGTH_BYTES" and ?h = "mem (nv s)"
  obtain bs where bs: "malloc H ?h ?n = Some (a, bs)" "length bs = ?n" using assms(1) by (auto simp: mallocs_def)
  have w: "mem_write (?h(a \<mapsto> bs)) (Ptr a) 0 (replicate ?n 0) = Some (?h(a \<mapsto> replicate ?n 0))"
    using mem_write_live [where h = "?h(a \<mapsto> bs)" and a = a and bs = bs and off = 0 and xs = "replicate ?n 0"] bs(2) by simp
  have "recv_loop H ?n (length ([] :: byte list)) a (?h(a \<mapsto> replicate ?n 0)) (map RecvData cs @ r) =
    Some (Message a False, (?h(a \<mapsto> replicate ?n 0))(a \<mapsto> [] @ concat cs @ drop (length (concat cs)) (replicate ?n 0)), r)"
    using assms by (intro recv_short) (auto simp: RECV_BUFFER_LENGTH_BYTES_def)
  then show ?thesis using w bs assms(4) by (simp add: thread_round_def s_malloc_def Let_def arrived_def)
qed

lemma message_tokens:
  assumes "mallocs H s a" "short_chunks cs" "length (concat cs) < RECV_BUFFER_LENGTH_BYTES" "0 \<notin> set (concat cs)"
    "input s = map RecvData cs @ r"
  obtains tk buf where "map (map_option (cstring buf)) (token_list tk) = take 5 (map Some (words (concat cs)) @ replicate 5 None)"
    "length buf = RECV_BUFFER_LENGTH_BYTES"
    "thread_round H P s = (let s1 = arrived r ((mem (nv s))(a \<mapsto> buf)) s in
       case words (concat cs) of [] \<Rightarrow> Some (Again s1) | w # _ \<Rightarrow> map_option Again (dispatch H P a buf tk w s1))"
proof -
  let ?n = "RECV_BUFFER_LENGTH_BYTES" and ?m = "concat cs"
  obtain z :: "byte list" where z: "replicate (?n - length ?m) 0 = 0 # z" using assms(3) by (cases "?n - length ?m") auto
  from tokenize_spec [OF assms(4), of z] obtain tk buf where t: "tokenize (?m @ 0 # z) = Some (tk, buf)"
    "length buf = length (?m @ 0 # z)" "map (map_option (cstring buf)) (token_list tk) = take 5 (map Some (words ?m) @ replicate 5 None)" .
  have l: "length buf = ?n" unfolding t(2) z [symmetric] using assms(3) by simp
  have c: "map_option (cstring buf) (tcmd tk) = (case words ?m of [] \<Rightarrow> None | w # _ \<Rightarrow> Some w)"
    using t(3) by (auto simp: token_list_def numeral_nat split: list.splits)
  have "handle_message H P a (arrived r ((mem (nv s))(a \<mapsto> ?m @ 0 # z)) s) =
    (let s1 = arrived r ((mem (nv s))(a \<mapsto> buf)) s in
       case words ?m of [] \<Rightarrow> Some s1 | w # _ \<Rightarrow> dispatch H P a buf tk w s1)"
    using t(1) c by (auto simp: handle_message_def Let_def split: list.splits option.splits)
  then have "thread_round H P s = (let s1 = arrived r ((mem (nv s))(a \<mapsto> buf)) s in
       case words ?m of [] \<Rightarrow> Some (Again s1) | w # _ \<Rightarrow> map_option Again (dispatch H P a buf tk w s1))"
    using round_short [OF assms(1,2) _ assms(5), of P] assms(3) z by (simp add: Let_def split: list.splits)
  with that t(3) l show ?thesis by blast
qed

lemma text_of_bytes [simp]: "text_of (bytes_of_text t) = t"
  by (simp add: text_of_def bytes_of_text_def map_idI)

section \<open>Commands\<close>

lemma is_cmd_bytes [simp]:
  "CHR 0x00 \<notin> set name \<Longrightarrow> CHR 0x00 \<notin> set t \<Longrightarrow> is_cmd (bytes_of_text t) name \<longleftrightarrow> t = name"
  using strncmp_full [of t name] by (simp add: is_cmd_def)

lemma unterminated_message_faults:
  assumes "mallocs H s a" "short_chunks cs" "length (concat cs) = RECV_BUFFER_LENGTH_BYTES" "0 \<notin> set (concat cs)"
    "input s = map RecvData cs @ r"
  shows "thread_round H P s = None"
  using round_short [OF assms(1,2) _ assms(5), of P] assms(3,4) by (simp add: handle_message_def arrived_def)


lemma missing_argument_faults:
  assumes "mallocs H s a" "short_chunks cs" "length (concat cs) < RECV_BUFFER_LENGTH_BYTES" "0 \<notin> set (concat cs)"
    "input s = map RecvData cs @ r"
    and "words (concat cs) \<in> {[bytes_of_text ''mkpart''], [bytes_of_text ''rmpart''], [bytes_of_text ''write'', p]}"
  shows "thread_round H P s = None"
proof -
  from message_tokens [OF assms(1-5), of P] obtain tk buf where
    t: "map (map_option (cstring buf)) (token_list tk) = take 5 (map Some (words (concat cs)) @ replicate 5 None)"
    "thread_round H P s = (let s1 = arrived r ((mem (nv s))(a \<mapsto> buf)) s in
       case words (concat cs) of [] \<Rightarrow> Some (Again s1) | w # _ \<Rightarrow> map_option Again (dispatch H P a buf tk w s1))" .
  have a: "words (concat cs) = [w] \<Longrightarrow> targ1 tk = None" "words (concat cs) = [w, v] \<Longrightarrow> targ2 tk = None" 
    "words (concat cs) = [w, v] \<Longrightarrow> map_option (cstring buf) (targ1 tk) = Some v" for w v
    using t(1) by (auto simp: token_list_def numeral_nat)
  from assms(6) show ?thesis
  proof (elim insertE)
    assume w: "words (concat cs) = [bytes_of_text ''mkpart'']"
    show ?thesis using t(2) w a(1) [OF w] by (simp add: dispatch_def cmd_mkpart_def Let_def)
  next
    assume w: "words (concat cs) = [bytes_of_text ''rmpart'']"
    show ?thesis using t(2) w a(1) [OF w] by (simp add: dispatch_def cmd_rmpart_def Let_def)
  next
    assume w: "words (concat cs) = [bytes_of_text ''write'', p]"
    show ?thesis using t(2) w a(2,3) [OF w] by (simp add: dispatch_def cmd_write_def Let_def)
  qed simp
qed

section \<open>Receiving a long line\<close>

lemma recv_grow_ok:
  assumes "realloc_ok H" "h a = Some bs" "length bs = cap" "n \<le> cap" "0 < cap"
  obtains cap' a' h1 bs' where "recv_grow H cap n a h = Some (cap', a', h1)" "h1 a' = Some bs'" "length bs' = cap'"
    "n < cap'" "take n bs' = take n bs"
proof (cases "n = cap")
  case True
  have "\<exists>a' bs'. realloc H h a (cap * 2) = Some (a', bs') \<and> length bs' = cap * 2 \<and> take (length bs) bs' = bs"
    using assms(1) [unfolded realloc_ok_def, rule_format, of h a bs "cap * 2"] assms by simp
  with True assms that show ?thesis by (auto simp: recv_grow_def)
next
  case False
  with assms that show ?thesis by (auto simp: recv_grow_def)
qed

lemma last_line:
  assumes "10 \<notin> set line" "0 < m" "m \<le> Suc (length line)"
  shows "last (take m (line @ [10 :: byte])) = 10 \<longleftrightarrow> m = Suc (length line)"
proof (cases "m = Suc (length line)")
  case False
  with assms have "m \<le> length line" by simp
  with assms(2) have "take m line \<noteq> []" by (cases line) auto
  then have "last (take m line) \<in> set line" by (metis last_in_set in_set_takeD)
  with assms(1) False \<open>m \<le> length line\<close> show ?thesis by auto
qed simp

text \<open>
  One round of the receive loop on the pieces of a line: the counter overflows, the message is complete, or
  the next \<open>m\<close> bytes of the line are stored and the loop goes on with the rest of it.
\<close>

lemma recv_line_round:
  assumes "realloc_ok H" "h a = Some bs" "length bs = cap" "n \<le> cap" "0 < cap"
    and pieces: "\<forall>c \<in> set cs. c \<noteq> []" and line: "concat cs = line @ [10]" "10 \<notin> set line"
  obtains (overflow) "recv_loop H cap n a h (map RecvData cs @ r) = None" "2 ^ 31 \<le> n + Suc (length line)"
    | (complete) a' h' buf where "recv_loop H cap n a h (map RecvData cs @ r) = Some (Message a' False, h', r)"
      "n + Suc (length line) < 2 ^ 31"
      "h' a' = Some buf" "n + length line < length buf" "take (n + Suc (length line)) buf = take n bs @ line @ [10]"
    | (more) m cap' a' h' bs' cs' where
      "recv_loop H cap n a h (map RecvData cs @ r) = recv_loop H cap' (n + m) a' h' (map RecvData cs' @ r)"
      "0 < m" "m \<le> length line" "h' a' = Some bs'" "length bs' = cap'" "n + m \<le> cap'" "0 < cap'"
      "\<forall>c \<in> set cs'. c \<noteq> []" "concat cs' = drop m line @ [10]" "take (n + m) bs' = take n bs @ take m line"
proof -
  obtain cap' a' h1 bs' where g: "recv_grow H cap n a h = Some (cap', a', h1)" "h1 a' = Some bs'" "length bs' = cap'"
    "n < cap'" "take n bs' = take n bs" using recv_grow_ok [where h = h and a = a, OF assms(1-5)] by blast
  obtain c cs' where cs: "cs = c # cs'" "c \<noteq> []" using pieces line(1) by (cases cs) auto
  define m where "m = min (length c) (cap' - n)"
  have m: "0 < m" "m \<le> length c" "n + m \<le> cap'" using cs g by (auto simp: m_def)
  have c: "c @ concat cs' = line @ [10]" using line(1) cs by simp
  then have lc: "length c + length (concat cs') = Suc (length line)" by (metis length_append_singleton length_append)
  have tk: "take m c = take m (line @ [10])" using c m(2) by (metis append_Nil2 diff_is_0_eq' take_append take0)
  let ?bs = "take n bs' @ take m c @ drop (n + m) bs'"
  define cs2 where "cs2 = (if m < length c then drop m c # cs' else cs')"
  have step: "recv_loop H cap n a h (map RecvData cs @ r) = (if 2 ^ 31 \<le> n + m then None
     else if last (take m c) = 10 then Some (Message a' False, h1(a' \<mapsto> ?bs), map RecvData cs2 @ r)
     else recv_loop H cap' (n + m) a' (h1(a' \<mapsto> ?bs)) (map RecvData cs2 @ r))"
    using recv_step_data [OF g(1-4) cs(2)] cs(1) by (simp add: Let_def m_def [symmetric] cs2_def)
  consider "2 ^ 31 \<le> n + m" | "n + m < 2 ^ 31" "m = Suc (length line)" | "n + m < 2 ^ 31" "m \<noteq> Suc (length line)" by linarith
  then show thesis
  proof cases
    case 1
    then show thesis using overflow step m(2) lc by simp
  next
    case 2
    then have l: "m = length c" "concat cs' = []" using m(2) lc by (linarith, metis add_le_same_cancel1 le_zero_eq length_0_conv)
    have cs2: "cs2 = []" using pieces cs(1) l by (cases cs') (auto simp: cs2_def)
    have c': "take m c = line @ [10]" unfolding tk using 2(2) by simp
    have sm: "\<not> 2 ^ 31 \<le> n + m" "n + Suc (length line) < 2 ^ 31" using 2 by simp_all
    show thesis
      by (rule complete [of a' "h1(a' \<mapsto> ?bs)" ?bs]) (use sm step cs2 g(3,4) in \<open>simp_all add: c' g(5) [symmetric]\<close>)
  next
    case 3
    then have ml: "m \<le> length line" using m lc by simp
    have "concat cs2 = drop m (c @ concat cs')" using m(2) by (simp add: cs2_def)
    then have e: "concat cs2 = drop m line @ [10]" unfolding c using ml by simp
    have tn: "take (n + m) ?bs = take n bs @ take m line" unfolding g(5) [symmetric] tk using g(3,4) m ml by simp
    have "last (take m c) \<noteq> 10" unfolding tk using last_line [OF line(2) m(1)] ml 3(2) by simp
    with step 3(1) have st: "recv_loop H cap n a h (map RecvData cs @ r) =
      recv_loop H cap' (n + m) a' (h1(a' \<mapsto> ?bs)) (map RecvData cs2 @ r)" by simp
    have "\<forall>c \<in> set cs2. c \<noteq> []" using pieces cs(1) by (auto simp: cs2_def)
    with more [OF st m(1) ml _ _ m(3) _ _ e tn] m g(3,4) show thesis by simp
  qed
qed

lemma recv_line:
  assumes "realloc_ok H" "h a = Some bs" "length bs = cap" "n \<le> cap" "0 < cap"
    and "\<forall>c \<in> set cs. c \<noteq> []" "concat cs = line @ [10]" "10 \<notin> set line"
  shows "if n + Suc (length line) < 2 ^ 31
    then \<exists>a' h' buf. recv_loop H cap n a h (map RecvData cs @ r) = Some (Message a' False, h', r) \<and>
      h' a' = Some buf \<and> n + length line < length buf \<and> take (n + Suc (length line)) buf = take n bs @ line @ [10]
    else recv_loop H cap n a h (map RecvData cs @ r) = None"
  using assms(2-)
proof (induction "length line" arbitrary: cs line n cap a h bs rule: less_induct)
  case less
  from assms(1) less.prems show ?case
  proof (cases rule: recv_line_round [where r = r and h = h and a = a])
    case (more m cap' a' h' bs' cs')
    then have l: "length (drop m line) < length line" "10 \<notin> set (drop m line)"
      using less.prems(7) by (auto dest: in_set_dropD)
    have e: "take m line @ drop m line @ [10] = line @ [10]" by (metis append_assoc append_take_drop_id)
    from less.hyps [where h = h' and a = a', OF l(1) more(4-9) l(2), unfolded more(10)] more(1,3) show ?thesis
      by (simp add: e split: if_splits)
  qed auto
qed

lemma opens_mem: "opens P no_greeting s dev disk s1 \<Longrightarrow> mem s1 = mem s"
  by (auto simp: opens_def no_greeting_def Let_def)

section \<open>Reading\<close>

lemma opens_heap:
  assumes "opens P no_greeting v dev disk v'"
  shows "opens P no_greeting (v\<lparr>mem := h\<rparr>) dev disk (v'\<lparr>mem := h\<rparr>)"
  using assms by (auto simp: opens_def no_greeting_def did_def Let_def)

lemma sector_bytes:
  assumes "sint n = int k" "0 < k" "k * 512 < 2 ^ 31"
  shows "unat (size_of_int (n * 512)) = k * 512" "unat (size_of_int (n * 512) - 1) = k * 512 - 1"
    "\<not> 2 ^ 31 \<le> sint n * 512"
proof -
  have n: "n = of_nat k" using assms(1) by (metis of_int_of_nat_eq of_int_sint scast_id)
  have "n * 512 = of_nat (k * 512)" unfolding n by simp
  then have "unat (n * 512) = k * 512" using assms(3) by (simp add: unat_of_nat take_bit_nat_eq_self del: of_nat_mult)
  then show u: "unat (size_of_int (n * 512)) = k * 512" using assms(3) by (simp add: cint_simps)
  then have "1 \<le> size_of_int (n * 512)" using assms(2) by (simp add: word_le_nat_alt)
  from unat_sub [OF this] u show "unat (size_of_int (n * 512) - 1) = k * 512 - 1" by simp
  show "\<not> 2 ^ 31 \<le> sint n * 512" using assms(1,3) by simp
qed

section \<open>Performance jobs\<close>

lemma stable_disk:
  assumes "stable_table P tbl"
  obtains (missing) v' where "tbl (lib v') = tbl (lib v)" "device_missing P tbl (lib v)"
      "with_disk P no_greeting fail v k = Some (fail NVME_STATUS_NOT_FOUND v')"
    | (failed) v' where "tbl (lib v') = tbl (lib v)" "with_disk P no_greeting fail v k = Some (fail NVME_STATUS_ERROR v')"
    | (opened) dev disk v' where "tbl (lib v') = tbl (lib v)" "with_disk P no_greeting fail v k = k dev disk v'"
      "\<forall>n. map_option (entry P (lib v')) (ped_disk_get_partition P disk n (lib v')) = tbl (lib v) n"
proof -
  note keep = assms [unfolded stable_table_def, THEN conjunct1, rule_format, of "lib v"]
    assms [unfolded stable_table_def, THEN conjunct2, THEN conjunct1, rule_format]
    assms [unfolded stable_table_def, THEN conjunct2, THEN conjunct2, THEN conjunct1, rule_format]
  obtain d w where g: "ped_device_get P devicePath (lib v) = (d, w)" by fastforce
  show thesis
  proof (cases d)
    case None
    then have "device_missing P tbl (lib v)" unfolding device_missing_def using g by (intro exI [of _ "lib v"]) simp
    with missing [of "v\<lparr>lib := w\<rparr>"] None g keep(1) show thesis by (simp add: with_disk_def)
  next
    case (Some dev)
    obtain rc w1 where o: "ped_device_open P dev w = (rc, w1)" by fastforce
    obtain disk w2 where n: "ped_disk_new P dev w1 = (disk, w2)" by fastforce
    have t: "tbl w1 = tbl (lib v)" "tbl w2 = tbl (lib v)" using keep(1) keep(2) [of dev w] keep(3) [of dev w1] g o n by simp_all
    show thesis
    proof (cases "rc \<and> disk \<noteq> None")
      case False
      with failed [of "v\<lparr>lib := w1\<rparr>"] failed [of "(did (Opened dev) w1 (v\<lparr>lib := w\<rparr>))\<lparr>lib := w2\<rparr>"] Some g o n t show thesis
        by (cases rc) (auto simp: with_disk_def no_greeting_def)
    next
      case True
      then obtain j where j: "disk = Some j" "rc" by auto
      let ?v = "(did (Opened dev) w1 (v\<lparr>lib := w\<rparr>))\<lparr>lib := w2\<rparr>"
      have op: "opens P no_greeting v dev j ?v" using Some g o n j by (simp add: opens_def no_greeting_def)
      then have "map_option (entry P (lib ?v)) (ped_disk_get_partition P j n (lib ?v)) = tbl (lib v) n" for n
        using assms unfolding stable_table_def by blast
      with opened [of ?v dev j] with_disk_eq [OF op, of fail k] t show thesis by simp
    qed
  qed
qed

lemma stable_release: "stable_table P tbl \<Longrightarrow> tbl (lib (release_disk P dev disk v)) = tbl (lib v)"
  by (simp add: stable_table_def)

lemma stable_part:
  assumes "stable_table P tbl"
  obtains (missing) v' where "tbl (lib v') = tbl (lib v)" "device_missing P tbl (lib v)"
      "with_part P n fail v k = Some (fail NVME_STATUS_NOT_FOUND v')"
    | (failed) v' where "tbl (lib v') = tbl (lib v)" "with_part P n fail v k = Some (fail NVME_STATUS_ERROR v')"
    | (absent) v' where "tbl (lib v') = tbl (lib v)" "tbl (lib v) (uint n) = None"
      "with_part P n fail v k = Some (fail NVME_STATUS_PART_DNE v')"
    | (present) v' p where "tbl (lib v') = tbl (lib v)" "tbl (lib v) (uint n) = Some (entry P (lib v') p)"
      "with_part P n fail v k = Some (k p v')"
proof (rule stable_disk [OF assms, of v fail "\<lambda>dev disk s. case ped_disk_get_partition P disk (uint n) (lib s) of
      None \<Rightarrow> Some (fail NVME_STATUS_PART_DNE (release_disk P dev disk (say (''Specified partition does not exist.'' @ nl) s)))
    | Some part \<Rightarrow> Some (k part s)", folded with_part_def])
  fix dev disk v'
  assume v': "tbl (lib v') = tbl (lib v)" "with_part P n fail v k = (case ped_disk_get_partition P disk (uint n) (lib v') of
      None \<Rightarrow> Some (fail NVME_STATUS_PART_DNE (release_disk P dev disk (say (''Specified partition does not exist.'' @ nl) v')))
    | Some part \<Rightarrow> Some (k part v'))"
    "\<forall>n. map_option (entry P (lib v')) (ped_disk_get_partition P disk n (lib v')) = tbl (lib v) n"
  let ?v = "release_disk P dev disk (say (''Specified partition does not exist.'' @ nl) v')"
  have "tbl (lib ?v) = tbl (lib v)" unfolding stable_release [OF assms] using v'(1) by simp
  then show thesis
  proof (cases "ped_disk_get_partition P disk (uint n) (lib v')")
    case None
    with absent [of ?v] v' v'(3) [rule_format, of "uint n", symmetric] \<open>tbl (lib ?v) = tbl (lib v)\<close> show thesis by simp
  next
    case (Some q)
    with present [of v' q] v' v'(3) [rule_format, of "uint n", symmetric] show thesis by simp
  qed
qed (use missing failed in auto)

text \<open>
  The range check lets a range pass when it is inside the partition, when the device is missing, and when
  there is no such partition, which the next lookup finds out.
\<close>

lemma stable_range:
  assumes "stable_table P tbl"
  obtains rc v' where "tbl (lib v') = tbl (lib v)" "nvmeCheckLbaRangeInPart P n r v = Some (rc, v')"
    "rc \<noteq> NVME_STATUS_ERROR \<longrightarrow> tbl (lib v) (uint n) = Some e \<longrightarrow>
      lba_in_bounds r (estart e) (elength e) (eend e) \<or> device_missing P tbl (lib v)"
  using assms by (rule stable_part [of P tbl v n Pair "\<lambda>part s. (if lba_in_bounds r (geom_start P part (lib s))
      (geom_length P part (lib s)) (geom_end P part (lib s)) then NVME_STATUS_OK else NVME_STATUS_ERROR, s)",
      folded nvmeCheckLbaRangeInPart_def])
    (use that in \<open>fastforce simp: entry_def\<close>)+

lemma stable_start:
  assumes "stable_table P tbl"
  obtains rc x v' where "tbl (lib v') = tbl (lib v)" "nvmeGetStartLbaInPart P n 0 v = Some (rc, x, v')"
    "rc = NVME_STATUS_OK \<longrightarrow> (\<exists>e. tbl (lib v) (uint n) = Some e \<and> x = word_of_int (estart e))"
  using assms by (rule stable_part [of P tbl v n "\<lambda>st s. (st, 0 :: u64, s)"
      "\<lambda>part s. (NVME_STATUS_OK, word_of_int (geom_start P part (lib s)), s)", folded nvmeGetStartLbaInPart_def])
    (use that in \<open>fastforce simp: entry_def\<close>)+

lemma stable_name:
  assumes "stable_table P tbl" "nvmeCheckNameSafetyPartNumber P n v = Some (rc, v')"
  shows "tbl (lib v') = tbl (lib v) \<and> (rc = NVME_STATUS_OK \<longrightarrow> (\<exists>e. tbl (lib v) (uint n) = Some e \<and> aesd_name (ename e)))"
proof (rule stable_disk [OF assms(1), of v Pair "\<lambda>dev disk s. case ped_disk_get_partition P disk (uint n) (lib s) of
      None \<Rightarrow> Some (NVME_STATUS_PART_DNE, release_disk P dev disk (say (''Specified partition does not exist.'' @ nl) s))
    | Some p \<Rightarrow> nvmeCheckNameSafety P p s", folded nvmeCheckNameSafetyPartNumber_def])
  fix dev disk v1
  assume o: "tbl (lib v1) = tbl (lib v)" "nvmeCheckNameSafetyPartNumber P n v = (case ped_disk_get_partition P disk (uint n) (lib v1) of
      None \<Rightarrow> Some (NVME_STATUS_PART_DNE, release_disk P dev disk (say (''Specified partition does not exist.'' @ nl) v1))
    | Some p \<Rightarrow> nvmeCheckNameSafety P p v1)"
    "\<forall>n. map_option (entry P (lib v1)) (ped_disk_get_partition P disk n (lib v1)) = tbl (lib v) n"
  have e: "ped_disk_get_partition P disk (uint n) (lib v1) = Some p \<Longrightarrow> tbl (lib v) (uint n) = Some (entry P (lib v1) p)" for p
    using o(3) [rule_format, of "uint n"] by simp
  show ?thesis using assms(2) o(1) stable_release [OF assms(1)] unfolding o(2) name_check
    by (auto simp: entry_def dest!: e split: option.splits if_splits)
qed (use assms(2) in auto)

lemma perf_run_job:
  assumes "stable_table P tbl" "perf_run H P kind part s = Some s'" "jobs s' \<noteq> jobs s"
  obtains e job where "tbl (lib (nv s)) (uint (ucast part :: u8)) = Some e" "jobs s' = jobs s @ [(kind, job)]"
      "startlba (lbaRange (perfJob s)) \<le> endlba (lbaRange (perfJob s))"
      "lba_in_bounds (lbaRange (perfJob s)) (estart e) (elength e) (eend e) \<or> device_missing P tbl (lib (nv s))"
      "lbaRange job = \<lparr>startlba = shift_lba (startlba (lbaRange (perfJob s))) (word_of_int (estart e)),
         endlba = shift_lba (endlba (lbaRange (perfJob s))) (word_of_int (estart e))\<rparr>"
proof -
  let ?n = "ucast part :: u8" and ?r = "lbaRange (perfJob s)"
  obtain e where e: "tbl (lib (nv s)) (uint ?n) \<noteq> None \<Longrightarrow> tbl (lib (nv s)) (uint ?n) = Some e" by fastforce
  obtain rc v1 where v1: "tbl (lib v1) = tbl (lib (nv s))" "nvmeCheckLbaRangeInPart P ?n ?r (nv s) = Some (rc, v1)"
    "rc \<noteq> NVME_STATUS_ERROR \<longrightarrow> tbl (lib (nv s)) (uint ?n) = Some e \<longrightarrow>
       lba_in_bounds ?r (estart e) (elength e) (eend e) \<or> device_missing P tbl (lib (nv s))"
    by (rule stable_range [OF assms(1), where v = "nv s" and n = ?n and r = ?r and e = e])
  obtain rc2 x v2 where v2: "nvmeGetStartLbaInPart P ?n 0 v1 = Some (rc2, x, v2)"
    "rc2 = NVME_STATUS_OK \<longrightarrow> (\<exists>e. tbl (lib v1) (uint ?n) = Some e \<and> x = word_of_int (estart e))"
    by (rule stable_start [OF assms(1), where v = v1 and n = ?n])
  have ok: "rc \<noteq> NVME_STATUS_ERROR" "rc2 = NVME_STATUS_OK" "startlba ?r \<le> endlba ?r"
    using assms(2,3) v1(2) v2(1) by (auto simp: perf_run_def Let_def split: if_splits)
  with v2(2) v1(1) e have x: "tbl (lib (nv s)) (uint ?n) = Some e" "x = word_of_int (estart e)" by auto
  obtain job where "jobs s' = jobs s @ [(kind, job)]" "lbaRange job = \<lparr>startlba = shift_lba (startlba ?r) x, endlba = shift_lba (endlba ?r) x\<rparr>"
    using assms(2,3) v1(2) v2(1) ok by (auto simp: perf_run_def Let_def split: if_splits bind_splits)
  with that [OF x(1) _ ok(3) v1(3) [rule_format, OF ok(1) x(1)]] x(2) show ?thesis by blast
qed

lemma perf_job_started:
  assumes "stable_table P tbl" "cmd_perf H P kind (Some a1) (Some a2) (Some a3) (Some ex) s = Some s'" "jobs s' \<noteq> jobs s"
  obtains e job where "tbl (lib (nv s)) (uint (ucast (atoi a1) :: u8)) = Some e" "jobs s' = jobs s @ [(kind, job)]"
      "perf_writes kind \<longrightarrow> aesd_name (ename e)" "atoi a2 \<le> atoi a3"
      "estart e + uint (atoi a3) \<le> eend e \<or> device_missing P tbl (lib (nv s))"
      "startlba (lbaRange job) = shift_lba (atoi a2) (word_of_int (estart e))"
      "endlba (lbaRange job) = shift_lba (atoi a3) (word_of_int (estart e))"
proof -
  let ?s = "s\<lparr>perfJob := \<lparr>lbaRange = \<lparr>startlba = atoi a2, endlba = atoi a3\<rparr>, duration_ms = atoi ex\<rparr>\<rparr>"
  obtain r where r: "perf_name_check P kind (atoi a1) ?s = Some r"
    "(case r of Inl s2 \<Rightarrow> Some s2 | Inr s2 \<Rightarrow> perf_run H P kind (atoi a1) s2) = Some s'"
    using assms(2) by (auto simp: cmd_perf_def Let_def split: bind_splits)
  show ?thesis
  proof (cases r)
    case (Inl s2)
    with r assms(3) show ?thesis by (auto simp: perf_name_check_def Let_def split: bind_splits if_splits)
  next
    case (Inr s2)
    with r(1) have s2: "jobs s2 = jobs s" "perfJob s2 = perfJob ?s" "tbl (lib (nv s2)) = tbl (lib (nv s))"
      "perf_writes kind \<longrightarrow> (\<exists>e. tbl (lib (nv s)) (uint (ucast (atoi a1) :: u8)) = Some e \<and> aesd_name (ename e))"
      by (auto simp: perf_name_check_def Let_def dest!: stable_name [OF assms(1)] split: bind_splits if_splits)
    from Inr r(2) have "perf_run H P kind (atoi a1) s2 = Some s'" by simp
    from perf_run_job [OF assms(1) this] s2(1) assms(3) obtain e job where
      "tbl (lib (nv s2)) (uint (ucast (atoi a1) :: u8)) = Some e" "jobs s' = jobs s2 @ [(kind, job)]"
      "startlba (lbaRange (perfJob s2)) \<le> endlba (lbaRange (perfJob s2))"
      "lba_in_bounds (lbaRange (perfJob s2)) (estart e) (elength e) (eend e) \<or> device_missing P tbl (lib (nv s2))"
      "lbaRange job = \<lparr>startlba = shift_lba (startlba (lbaRange (perfJob s2))) (word_of_int (estart e)),
         endlba = shift_lba (endlba (lbaRange (perfJob s2))) (word_of_int (estart e))\<rparr>" by metis
    with s2 that [of e job] show ?thesis by (auto simp: lba_in_bounds_def device_missing_def Let_def add.commute)
  qed
qed

lemma ucast_word_of_int: "(ucast (word_of_int k :: u64) :: u32) = word_of_int k"
  by transfer (simp add: min_def)

lemma uint_shift_lba: "uint (shift_lba l (word_of_int g)) = (uint l + g) mod 2 ^ 32"
proof -
  have "(ucast l :: u64) = word_of_int (uint l)" by simp
  then have "ucast l + word_of_int g = (word_of_int (uint l + g) :: u64)" by (metis of_int_add)
  then have "shift_lba l (word_of_int g) = word_of_int (uint l + g)" unfolding shift_lba_def by (simp only: ucast_word_of_int)
  moreover have "uint (word_of_int k :: u32) = k mod 2 ^ 32" for k by (simp add: unsigned_of_int take_bit_eq_mod)
  ultimately show ?thesis by (simp only:)
qed

section \<open>Examples\<close>

lemma example_mallocs: "mallocs example_host (example_session cs) RECV_BUFFER_LENGTH_BYTES"
  by (simp add: mallocs_def example_host_def)

lemma example_realloc: "realloc_ok example_host"
  by (simp add: realloc_ok_def example_host_def)

lemma example_stable: "stable_table example_parted example_table"
proof -
  have "lib (release_disk example_parted dev disk v) = lib v" for dev disk v
    by (simp add: release_disk_def example_parted_def Let_def)
  moreover have "lib v' = lib v" if "opens example_parted no_greeting v dev disk v'" for v dev disk v'
    using that by (auto simp: opens_def no_greeting_def example_parted_def)
  moreover have "ped_disk_get_partition example_parted disk n w = find_part n w" for disk n w
    by (simp add: example_parted_def)
  ultimately show ?thesis unfolding stable_table_def example_table_def
    by (auto simp: example_parted_def)
qed

lemma example_present: "\<not> device_missing example_parted example_table w"
  by (simp add: device_missing_def example_parted_def)

lemma example_input: "input (example_session cs) = map RecvData (map bytes_of_text cs) @ []"
  by (simp add: example_session_def)

lemma example_number: "atoi (bytes_of_text ''2'') = 2"
  by (simp add: atoi_def strtol_def bytes_of_text_def is_space_def is_digit_def digits_value_def)

lemma perf_example:
  "map_option jobs (cmd_perf example_host example_parted SeqWrite (Some (bytes_of_text ''2'')) (Some (bytes_of_text ''3''))
     (Some (bytes_of_text ''10'')) (Some (bytes_of_text ''500'')) (session_start [] example_drive)) =
   Some [(SeqWrite, \<lparr>lbaRange = \<lparr>startlba = 103, endlba = 110\<rparr>, duration_ms = 500\<rparr>)]"
  by code_simp

lemma example_delete:
  assumes "lib v = lib example_drive" "calls v = []"
  shows "\<exists>v'. nvmeDeletePartition example_parted 2 v = Some (NVME_STATUS_OK, v') \<and> Deleted 1 \<in> set (calls v')"
proof -
  have "opens example_parted no_greeting v 0 0 (did (Opened 0) (lib v) v)" by (simp add: example_simps)
  from delete_eq [OF this] show ?thesis using assms by (simp add: name_check example_lookup Let_def)
qed

lemma sector_example:
  "malloc example_host (mem (nv sector_session)) (1 * 512) = Some (512, replicate 512 170)"
  "mem (nv sector_session) 512 = None"
  "opens sector_parted no_greeting (nv sector_session) 0 0 (did (Opened 0) (lib (nv sector_session)) (nv sector_session))"
  "ped_disk_get_partition sector_parted 0 (sint (1 :: cint)) (lib (nv sector_session)) = Some 0"
  "dev_sector_size sector_parted 0 (lib (nv sector_session)) = 512"
  "ped_geometry_read sector_parted 0 0 (int 1) (lib (nv sector_session)) = (True, replicate 512 65, lib (nv sector_session))"
  by (simp_all add: example_host_def sector_session_def sector_parted_def example_simps)

section \<open>Properties\<close>

text \<open>
  C9. Whatever the client sends and whatever the libraries do, the thread ends (its loop never needs
  more rounds than the stream has bytes and pieces) unless its client at some point stays connected and silent, every
  delete and write it made on the drive was of a partition whose name was checked before, and it leaves its loop active
  only if the program is ending.
\<close>

theorem thread_guarded:
  "case repsondingThread H P E inp v of
     Finished s \<Rightarrow> safe_step v (nv s) \<and> (threadActive s \<longrightarrow> (\<exists>k. E k))
   | Aborted s \<Rightarrow> safe_step v (nv s)
   | Stays s \<Rightarrow> safe_step v (nv s) \<and> RecvSilent \<in> set inp
   | Faulted \<Rightarrow> True
   | OutOfFuel \<Rightarrow> False"
  using thread_loop_ends [of "session_start inp v" "recv_size inp + 2" H P E 0]
    thread_loop_safe [where fuel = "recv_size inp + 2" and s = "session_start inp v"
      and H = H and P = P and E = E and k = 0]
  unfolding repsondingThread_def
  by (cases "thread_loop H P E (recv_size inp + 2) 0 (session_start inp v)") simp_all

text \<open>
  C17. A message shorter than the receive buffer is carried out on its words, however the stream cuts it
  into pieces: one round of the thread dispatches on the first word with the next four as arguments,
  and a message without words is ignored.
\<close>

theorem message_dispatched:
  assumes "mallocs H s a" "short_chunks cs" "length (concat cs) < RECV_BUFFER_LENGTH_BYTES" "0 \<notin> set (concat cs)"
    "input s = map RecvData cs @ r"
  shows "\<exists>tk buf. map (map_option (cstring buf)) (token_list tk) = take 5 (map Some (words (concat cs)) @ replicate 5 None) \<and>
    length buf = RECV_BUFFER_LENGTH_BYTES \<and>
    thread_round H P s = (let s1 = arrived r ((mem (nv s))(a \<mapsto> buf)) s in
       case words (concat cs) of [] \<Rightarrow> Some (Again s1) | w # _ \<Rightarrow> map_option Again (dispatch H P a buf tk w s1))"
  using message_tokens [OF assms, of P] by metis

text \<open>
  C21. The text a client prints for removing a partition reaches the drive as the number it printed: the
  message \<open>rmpart n\<close> makes one round of the thread delete partition \<open>n\<close>, with the drive's state
  as the result and one reply, for every positive \<open>n\<close> of type \<open>int\<close>.
\<close>

theorem rmpart_message:
  assumes "mallocs H s a" "0 < n" "n < 2 ^ 31"
    and "input s = RecvData (bytes_of_text (''rmpart '' @ dec n) @ [10]) # r"
  shows "\<exists>buf. let s1 = arrived r ((mem (nv s))(a \<mapsto> buf)) s in
    case nvmeDeletePartition P (word_of_int n) (nv s1) of
      None \<Rightarrow> thread_round H P s = None
    | Some (rc, v) \<Rightarrow> \<exists>text. thread_round H P s = Some (Again (reply text (s1\<lparr>nv := v\<rparr>)))"
proof -
  let ?m = "bytes_of_text (''rmpart '' @ dec n) @ [10]"
  have m: "?m = bytes_of_text ''rmpart'' @ 32 # bytes_of_text (dec n) @ 10 # []" by (simp add: bytes_of_text_def)
  note d = dec_word [OF assms(2,3)]
  have w: "words ?m = [bytes_of_text ''rmpart'', bytes_of_text (dec n)]"
  proof -
    have "words ?m = bytes_of_text ''rmpart'' # words (bytes_of_text (dec n) @ 10 # [])"
      unfolding m by (rule words_Cons) (simp_all add: bytes_of_text_def is_delim_def)
    also have "words (bytes_of_text (dec n) @ 10 # []) = bytes_of_text (dec n) # words []"
      using d(1,2) by (intro words_Cons) (simp_all add: bytes_of_text_def is_delim_def)
    finally show ?thesis by simp
  qed
  have c: "concat [?m] = ?m" "short_chunks [?m]" "0 \<notin> set ?m" "length ?m < RECV_BUFFER_LENGTH_BYTES"
    using d by (auto simp: bytes_of_text_def RECV_BUFFER_LENGTH_BYTES_def)
  have i: "input s = map RecvData [?m] @ r" using assms(4) by simp
  obtain tk buf where t: "map (map_option (cstring buf)) (token_list tk) = take 5 (map Some (words ?m) @ replicate 5 None)"
    "thread_round H P s = (let s1 = arrived r ((mem (nv s))(a \<mapsto> buf)) s in
       case words ?m of [] \<Rightarrow> Some (Again s1) | w # _ \<Rightarrow> map_option Again (dispatch H P a buf tk w s1))"
    using message_tokens [OF assms(1) c(2) _ _ i, unfolded c(1), OF c(4) c(3), of P] by metis
  have a1: "map_option (cstring buf) (targ1 tk) = Some (bytes_of_text (dec n))"
    using t(1) w by (auto simp: token_list_def numeral_nat)
  have "thread_round H P s = map_option Again (cmd_rmpart P (Some (bytes_of_text (dec n))) (arrived r ((mem (nv s))(a \<mapsto> buf)) s))"
    using t(2) w unfolding a1 [symmetric] by (simp add: dispatch_def Let_def)
  then show ?thesis
    by (intro exI [of _ buf]) (auto simp: cmd_rmpart_def Let_def d(4) sint_word_of_int [OF assms(2,3)] assms split: option.splits)
qed

text \<open>
  C36. Messages that run the server into undefined behaviour: one that fills the receive buffer exactly, which
  is then not terminated, the commands \<open>mkpart\<close> and \<open>rmpart\<close> without an argument, and
  \<open>write\<close> without data, which pass a null pointer to \<open>atoi\<close> or \<open>strlen\<close>.
\<close>

theorem crashing_messages:
  assumes "mallocs H s a" "short_chunks cs" "0 \<notin> set (concat cs)" "input s = map RecvData cs @ r"
    and "length (concat cs) = RECV_BUFFER_LENGTH_BYTES \<or> length (concat cs) < RECV_BUFFER_LENGTH_BYTES \<and>
      words (concat cs) \<in> {[bytes_of_text ''mkpart''], [bytes_of_text ''rmpart''], [bytes_of_text ''write'', p]}"
  shows "thread_round H P s = None"
  using assms(5) unterminated_message_faults [OF assms(1,2) _ assms(3,4)]
    missing_argument_faults [OF assms(1,2) _ assms(3,4)] by blast

text \<open>
  C25. As long as \<open>realloc\<close> succeeds, a line that with its newline has less than \<open>2\<^sup>3\<^sup>1\<close> bytes is received
  whole, however the stream cuts it into pieces: the receive loop ends at the newline with the line at the start
  of the buffer. A longer line overflows the counter, an \<open>int\<close>, which is undefined.
\<close>

theorem long_line_received:
  assumes "realloc_ok H" "h a = Some (replicate RECV_BUFFER_LENGTH_BYTES 0)"
    and "\<forall>c \<in> set cs. c \<noteq> []" "concat cs = line @ [10]" "10 \<notin> set line"
  shows "if length line + 1 < 2 ^ 31
    then \<exists>a' h' buf. recv_loop H RECV_BUFFER_LENGTH_BYTES 0 a h (map RecvData cs @ r) = Some (Message a' False, h', r) \<and>
      h' a' = Some buf \<and> take (length line + 1) buf = line @ [10]
    else recv_loop H RECV_BUFFER_LENGTH_BYTES 0 a h (map RecvData cs @ r) = None"
proof -
  have "length (replicate RECV_BUFFER_LENGTH_BYTES (0 :: byte)) = RECV_BUFFER_LENGTH_BYTES" "0 < RECV_BUFFER_LENGTH_BYTES"
    by (simp_all add: RECV_BUFFER_LENGTH_BYTES_def)
  from recv_line [where h = h and a = a, OF assms(1,2) this(1) _ this(2) assms(3-5), of 0 r] show ?thesis by (auto split: if_splits)
qed

text \<open>
  A read that succeeds stays inside its buffer, which it releases at the end. What is shown is the buffer: the whole
  sectors it holds from sector 0 of the partition on, then what \<open>malloc\<close> left, the last byte set to zero.
\<close>

lemma read_sectors_shows:
  assumes "sint n = int k" "0 < k" "k * 512 < 2 ^ 31"
    and "malloc H (mem (nv s)) (k * 512) = Some (a, bs)" "length bs = k * 512" "mem (nv s) a = None"
    and "opens P no_greeting (nv s) dev disk v" "ped_disk_get_partition P disk (sint part) (lib v) = Some p"
    and "dev_sector_size P dev (lib v) = int sector" "0 < sector" "sector < 2 ^ 31"
    and "ped_geometry_read P p 0 (int (k * 512 div sector)) (lib v) = (True, data, w)" "length data = k * 512 div sector * sector"
    and buf: "buf = butlast (data @ drop (length data) bs) @ [0]"
  shows "\<exists>s' pre. read_sectors H P part off n printAsHex s = Some s' \<and> mem (nv s') = mem (nv s) \<and> lib (nv s') = w \<and>
    (if printAsHex then stdout (nv s') = pre @ hexDump (Some buf)
     else sent s' = pre @ socket_text (''Read '' @ text_of (takeWhile (\<lambda>b. b \<noteq> 0) buf) @ '' from socket'' @ nl))"
proof -
  note b = sector_bytes [OF assms(1-3)]
  let ?h = "(mem (nv s))(a \<mapsto> bs)" and ?len = "size_of_int (n * 512)"
  let ?v = "v\<lparr>mem := ?h\<rparr>" and ?data = "data @ drop (length data) bs"
  have o: "opens P no_greeting ((nv s)\<lparr>mem := ?h\<rparr>) dev disk ?v" using opens_heap [OF assms(7)] .
  have le: "length data \<le> k * 512" using assms(13) by simp
  obtain v' where v': "nvmeReadPartitionSector P part off (Ptr a, 0) ?len ((nv s)\<lparr>mem := ?h\<rparr>) = Some (NVME_STATUS_OK, v')"
    "lib v' = w" "mem v' = ?h(a \<mapsto> ?data)"
    using read_correct [OF o, of part p sector a bs 0 ?len True data w off] assms b by auto
  have d: "length ?data = k * 512" using le assms(5) by simp
  then have z: "?data = butlast ?data @ [last ?data]" using assms(2)
    by (metis append_butlast_last_id list.size(3) mult_is_0 not_gr_zero zero_neq_numeral)
  have l: "length (butlast ?data) = k * 512 - 1" using d by simp
  have w: "mem_write (mem v') (Ptr a) (k * 512 - 1) [0] = Some ((mem (nv s))(a \<mapsto> buf))"
    unfolding v'(3) buf using mem_write_live [of "?h(a \<mapsto> ?data)" a ?data "k * 512 - 1" "[0]"] assms(2) d
    by (simp add: butlast_conv_take)
  have r: "mem_read ((mem (nv s))(a \<mapsto> buf)) (Ptr a) 0 (k * 512) = Some buf"
    using l assms(2) unfolding buf by (subst mem_read_live [of _ a "butlast ?data @ [0]"]) auto
  have c: "cstring buf 0 = takeWhile (\<lambda>b. b \<noteq> 0) buf"
    by (auto simp: cstring_def)
  have f: "(mem (nv s))(a := None) = mem (nv s)" using assms(6) by (auto simp: fun_eq_iff)
  show ?thesis using v' w r c f b assms(4)
    by (auto simp: read_sectors_def s_malloc_def s_free_def mem_free_def Let_def reply_def sendOnSocketf_def send_def redirected_def)
qed

text \<open>
  A write to an accessible partition reads a whole sector from the message buffer; when the buffer
  ends earlier, whatever the length of the data, the read runs past its end.
\<close>

lemma short_write_overreads:
  assumes "opens P no_greeting (nv s) dev disk v1" "ped_disk_get_partition P disk (sint (atoi a1)) (lib v1) = Some p"
    and "ped_partition_get_name P p (lib v1) = Some nm" "aesd_name (Some nm)"
    and "mem (nv s) a = Some buf" "length buf < off2 + nat (dev_sector_size P dev (lib v1))"
    and "0 < dev_sector_size P dev (lib v1)"
  shows "cmd_write P a (Some a1) (Some a2) off2 arg3 s = None"
proof -
  have "mem_read (mem v1) (Ptr a) off2 (nat (dev_sector_size P dev (lib v1))) = None"
    using assms(5-7) opens_mem [OF assms(1)] by (simp add: mem_read_def)
  then have "nvmeWritePartitionSector P (atoi a1) sec (Ptr a, off2) len (nv s) = None" for sec len
    using write_eq [OF assms(1-4)] by simp
  then show ?thesis by (simp add: cmd_write_def Let_def split: option.splits)
qed

text \<open>
  C16. A performance job is started only on a partition that exists, a writing one only on a partition of this
  program, and only on an ordered range; its sectors are those asked for shifted by the start of the partition, modulo
  \<open>2\<^sup>3\<^sup>2\<close>. Unless the device cannot be found at some moment, which the range check lets pass, the range asked for
  ends inside the partition, and on a partition that ends before sector \<open>2\<^sup>3\<^sup>2\<close> so do the sectors of the job. Assumed
  of libparted: the lookups do not change the table, and a label that was read shows it.
\<close>

theorem perf_job_in_partition:
  assumes "stable_table P tbl" "cmd_perf H P kind (Some a1) (Some a2) (Some a3) (Some ex) s = Some s'" "jobs s' \<noteq> jobs s"
  shows "\<exists>e job. tbl (lib (nv s)) (uint (ucast (atoi a1) :: u8)) = Some e \<and> jobs s' = jobs s @ [(kind, job)] \<and>
    (perf_writes kind \<longrightarrow> aesd_name (ename e)) \<and> atoi a2 \<le> atoi a3 \<and>
    uint (startlba (lbaRange job)) = (uint (atoi a2) + estart e) mod 2 ^ 32 \<and>
    uint (endlba (lbaRange job)) = (uint (atoi a3) + estart e) mod 2 ^ 32 \<and>
    (\<not> device_missing P tbl (lib (nv s)) \<longrightarrow> estart e + uint (atoi a3) \<le> eend e \<and>
       (0 \<le> estart e \<and> eend e < 2 ^ 32 \<longrightarrow>
          estart e \<le> uint (startlba (lbaRange job)) \<and> uint (startlba (lbaRange job)) \<le> uint (endlba (lbaRange job)) \<and>
          uint (endlba (lbaRange job)) \<le> eend e))"
proof -
  from perf_job_started [OF assms] obtain e job where j: "tbl (lib (nv s)) (uint (ucast (atoi a1) :: u8)) = Some e"
    "jobs s' = jobs s @ [(kind, job)]" "perf_writes kind \<longrightarrow> aesd_name (ename e)" "atoi a2 \<le> atoi a3"
    "estart e + uint (atoi a3) \<le> eend e \<or> device_missing P tbl (lib (nv s))"
    "startlba (lbaRange job) = shift_lba (atoi a2) (word_of_int (estart e))"
    "endlba (lbaRange job) = shift_lba (atoi a3) (word_of_int (estart e))" .
  have le: "uint (atoi a2) \<le> uint (atoi a3)" using j(4) by (simp add: word_le_def)
  have m: "uint (startlba (lbaRange job)) = (uint (atoi a2) + estart e) mod 2 ^ 32"
    "uint (endlba (lbaRange job)) = (uint (atoi a3) + estart e) mod 2 ^ 32" unfolding j(6,7) uint_shift_lba by (rule refl)+
  have "estart e \<le> uint (startlba (lbaRange job)) \<and> uint (startlba (lbaRange job)) \<le> uint (endlba (lbaRange job)) \<and>
       uint (endlba (lbaRange job)) \<le> eend e" if "0 \<le> estart e" "eend e < 2 ^ 32" "estart e + uint (atoi a3) \<le> eend e"
    unfolding m using that le by (simp add: mod_pos_pos_trivial)
  with j(1-5) m show ?thesis by blast
qed

text \<open>
  C37. The range check of a performance job is skipped when the device is not found at that moment: only one
  status stops the job. If the two lookups that follow find the partition again, a reading job is started on any ordered
  range, however far outside the partition.
\<close>

theorem missing_device_skips_range_check:
  assumes "\<not> perf_writes kind" "atoi a2 \<le> atoi a3" "\<not> negative_duration H (atoi ex)"
    and "ped_device_get P devicePath (lib (nv s)) = (None, w)"
    and "opens P no_greeting ((nv s)\<lparr>lib := w\<rparr>) dev disk v" "opens P no_greeting v dev' disk' v'"
    and "ped_disk_get_partition P disk (uint (ucast (atoi a1) :: u8)) (lib v) = Some p"
      "ped_disk_get_partition P disk' (uint (ucast (atoi a1) :: u8)) (lib v') = Some p'"
  shows "\<exists>s' job. cmd_perf H P kind (Some a1) (Some a2) (Some a3) (Some ex) s = Some s' \<and> jobs s' = jobs s @ [(kind, job)] \<and>
    uint (startlba (lbaRange job)) = (uint (atoi a2) + geom_start P p (lib v)) mod 2 ^ 32 \<and>
    uint (endlba (lbaRange job)) = (uint (atoi a3) + geom_start P p (lib v)) mod 2 ^ 32"
proof -
  have "nvmeCheckLbaRangeInPart P (ucast (atoi a1)) r (nv s) = Some (NVME_STATUS_NOT_FOUND, (nv s)\<lparr>lib := w\<rparr>)" for r
    using assms(4) by (simp add: nvmeCheckLbaRangeInPart_def with_part_def with_disk_def)
  moreover have "nvmeGetStartLbaInPart P (ucast (atoi a1)) 0 ((nv s)\<lparr>lib := w\<rparr>) = Some (NVME_STATUS_OK, word_of_int (geom_start P p (lib v)), v)"
    using assms(7) by (simp add: nvmeGetStartLbaInPart_def with_part_def with_disk_eq [OF assms(5)])
  moreover have "nvmeGetEndLbaInPart P (ucast (atoi a1)) 0 v = Some (NVME_STATUS_OK, word_of_int (geom_end P p' (lib v')), v')"
    using assms(8) by (simp add: nvmeGetEndLbaInPart_def with_part_def with_disk_eq [OF assms(6)])
  ultimately show ?thesis using assms(1-3)
    by (auto simp: cmd_perf_def perf_name_check_def perf_run_def Let_def uint_shift_lba not_less)
qed

theorem message_dispatched_witness:
  "\<exists>s'. thread_round example_host example_parted (example_session [''qu'', ''it'' @ nl]) = Some (Again s') \<and> \<not> threadActive s'"
proof -
  let ?cs = "map bytes_of_text [''qu'', ''it'' @ nl]"
  have c: "concat ?cs = bytes_of_text ''quit'' @ [10]" by (simp add: bytes_of_text_def nl_def)
  have "words (concat ?cs) = [bytes_of_text ''quit'']"
    unfolding c by (simp add: words.simps bytes_of_text_def is_delim_def Let_def)
  moreover have "length (concat ?cs) < RECV_BUFFER_LENGTH_BYTES" "0 \<notin> set (concat ?cs)" "short_chunks ?cs"
    by (simp_all add: RECV_BUFFER_LENGTH_BYTES_def bytes_of_text_def nl_def)
  ultimately show ?thesis
    using message_dispatched [OF example_mallocs, of ?cs "[''qu'', ''it'' @ nl]" "[]" example_parted, unfolded example_input]
    by (auto simp: Let_def dispatch_def)
qed

theorem crashing_messages_witness:
  "thread_round example_host example_parted (example_session [''mkpart'' @ nl]) = None \<and>
   thread_round example_host example_parted (example_session [''write 2 '' @ replicate 23 (CHR ''x'') @ nl]) = None"
proof
  show "thread_round example_host example_parted (example_session [''write 2 '' @ replicate 23 (CHR ''x'') @ nl]) = None"
    using crashing_messages [OF example_mallocs, of "map bytes_of_text [''write 2 '' @ replicate 23 (CHR ''x'') @ nl]"
        "[''write 2 '' @ replicate 23 (CHR ''x'') @ nl]" "[]" _ example_parted, unfolded example_input]
    by (simp add: RECV_BUFFER_LENGTH_BYTES_def bytes_of_text_def nl_def)
  let ?cs = "map bytes_of_text [''mkpart'' @ nl]"
  have c: "concat ?cs = bytes_of_text ''mkpart'' @ [10]" by (simp add: bytes_of_text_def nl_def)
  have "words (concat ?cs) = [bytes_of_text ''mkpart'']"
    unfolding c by (simp add: words.simps bytes_of_text_def is_delim_def Let_def)
  moreover have "length (concat ?cs) < RECV_BUFFER_LENGTH_BYTES" "0 \<notin> set (concat ?cs)" "short_chunks ?cs"
    by (simp_all add: RECV_BUFFER_LENGTH_BYTES_def bytes_of_text_def nl_def)
  ultimately show "thread_round example_host example_parted (example_session [''mkpart'' @ nl]) = None"
    using crashing_messages [OF example_mallocs, of ?cs "[''mkpart'' @ nl]" "[]", unfolded example_input] by simp
qed

theorem long_line_received_witness:
  "\<exists>a' h' buf. recv_loop example_host RECV_BUFFER_LENGTH_BYTES 0 7 [7 \<mapsto> replicate RECV_BUFFER_LENGTH_BYTES 0]
      (map RecvData [replicate 20 65, replicate 30 66 @ [10]] @ []) = Some (Message a' False, h', []) \<and>
    h' a' = Some buf \<and> take 51 buf = replicate 20 65 @ replicate 30 66 @ [10]"
  using long_line_received [OF example_realloc, of "[7 \<mapsto> replicate RECV_BUFFER_LENGTH_BYTES 0]" 7
    "[replicate 20 65, replicate 30 66 @ [10]]" "replicate 20 65 @ replicate 30 66" "[]"] by simp

theorem perf_job_in_partition_witness:
  "\<exists>s' e job. example_table (lib example_drive) 2 = Some e \<and>
     cmd_perf example_host example_parted SeqWrite (Some (bytes_of_text ''2'')) (Some (bytes_of_text ''3''))
       (Some (bytes_of_text ''10'')) (Some (bytes_of_text ''500'')) (session_start [] example_drive) = Some s' \<and>
     jobs s' = [(SeqWrite, job)] \<and> aesd_name (ename e) \<and>
     estart e \<le> uint (startlba (lbaRange job)) \<and> uint (endlba (lbaRange job)) \<le> eend e"
proof -
  obtain s' where s': "cmd_perf example_host example_parted SeqWrite (Some (bytes_of_text ''2'')) (Some (bytes_of_text ''3''))
     (Some (bytes_of_text ''10'')) (Some (bytes_of_text ''500'')) (session_start [] example_drive) = Some s'" "jobs s' \<noteq> []"
    using perf_example by auto
  have "example_table (lib example_drive) 2 = Some \<lparr>ename = Some ''AESD Part 2'', estart = 100, elength = 100, eend = 199\<rparr>"
    by code_simp
  with perf_job_in_partition [OF example_stable s'(1)] s' example_present show ?thesis by (auto simp: example_number perf_writes_def)
qed

theorem missing_device_skips_range_check_witness:
  "\<exists>s' job. cmd_perf example_host flaky_parted SeqRead (Some (bytes_of_text ''2'')) (Some (bytes_of_text ''3''))
       (Some (bytes_of_text ''500'')) (Some (bytes_of_text ''500'')) (session_start [] flaky_drive) = Some s' \<and>
     jobs s' = [(SeqRead, job)] \<and> uint (startlba (lbaRange job)) = 103 \<and> uint (endlba (lbaRange job)) = 600"
proof -
  let ?w = "map (\<lambda>x. x\<lparr>xdata := [1]\<rparr>) (lib example_drive)"
  have n: "atoi (bytes_of_text ''2'') = 2" "atoi (bytes_of_text ''3'') = 3" "atoi (bytes_of_text ''500'') = 500"
    by (simp_all add: atoi_def strtol_def bytes_of_text_def is_space_def is_digit_def digits_value_def)
  have g: "ped_device_get flaky_parted devicePath (lib (nv (session_start [] flaky_drive))) = (None, ?w)"
    by (simp add: flaky_parted_def flaky_drive_def example_drive_def)
  have o: "opens flaky_parted no_greeting v 0 0 (did (Opened 0) (lib v) v)" if "lib v = ?w" for v
    using that by (simp add: opens_def no_greeting_def flaky_parted_def example_parted_def example_drive_def did_def)
  have p: "ped_disk_get_partition flaky_parted 0 2 ?w = Some 1" "geom_start flaky_parted 1 ?w = 100"
    by (simp_all add: flaky_parted_def example_parted_def example_drive_def find_part_def)
  have "\<not> perf_writes SeqRead" "atoi (bytes_of_text ''3'') \<le> atoi (bytes_of_text ''500'')" "\<not> negative_duration example_host (atoi (bytes_of_text ''500''))"
    by (simp_all add: n perf_writes_def example_host_def)
  from missing_device_skips_range_check [OF this g o o, of "bytes_of_text ''2''" 1 1] n p show ?thesis by simp
qed

theorem thread_guarded_witness:
  "\<exists>s. repsondingThread example_host example_parted (\<lambda>_. False)
     [RecvData (bytes_of_text ''rmpart 2'' @ [10]), RecvData (bytes_of_text ''quit'' @ [10])] example_drive = Finished s \<and>
     safe_step example_drive (nv s) \<and> \<not> threadActive s \<and> Deleted 1 \<in> set (calls (nv s))"
proof -
  let ?t = "repsondingThread example_host example_parted (\<lambda>_. False)
     [RecvData (bytes_of_text ''rmpart 2'' @ [10]), RecvData (bytes_of_text ''quit'' @ [10])] example_drive"
  have "case ?t of Finished s \<Rightarrow> Deleted 1 \<in> set (calls (nv s)) | _ \<Rightarrow> False" by code_simp
  with thread_guarded [where H = example_host and P = example_parted and E = "\<lambda>_. False" and v = example_drive
      and inp = "[RecvData (bytes_of_text ''rmpart 2'' @ [10]), RecvData (bytes_of_text ''quit'' @ [10])]"]
  show ?thesis by (cases ?t) auto
qed


theorem rmpart_message_witness:
  "\<exists>s'. thread_round example_host example_parted (example_session [''rmpart '' @ dec 2 @ nl]) = Some (Again s') \<and>
     Deleted 1 \<in> set (calls (nv s'))"
proof -
  let ?s = "example_session [''rmpart '' @ dec 2 @ nl]"
  have "input ?s = RecvData (bytes_of_text (''rmpart '' @ dec 2) @ [10]) # []"
    by (simp add: example_session_def bytes_of_text_def nl_def)
  from rmpart_message [OF example_mallocs _ _ this, of example_parted] obtain buf where
    b: "let s1 = arrived [] ((mem (nv ?s))(RECV_BUFFER_LENGTH_BYTES \<mapsto> buf)) ?s in
      case nvmeDeletePartition example_parted (word_of_int 2) (nv s1) of
        None \<Rightarrow> thread_round example_host example_parted ?s = None
      | Some (rc, v) \<Rightarrow> \<exists>text. thread_round example_host example_parted ?s = Some (Again (reply text (s1\<lparr>nv := v\<rparr>)))" by auto
  let ?s1 = "arrived [] ((mem (nv ?s))(RECV_BUFFER_LENGTH_BYTES \<mapsto> buf)) ?s"
  have "lib (nv ?s1) = lib example_drive" "calls (nv ?s1) = []"
    by (simp_all add: arrived_def example_session_def example_lookup)
  from example_delete [OF this] b show ?thesis by (auto simp: Let_def)
qed

end
