(* ===== verification/ThreadList.thy ===== *)
theory ThreadList
  imports Interfaces "HOL-Library.Multiset"
begin

text \<open>
  The list of client threads of the command server: the singly linked list macros of
  \<open>server/queue.h\<close> that \<open>server/aesdsocket.c\<close> uses, on a heap of nodes, and \<open>listenLoop\<close>,
  which accepts connections, starts a thread for each, and joins and frees the threads that are
  complete.

  What happens outside the main thread is an event per round of its loop: what \<open>accept\<close>,
  \<open>malloc\<close> and \<open>pthread_create\<close> return, which nodes are marked complete by their threads when
  their flags are read, and the value of \<open>endProgram\<close> at its two reads. The log, the client's
  name and the ignored result of \<open>listen\<close> are left out. Joining waits for the thread; the model
  records who was joined.
\<close>

section \<open>State\<close>

text \<open>A node; \<open>thread\<close> is the handle \<open>pthread_create\<close> stored, \<open>None\<close> before and when it failed.\<close>

record slist_data_t =
  thread :: "nat option"
  isThreadComplete :: bool
  clientfd :: cint
  entries :: ptr

record threads =
  nodes :: "nat \<rightharpoonup> slist_data_t"
  slh_first :: ptr
  created :: "(nat \<times> cint) list"
  joined :: "nat list"

record accept_event =
  accepted :: cint
  interrupted :: bool
  ending_accept :: bool
  node_at :: "nat option"
  thread_made :: "nat option"
  completed :: "nat list"
  ending :: bool

section \<open>List macros\<close>

definition SLIST_INIT :: "threads \<Rightarrow> threads" where
  "SLIST_INIT s = s\<lparr>slh_first := NULL\<rparr>"

definition SLIST_INSERT_HEAD :: "nat \<Rightarrow> threads \<Rightarrow> threads option" where
  "SLIST_INSERT_HEAD a s = do {
     n \<leftarrow> nodes s a;
     Some (s\<lparr>nodes := (nodes s)(a \<mapsto> n\<lparr>entries := slh_first s\<rparr>), slh_first := Ptr a\<rparr>)
   }"

text \<open>A pointer read as a node; \<open>None\<close> is a null or dangling pointer.\<close>

definition node :: "(nat \<rightharpoonup> slist_data_t) \<Rightarrow> ptr \<Rightarrow> slist_data_t option" where
  "node h p = (case p of NULL \<Rightarrow> None | Ptr a \<Rightarrow> h a)"

text \<open>The loop of \<open>SLIST_REMOVE\<close> that looks for the element before \<open>elm\<close>.\<close>

partial_function (option) find_prev :: "(nat \<rightharpoonup> slist_data_t) \<Rightarrow> ptr \<Rightarrow> ptr \<Rightarrow> ptr option" where
  "find_prev h curelm elm = do {
     n \<leftarrow> node h curelm;
     if entries n \<noteq> elm then find_prev h (entries n) elm else Some curelm
   }"

definition SLIST_REMOVE_AFTER :: "ptr \<Rightarrow> threads \<Rightarrow> threads option" where
  "SLIST_REMOVE_AFTER elm s = (case elm of NULL \<Rightarrow> None | Ptr b \<Rightarrow> do {
     n \<leftarrow> nodes s b;
     m \<leftarrow> node (nodes s) (entries n);
     Some (s\<lparr>nodes := (nodes s)(b \<mapsto> n\<lparr>entries := entries m\<rparr>)\<rparr>)
   })"

definition SLIST_REMOVE :: "nat \<Rightarrow> threads \<Rightarrow> threads option" where
  "SLIST_REMOVE a s =
     (if slh_first s = Ptr a then do {
        n \<leftarrow> node (nodes s) (slh_first s);
        Some (s\<lparr>slh_first := entries n\<rparr>)
      } else do {
        curelm \<leftarrow> find_prev (nodes s) (slh_first s) (Ptr a);
        SLIST_REMOVE_AFTER curelm s
      })"

section \<open>Joining and freeing\<close>

text \<open>The body of the two loops over the list; joining without a thread is undefined.\<close>

definition join_and_free :: "nat \<Rightarrow> threads \<Rightarrow> threads option" where
  "join_and_free a s = do {
     s1 \<leftarrow> SLIST_REMOVE a s;
     n \<leftarrow> nodes s1 a;
     t \<leftarrow> thread n;
     Some (s1\<lparr>joined := joined s1 @ [t], nodes := (nodes s1)(a := None)\<rparr>)
   }"

text \<open>\<open>SLIST_FOREACH_SAFE\<close> with this body for the nodes that satisfy the condition \<open>f\<close>.\<close>

partial_function (option) foreach_safe ::
    "(slist_data_t \<Rightarrow> bool) \<Rightarrow> ptr \<Rightarrow> threads \<Rightarrow> threads option" where
  "foreach_safe f dataptr s = (case dataptr of
     NULL \<Rightarrow> Some s
   | Ptr a \<Rightarrow> do {
       n \<leftarrow> nodes s a;
       s1 \<leftarrow> (if f n then join_and_free a s else Some s);
       foreach_safe f (entries n) s1
     })"

section \<open>The listening loop\<close>

definition mark_complete :: "nat list \<Rightarrow> threads \<Rightarrow> threads" where
  "mark_complete cs s = s\<lparr>nodes := (\<lambda>a. map_option
     (\<lambda>n. if a \<in> set cs then n\<lparr>isThreadComplete := True\<rparr> else n) (nodes s a))\<rparr>"

text \<open>The new node is cleared before it is tested for null.\<close>

definition new_thread :: "accept_event \<Rightarrow> threads \<Rightarrow> threads option" where
  "new_thread e s = do {
     newNode \<leftarrow> node_at e;
     let s1 = s\<lparr>nodes := (nodes s)(newNode \<mapsto>
         \<lparr>thread = None, isThreadComplete = False, clientfd = accepted e, entries = NULL\<rparr>)\<rparr>;
     s2 \<leftarrow> SLIST_INSERT_HEAD newNode s1;
     n \<leftarrow> nodes s2 newNode;
     Some (s2\<lparr>nodes := (nodes s2)(newNode \<mapsto> n\<lparr>thread := thread_made e\<rparr>),
              created := created s2 @ (case thread_made e of None \<Rightarrow> [] | Some t \<Rightarrow> [(t, clientfd n)])\<rparr>)
   }"

text \<open>One round; the result is whether the loop goes on.\<close>

definition listen_round :: "accept_event \<Rightarrow> threads \<Rightarrow> (bool \<times> threads) option" where
  "listen_round e s =
     (if accepted e = - 1 \<and> interrupted e \<and> ending_accept e then Some (False, s)
      else do {
        s1 \<leftarrow> new_thread e s;
        let s2 = mark_complete (completed e) s1;
        s3 \<leftarrow> foreach_safe isThreadComplete (slh_first s2) s2;
        Some (\<not> ending e, s3)
      })"

text \<open>The main thread waits in \<open>accept\<close> when there are no more events.\<close>

datatype listen_end = Waiting threads | Returned int threads

fun listen_loop :: "accept_event list \<Rightarrow> threads \<Rightarrow> (bool \<times> threads) option" where
  "listen_loop [] s = Some (True, s)"
| "listen_loop (e # es) s = do {
     (go, s1) \<leftarrow> listen_round e s;
     if go then listen_loop es s1 else Some (False, s1)
   }"

definition listenLoop :: "accept_event list \<Rightarrow> threads \<Rightarrow> listen_end option" where
  "listenLoop es s = do {
     (waiting, s1) \<leftarrow> listen_loop es (SLIST_INIT s);
     if waiting then Some (Waiting s1)
     else do {
       s2 \<leftarrow> foreach_safe (\<lambda>_. True) (slh_first s1) s1;
       Some (Returned 0 s2)
     }
   }"

section \<open>Specification notions\<close>

text \<open>
  The nodes \<open>xs\<close> in the order in which they are linked from \<open>p\<close> to \<open>q\<close>, and what a node holds
  besides its link.
\<close>

fun seg :: "(nat \<rightharpoonup> slist_data_t) \<Rightarrow> ptr \<Rightarrow> nat list \<Rightarrow> ptr \<Rightarrow> bool" where
  "seg h p [] q \<longleftrightarrow> p = q"
| "seg h p (a # xs) q \<longleftrightarrow> p = Ptr a \<and> (case h a of None \<Rightarrow> False | Some n \<Rightarrow> seg h (entries n) xs q)"

definition info :: "slist_data_t \<Rightarrow> nat option \<times> bool \<times> cint" where
  "info n = (thread n, isThreadComplete n, clientfd n)"

text \<open>
  Two states that differ in the links only.
\<close>

definition same_info :: "threads \<Rightarrow> threads \<Rightarrow> bool" where
  "same_info s s' \<longleftrightarrow> (\<forall>b. map_option info (nodes s' b) = map_option info (nodes s b)) \<and>
     created s' = created s \<and> joined s' = joined s"

text \<open>
  The list is linked through the nodes \<open>xs\<close>, which are all the nodes there are.
\<close>

definition linked :: "threads \<Rightarrow> nat list \<Rightarrow> bool" where
  "linked s xs \<longleftrightarrow> seg (nodes s) (slh_first s) xs NULL \<and> distinct xs \<and> dom (nodes s) = set xs"

text \<open>
  The thread of a node.
\<close>

definition thread_at :: "threads \<Rightarrow> nat \<Rightarrow> nat option" where
  "thread_at s a = Option.bind (nodes s a) thread"

text \<open>
  The invariant of the main thread: every node has a thread, and every thread that was created was
  joined or is in the list, once.
\<close>

definition threads_inv :: "threads \<Rightarrow> nat list \<Rightarrow> bool" where
  "threads_inv s xs \<longleftrightarrow> linked s xs \<and> (\<forall>a \<in> set xs. thread_at s a \<noteq> None) \<and>
     mset (map fst (created s)) = mset (joined s) + mset (map (the \<circ> thread_at s) xs)"

text \<open>
  The event that ends the loop inside \<open>accept\<close>, the events for which the system gives memory and a
  thread, and a run in which it always does.
\<close>

definition interrupts :: "accept_event \<Rightarrow> bool" where
  "interrupts e \<longleftrightarrow> accepted e = - 1 \<and> interrupted e \<and> ending_accept e"

definition served :: "accept_event \<Rightarrow> threads \<Rightarrow> bool" where
  "served e s \<longleftrightarrow> interrupts e \<or> (case node_at e of None \<Rightarrow> False | Some a \<Rightarrow> nodes s a = None) \<and> thread_made e \<noteq> None"

definition all_served :: "accept_event list \<Rightarrow> threads \<Rightarrow> bool" where
  "all_served = admitted listen_round served"

text \<open>
  A list of two threads, the first complete, and a run with three clients.
\<close>

definition example_threads :: threads where
  "example_threads = \<lparr>nodes = [1 \<mapsto> \<lparr>thread = Some 100, isThreadComplete = True, clientfd = 5, entries = Ptr 2\<rparr>,
     2 \<mapsto> \<lparr>thread = Some 101, isThreadComplete = False, clientfd = 6, entries = NULL\<rparr>],
     slh_first = Ptr 1, created = [(100, 5), (101, 6)], joined = []\<rparr>"

definition example_events :: "accept_event list" where
  "example_events = [
     \<lparr>accepted = 5, interrupted = False, ending_accept = False, node_at = Some 1, thread_made = Some 100, completed = [], ending = False\<rparr>,
     \<lparr>accepted = 6, interrupted = False, ending_accept = False, node_at = Some 2, thread_made = Some 101, completed = [1], ending = False\<rparr>,
     \<lparr>accepted = 7, interrupted = False, ending_accept = False, node_at = Some 1, thread_made = Some 102, completed = [], ending = False\<rparr>,
     \<lparr>accepted = - 1, interrupted = True, ending_accept = True, node_at = None, thread_made = None, completed = [], ending = True\<rparr>]"

section \<open>Linked nodes\<close>

lemma seg_append: "seg h p (xs @ ys) q \<longleftrightarrow> (\<exists>r. seg h p xs r \<and> seg h r ys q)"
  by (induction xs arbitrary: p) (auto split: option.splits)

lemma seg_upd [simp]: "a \<notin> set xs \<Longrightarrow> seg (h(a := v)) p xs q = seg h p xs q"
  by (induction xs arbitrary: p) (auto split: option.splits)

lemma seg_cong: "\<forall>a \<in> set xs. h' a = h a \<Longrightarrow> seg h' p xs q = seg h p xs q"
  by (induction xs arbitrary: p) (auto split: option.splits)

lemma find_prev_found:
  assumes "seg h p (ys @ [b]) (Ptr a)" "a \<notin> set (ys @ [b])"
  shows "find_prev h p (Ptr a) = Some (Ptr b)"
  using assms
proof (induction ys arbitrary: p)
  case Nil
  then show ?case by (subst find_prev.simps) (auto simp: node_def split: option.splits)
next
  case (Cons y ys)
  then obtain n where n: "p = Ptr y" "h y = Some n" "seg h (entries n) (ys @ [b]) (Ptr a)" by (auto split: option.splits)
  have "entries n \<noteq> Ptr a" using n(3) Cons.prems(2) by (cases ys) auto
  with Cons.IH [OF n(3)] Cons.prems(2) n show ?case by (subst find_prev.simps) (simp add: node_def)
qed

lemma slist_remove:
  assumes "seg (nodes s) (slh_first s) (ys @ a # zs) NULL" "distinct (ys @ a # zs)"
  obtains s' where "SLIST_REMOVE a s = Some s'" "seg (nodes s') (slh_first s') (ys @ zs) NULL" "same_info s s'"
    "\<And>b. b \<notin> set ys \<Longrightarrow> nodes s' b = nodes s b"
proof (cases ys rule: rev_cases)
  case Nil
  with assms that show ?thesis by (auto simp: SLIST_REMOVE_def node_def same_info_def split: option.splits)
next
  case (snoc ys' b)
  obtain n where n: "seg (nodes s) (slh_first s) (ys' @ [b]) (Ptr a)" "nodes s a = Some n" "seg (nodes s) (entries n) zs NULL"
    using assms(1) [unfolded seg_append [of _ _ ys]] snoc by (auto split: option.splits)
  obtain m where m: "nodes s b = Some m" "seg (nodes s) (slh_first s) ys' (Ptr b)" "entries m = Ptr a"
    using n(1) by (auto simp: seg_append split: option.splits)
  have first: "slh_first s \<noteq> Ptr a" using n(1) assms(2) snoc by (cases ys') (auto split: option.splits)
  let ?s = "s\<lparr>nodes := (nodes s)(b \<mapsto> m\<lparr>entries := entries n\<rparr>)\<rparr>"
  have "find_prev (nodes s) (slh_first s) (Ptr a) = Some (Ptr b)" using find_prev_found [OF n(1)] assms(2) snoc by auto
  with first m n(2) have "SLIST_REMOVE a s = Some ?s" by (simp add: SLIST_REMOVE_def SLIST_REMOVE_AFTER_def node_def)
  moreover have "seg (nodes ?s) (slh_first ?s) (ys @ zs) NULL" using m n(3) assms(2) snoc by (auto simp: seg_append)
  moreover have "same_info s ?s" using m(1) by (simp add: same_info_def info_def)
  ultimately show ?thesis using that snoc by simp
qed

section \<open>Joining and freeing\<close>

lemma same_infoD:
  assumes "same_info s s'"
  shows "created s' = created s" "joined s' = joined s" "thread_at s' = thread_at s" "dom (nodes s') = dom (nodes s)"
    "nodes s a = Some n \<Longrightarrow> \<exists>m. nodes s' a = Some m \<and> info m = info n"
proof -
  have i: "map_option info (nodes s' b) = map_option info (nodes s b)" for b using assms by (simp add: same_info_def)
  show "created s' = created s" "joined s' = joined s" using assms by (simp_all add: same_info_def)
  show "thread_at s' = thread_at s"
  proof
    fix b show "thread_at s' b = thread_at s b" using i [of b]
      by (cases "nodes s b"; cases "nodes s' b") (auto simp: thread_at_def info_def)
  qed
  show "dom (nodes s') = dom (nodes s)" using i by (auto simp: dom_def) (metis option.map_disc_iff option.exhaust)+
  show "nodes s a = Some n \<Longrightarrow> \<exists>m. nodes s' a = Some m \<and> info m = info n" using i [of a] by auto
qed

lemma join_and_free_linked:
  assumes "linked s (ys @ a # zs)" "thread_at s a = Some t"
  obtains s' where "join_and_free a s = Some s'" "linked s' (ys @ zs)" "created s' = created s" "joined s' = joined s @ [t]"
    "\<And>b. b \<noteq> a \<Longrightarrow> map_option info (nodes s' b) = map_option info (nodes s b)"
    "\<And>b. b \<noteq> a \<Longrightarrow> b \<notin> set ys \<Longrightarrow> nodes s' b = nodes s b"
proof -
  have l: "seg (nodes s) (slh_first s) (ys @ a # zs) NULL" "distinct (ys @ a # zs)" "dom (nodes s) = set (ys @ a # zs)"
    using assms(1) by (auto simp: linked_def)
  obtain s1 where s1: "SLIST_REMOVE a s = Some s1" "seg (nodes s1) (slh_first s1) (ys @ zs) NULL" "same_info s s1"
    "\<And>b. b \<notin> set ys \<Longrightarrow> nodes s1 b = nodes s b" using slist_remove [OF l(1,2)] by metis
  note si = same_infoD [OF s1(3)]
  let ?s = "s1\<lparr>joined := joined s1 @ [t], nodes := (nodes s1)(a := None)\<rparr>"
  obtain n where n: "nodes s1 a = Some n" "thread n = Some t" using assms(2) unfolding si(3) [symmetric]
    by (auto simp: thread_at_def bind_eq_Some_conv)
  have "join_and_free a s = Some ?s" using s1(1) n by (simp add: join_and_free_def)
  moreover have "linked ?s (ys @ zs)" using s1(2) l si(4) by (auto simp: linked_def)
  moreover have "map_option info (nodes ?s b) = map_option info (nodes s b)" if "b \<noteq> a" for b
    using s1(3) that by (simp add: same_info_def)
  ultimately show ?thesis using that si s1(4) by simp
qed

lemma reap_cong:
  assumes "\<forall>b \<in> set zs. nodes s' b = nodes s b"
  shows "seg (nodes s') p zs q = seg (nodes s) p zs q"
    "filter (\<lambda>a. f (the (nodes s' a))) zs = filter (\<lambda>a. f (the (nodes s a))) zs"
    "map (the \<circ> thread_at s') (filter g zs) = map (the \<circ> thread_at s) (filter g zs)"
    "a \<in> set zs \<Longrightarrow> thread_at s' a = thread_at s a"
proof -
  show t: "a \<in> set zs \<Longrightarrow> thread_at s' a = thread_at s a" for a using assms by (simp add: thread_at_def)
  show "map (the \<circ> thread_at s') (filter g zs) = map (the \<circ> thread_at s) (filter g zs)" using t by simp
qed (use assms in \<open>auto intro!: seg_cong filter_cong\<close>)

lemma foreach_safe_linked:
  assumes "linked s (ys @ zs)" "seg (nodes s) p zs NULL" "\<forall>a \<in> set zs. thread_at s a \<noteq> None"
  shows "\<exists>s'. foreach_safe f p s = Some s' \<and> linked s' (ys @ filter (\<lambda>a. \<not> f (the (nodes s a))) zs) \<and>
    created s' = created s \<and> joined s' = joined s @ map (the \<circ> thread_at s) (filter (\<lambda>a. f (the (nodes s a))) zs) \<and>
    (\<forall>b \<in> dom (nodes s'). map_option info (nodes s' b) = map_option info (nodes s b))"
  using assms
proof (induction zs arbitrary: ys s p)
  case Nil
  then show ?case by (subst foreach_safe.simps) simp
next
  case (Cons a zs)
  obtain n where n: "p = Ptr a" "nodes s a = Some n" "seg (nodes s) (entries n) zs NULL"
    using Cons.prems(2) by (auto split: option.splits)
  obtain t where t: "thread_at s a = Some t" using Cons.prems(3) by auto
  have d: "distinct (ys @ a # zs)" using Cons.prems(1) by (simp add: linked_def)
  show ?case
  proof (cases "f n")
    case True
    obtain s1 where s1: "join_and_free a s = Some s1" "linked s1 (ys @ zs)" "created s1 = created s" "joined s1 = joined s @ [t]"
      "\<And>b. b \<noteq> a \<Longrightarrow> map_option info (nodes s1 b) = map_option info (nodes s b)"
      "\<And>b. b \<noteq> a \<Longrightarrow> b \<notin> set ys \<Longrightarrow> nodes s1 b = nodes s b" using join_and_free_linked [OF Cons.prems(1) t] by metis
    have "\<forall>b \<in> set zs. nodes s1 b = nodes s b" using d by (intro ballI s1(6)) auto
    note z = reap_cong [of zs s1 s, OF this]
    have "seg (nodes s1) (entries n) zs NULL" "\<forall>a \<in> set zs. thread_at s1 a \<noteq> None" using n(3) z(1,4) Cons.prems(3) by simp_all
    from Cons.IH [OF s1(2) this, unfolded z(3) z(2) [of f] z(2) [of "\<lambda>n. \<not> f n"]] obtain s' where s': "foreach_safe f (entries n) s1 = Some s'"
      "linked s' (ys @ filter (\<lambda>a. \<not> f (the (nodes s a))) zs)" "created s' = created s1"
      "joined s' = joined s1 @ map (the \<circ> thread_at s) (filter (\<lambda>a. f (the (nodes s a))) zs)"
      "\<forall>b \<in> dom (nodes s'). map_option info (nodes s' b) = map_option info (nodes s1 b)"
      by blast
    have "foreach_safe f p s = Some s'" using n True s1(1) s'(1) by (subst foreach_safe.simps) simp
    moreover have "map_option info (nodes s' b) = map_option info (nodes s b)" if "b \<in> dom (nodes s')" for b
    proof -
      have "b \<noteq> a" using that s'(2) d by (auto simp: linked_def)
      with s'(5) s1(5) that show ?thesis by simp
    qed
    ultimately show ?thesis using s' s1(3,4) n(2) True t by simp
  next
    case False
    from Cons.IH [of s "ys @ [a]" "entries n"] Cons.prems n(3) obtain s' where
      "foreach_safe f (entries n) s = Some s'" "linked s' (ys @ a # filter (\<lambda>a. \<not> f (the (nodes s a))) zs)"
      "created s' = created s" "joined s' = joined s @ map (the \<circ> thread_at s) (filter (\<lambda>a. f (the (nodes s a))) zs)"
      "\<forall>b \<in> dom (nodes s'). map_option info (nodes s' b) = map_option info (nodes s b)" by auto
    moreover have "foreach_safe f p s = foreach_safe f (entries n) s" using n False by (subst foreach_safe.simps) simp
    ultimately show ?thesis using n(2) False by simp
  qed
qed

section \<open>The main loop\<close>

lemma thread_at_info: "map_option info (nodes s' b) = map_option info (nodes s b) \<Longrightarrow> thread_at s' b = thread_at s b"
  by (cases "nodes s b"; cases "nodes s' b") (auto simp: thread_at_def info_def)

lemma new_thread_inv:
  assumes "threads_inv s xs" "served e s" "\<not> interrupts e"
  obtains a t s' where "node_at e = Some a" "thread_made e = Some t" "new_thread e s = Some s'" "threads_inv s' (a # xs)"
    "created s' = created s @ [(t, accepted e)]" "joined s' = joined s" "nodes s' = (nodes s)(a \<mapsto>
       \<lparr>thread = Some t, isThreadComplete = False, clientfd = accepted e, entries = slh_first s\<rparr>)"
proof -
  obtain a t where a: "node_at e = Some a" "nodes s a = None" "thread_made e = Some t"
    using assms(2,3) by (auto simp: served_def split: option.splits)
  let ?n = "\<lparr>thread = Some t, isThreadComplete = False, clientfd = accepted e, entries = slh_first s\<rparr>"
  let ?s = "s\<lparr>nodes := (nodes s)(a \<mapsto> ?n), slh_first := Ptr a, created := created s @ [(t, accepted e)]\<rparr>"
  have new: "new_thread e s = Some ?s" using a by (simp add: new_thread_def SLIST_INSERT_HEAD_def)
  have na: "a \<notin> set xs" using assms(1) a(2) by (auto simp: threads_inv_def linked_def)
  have "thread_at ?s b = thread_at s b" if "b \<in> set xs" for b using that na by (auto simp: thread_at_def)
  moreover have "thread_at ?s a = Some t" by (simp add: thread_at_def)
  moreover have "linked ?s (a # xs)" using assms(1) na by (auto simp: threads_inv_def linked_def)
  ultimately have "threads_inv ?s (a # xs)" using assms(1) by (auto simp: threads_inv_def cong: image_cong map_cong)
  with that a new show ?thesis by simp
qed

lemma mark_complete_same:
  shows "thread_at (mark_complete cs s) = thread_at s" "slh_first (mark_complete cs s) = slh_first s"
    "created (mark_complete cs s) = created s" "joined (mark_complete cs s) = joined s"
    "dom (nodes (mark_complete cs s)) = dom (nodes s)" "threads_inv (mark_complete cs s) xs = threads_inv s xs"
proof -
  let ?s = "mark_complete cs s"
  have seg: "seg (nodes ?s) p ys q = seg (nodes s) p ys q" for p ys q
    by (induction ys arbitrary: p) (auto simp: mark_complete_def split: option.splits)
  show "thread_at ?s = thread_at s"
  proof
    fix b show "thread_at ?s b = thread_at s b" by (cases "nodes s b") (auto simp: thread_at_def mark_complete_def)
  qed
  moreover show "slh_first ?s = slh_first s" "created ?s = created s" "joined ?s = joined s" by (simp_all add: mark_complete_def)
  moreover show "dom (nodes ?s) = dom (nodes s)" by (auto simp: mark_complete_def dom_def)
  ultimately show "threads_inv ?s xs = threads_inv s xs" by (simp add: threads_inv_def linked_def seg)
qed

lemma mark_complete_inv:
  assumes "threads_inv s xs"
  shows "threads_inv (mark_complete cs s) xs" "slh_first (mark_complete cs s) = slh_first s"
    "created (mark_complete cs s) = created s" "joined (mark_complete cs s) = joined s"
  using assms by (simp_all add: mark_complete_same)

lemma foreach_inv:
  assumes "threads_inv s xs"
  obtains s' where "foreach_safe f (slh_first s) s = Some s'" "threads_inv s' (filter (\<lambda>a. \<not> f (the (nodes s a))) xs)"
    "created s' = created s" "joined s' = joined s @ map (the \<circ> thread_at s) (filter (\<lambda>a. f (the (nodes s a))) xs)"
    "\<forall>b \<in> dom (nodes s'). map_option info (nodes s' b) = map_option info (nodes s b)"
proof -
  let ?ys = "filter (\<lambda>a. \<not> f (the (nodes s a))) xs" and ?zs = "filter (\<lambda>a. f (the (nodes s a))) xs"
  have "linked s ([] @ xs)" "seg (nodes s) (slh_first s) xs NULL" "\<forall>a \<in> set xs. thread_at s a \<noteq> None"
    using assms by (auto simp: threads_inv_def linked_def)
  from foreach_safe_linked [OF this, of f] obtain s' where s': "foreach_safe f (slh_first s) s = Some s'" "linked s' ?ys"
    "created s' = created s" "joined s' = joined s @ map (the \<circ> thread_at s) ?zs"
    "\<forall>b \<in> dom (nodes s'). map_option info (nodes s' b) = map_option info (nodes s b)"
    by auto
  have ta: "thread_at s' b = thread_at s b" if "b \<in> set ?ys" for b
    using s'(2,5) that by (intro thread_at_info) (auto simp: linked_def)
  have "mset xs = mset ?zs + mset ?ys" by simp
  then have sp: "mset (map (the \<circ> thread_at s) xs) = mset (map (the \<circ> thread_at s) ?zs) + mset (map (the \<circ> thread_at s) ?ys)"
    by (simp only: mset_map image_mset_union)
  have me: "map (the \<circ> thread_at s') ?ys = map (the \<circ> thread_at s) ?ys" using ta by (intro map_cong) auto
  have "mset (map fst (created s')) = mset (joined s') + mset (map (the \<circ> thread_at s') ?ys)"
    unfolding me s'(3,4) using assms sp by (simp only: threads_inv_def mset_append add.assoc)
  then have "threads_inv s' ?ys" using assms s'(2) ta by (simp add: threads_inv_def del: mset_map mset_filter)
  with that s' show ?thesis by blast
qed

lemma listen_round_inv:
  assumes "threads_inv s xs" "served e s"
  obtains go s' ys where "listen_round e s = Some (go, s')" "threads_inv s' ys"
    "interrupts e \<or> (\<forall>a \<in> set ys. \<not> isThreadComplete (the (nodes s' a)))"
    "\<not> interrupts e \<longrightarrow> created s' = created s @ [(the (thread_made e), accepted e)]"
proof (cases "interrupts e")
  case True
  with that assms show ?thesis by (auto simp: listen_round_def interrupts_def)
next
  case False
  obtain a s1 where s1: "new_thread e s = Some s1" "threads_inv s1 (a # xs)"
    "created s1 = created s @ [(the (thread_made e), accepted e)]"
    using new_thread_inv [OF assms False] by (metis option.sel)
  let ?s2 = "mark_complete (completed e) s1"
  note m = mark_complete_inv [OF s1(2), of "completed e"]
  let ?ys = "filter (\<lambda>a. \<not> isThreadComplete (the (nodes ?s2 a))) (a # xs)"
  obtain s3 where s3: "foreach_safe isThreadComplete (slh_first ?s2) ?s2 = Some s3" "threads_inv s3 ?ys" "created s3 = created ?s2"
    "\<forall>b \<in> dom (nodes s3). map_option info (nodes s3 b) = map_option info (nodes ?s2 b)"
    using foreach_inv [OF m(1), of isThreadComplete] by metis
  have "\<not> isThreadComplete (the (nodes s3 b))" if "b \<in> set ?ys" for b
  proof -
    have d: "b \<in> dom (nodes s3)" using s3(2) that by (simp add: threads_inv_def linked_def)
    then obtain n where n: "nodes s3 b = Some n" by auto
    have "map_option info (nodes ?s2 b) = Some (info n)" using s3(4) d n by (metis option.simps(9))
    then obtain k where "nodes ?s2 b = Some k" "info k = info n" by auto
    moreover have "\<not> isThreadComplete (the (nodes ?s2 b))" using that by (auto split: if_splits)
    ultimately show ?thesis using n by (simp add: info_def)
  qed
  moreover have "listen_round e s = Some (\<not> ending e, s3)" using s1(1) s3(1) False
    by (auto simp: listen_round_def interrupts_def Let_def)
  ultimately show ?thesis using that s3(2,3) s1(3) m(3) by metis
qed

interpretation ll: event_loop listen_round served "\<lambda>s. \<exists>xs. threads_inv s xs"
  using listen_round_inv by unfold_locales metis

lemma listen_loop_eq: "listen_loop es s = until_stop listen_round es s"
  by (induction es arbitrary: s) (auto split: Option.bind_split)

lemma threads_inv_empty: "threads_inv s [] \<longleftrightarrow> slh_first s = NULL \<and> nodes s = Map.empty \<and> mset (map fst (created s)) = mset (joined s)"
  by (auto simp: threads_inv_def linked_def)

lemma listenLoop_correct:
  assumes "all_served es \<lparr>nodes = Map.empty, slh_first = NULL, created = [], joined = []\<rparr>"
  shows "case listenLoop es \<lparr>nodes = Map.empty, slh_first = p, created = [], joined = []\<rparr> of
      None \<Rightarrow> False
    | Some (Waiting s) \<Rightarrow> \<exists>xs. threads_inv s xs
    | Some (Returned rc s) \<Rightarrow> rc = 0 \<and> nodes s = Map.empty \<and> slh_first s = NULL \<and> mset (joined s) = mset (map fst (created s))"
proof -
  let ?s = "\<lparr>nodes = Map.empty, slh_first = NULL, created = [], joined = []\<rparr>"
  have "threads_inv ?s []" by (simp add: threads_inv_empty)
  then have "\<exists>xs. threads_inv ?s xs" by blast
  from ll.loop_defined [OF this assms [unfolded all_served_def], folded listen_loop_eq] obtain w s1 xs where s1: "listen_loop es ?s = Some (w, s1)" "threads_inv s1 xs" by blast
  obtain s2 where "foreach_safe (\<lambda>_. True) (slh_first s1) s1 = Some s2" "threads_inv s2 []"
    using foreach_inv [OF s1(2), of "\<lambda>_. True"] by (metis filter_False)
  with s1 show ?thesis by (auto simp: listenLoop_def SLIST_INIT_def threads_inv_empty)
qed

section \<open>Examples\<close>

lemma example_linked: "linked \<lparr>nodes = [1 \<mapsto> \<lparr>thread = Some 100, isThreadComplete = True, clientfd = 5, entries = Ptr 2\<rparr>,
     2 \<mapsto> \<lparr>thread = Some 101, isThreadComplete = False, clientfd = 6, entries = NULL\<rparr>],
     slh_first = Ptr 1, created = [(100, 5), (101, 6)], joined = []\<rparr> [1, 2]"
  by (auto simp: linked_def split: if_splits)

declare find_prev.simps [code] foreach_safe.simps [code]

section \<open>Properties\<close>

text \<open>
  C23. The list macros implement a list of nodes: inserting adds a new node in front, removing takes
  a node of the list out and changes nothing but links.
\<close>

theorem list_macros_refine:
  assumes "linked s xs"
  shows "(nodes s a = None \<longrightarrow> (\<exists>s'. SLIST_INSERT_HEAD a (s\<lparr>nodes := (nodes s)(a \<mapsto> n)\<rparr>) = Some s' \<and> linked s' (a # xs))) \<and>
    (a \<in> set xs \<longrightarrow> (\<exists>s'. SLIST_REMOVE a s = Some s' \<and> seg (nodes s') (slh_first s') (remove1 a xs) NULL \<and> same_info s s'))"
proof (intro conjI impI)
  assume "nodes s a = None"
  with assms have "a \<notin> set xs" by (auto simp: linked_def)
  with assms show "\<exists>s'. SLIST_INSERT_HEAD a (s\<lparr>nodes := (nodes s)(a \<mapsto> n)\<rparr>) = Some s' \<and> linked s' (a # xs)"
    by (auto simp: SLIST_INSERT_HEAD_def linked_def)
next
  assume "a \<in> set xs"
  then obtain ys zs where x: "xs = ys @ a # zs" by (meson split_list)
  have l: "seg (nodes s) (slh_first s) (ys @ a # zs) NULL" "distinct (ys @ a # zs)" using assms x by (auto simp: linked_def)
  then have "remove1 a xs = ys @ zs" using x by (simp add: remove1_append)
  with slist_remove [OF l] show "\<exists>s'. SLIST_REMOVE a s = Some s' \<and> seg (nodes s') (slh_first s') (remove1 a xs) NULL \<and> same_info s s'"
    by metis
qed

theorem list_macros_refine_witness:
  "\<exists>s'. SLIST_REMOVE 2 example_threads = Some s' \<and> seg (nodes s') (slh_first s') [1] NULL \<and> same_info example_threads s'"
  using list_macros_refine [of example_threads "[1, 2]" 2] example_linked by (simp add: example_threads_def)

end
