(* ===== verification/CommandQueue.thy ===== *)
theory CommandQueue
  imports NvmeInterface Interfaces
begin

text \<open>
  The command queue of the server, \<open>server/commandQueue.c\<close> and \<open>commandQueue.h\<close>: a ring of
  ten commands that are validated when they are enqueued and executed on the drive when they are
  processed.

  The state is the global \<open>CommandQueue\<close>. Its mutex makes the enqueueing and the dequeueing
  atomic steps; the execution of a command happens after the queue is unlocked and works on the
  drive only. An enumeration has one more constructor for the values of its integer type that
  are not enumerators. The result of an operation is the integer it returns.
\<close>

section \<open>Types\<close>

definition MAX_QUEUE_SIZE :: nat where
  "MAX_QUEUE_SIZE = 10"

datatype smState_t = idle | userMode | perfMode | error | smState_other u32

datatype commandType_e = adminCommand | userCommand | perfCommand | commandType_other u32

datatype ioType_t = read_to_file | write_from_file | read_to_buffer | write_to_buffer | status
  | ioType_other u32

datatype userCommandType_t = io | list_ns | create_ns | remove_ns | get_status
  | userCommandType_other u32

record userCommandInfo_t =
  userCommandType :: userCommandType_t
  ioType :: ioType_t
  partnum :: u8
  sector :: u32
  pathToFile :: cptr
  pathToFileLength :: u32
  cmdBuffer :: cptr
  bufferLength :: u32

record command_t =
  stateNeeded :: smState_t
  cmdType :: commandType_e
  userCmdInfo :: userCommandInfo_t
  perCmdInfo :: userCommandInfo_t

record CommandQueue_t =
  cmdQueue :: "command_t list"
  enqueueIndex :: u32
  dequeueIndex :: u32
  smState :: smState_t
  isQueueEmpty :: bool
  isInitComplete :: bool

text \<open>The values \<open>memset\<close> leaves: every enumeration at its first enumerator.\<close>

definition zero_info :: userCommandInfo_t where
  "zero_info = \<lparr>userCommandType = io, ioType = read_to_file, partnum = 0, sector = 0,
     pathToFile = (NULL, 0), pathToFileLength = 0, cmdBuffer = (NULL, 0), bufferLength = 0\<rparr>"

definition zero_command :: command_t where
  "zero_command = \<lparr>stateNeeded = idle, cmdType = adminCommand,
     userCmdInfo = zero_info, perCmdInfo = zero_info\<rparr>"

definition zero_queue :: CommandQueue_t where
  "zero_queue = \<lparr>cmdQueue = replicate MAX_QUEUE_SIZE zero_command, enqueueIndex = 0,
     dequeueIndex = 0, smState = idle, isQueueEmpty = False, isInitComplete = False\<rparr>"

section \<open>Operations\<close>

definition queue_next_index :: "u32 \<Rightarrow> u32" where
  "queue_next_index index = (index + 1) mod of_nat MAX_QUEUE_SIZE"

definition queue_is_full_locked :: "CommandQueue_t \<Rightarrow> bool" where
  "queue_is_full_locked q \<longleftrightarrow> \<not> isQueueEmpty q \<and> enqueueIndex q = dequeueIndex q"

definition queue_is_empty_locked :: "CommandQueue_t \<Rightarrow> bool" where
  "queue_is_empty_locked q = isQueueEmpty q"

definition validate_command :: "command_t option \<Rightarrow> error_t" where
  "validate_command cmd =
     (case cmd of
        None \<Rightarrow> ERROR_INPUT
      | Some c \<Rightarrow>
          (case cmdType c of
             commandType_other _ \<Rightarrow> ERROR_INPUT
           | _ \<Rightarrow> (case stateNeeded c of smState_other _ \<Rightarrow> ERROR_INPUT | _ \<Rightarrow> ERROR_NONE)))"

text \<open>A status of the drive returned as the integer result of the command.\<close>

definition as_int :: "nvmeStatus_t \<times> 'w nv \<Rightarrow> int \<times> 'w nv" where
  "as_int r = (nvme_code (fst r), snd r)"

definition execute_user_command ::
    "'w parted \<Rightarrow> userCommandInfo_t option \<Rightarrow> 'w nv \<Rightarrow> (int \<times> 'w nv) option" where
  "execute_user_command P cmd s =
     (case cmd of
        None \<Rightarrow> Some (error_code ERROR_INPUT, s)
      | Some c \<Rightarrow>
          (case userCommandType c of
             io \<Rightarrow>
               (case ioType c of
                  status \<Rightarrow> Some (as_int (nvmeGetStatus P s))
                | read_to_buffer \<Rightarrow>
                    if fst (cmdBuffer c) = NULL \<or> bufferLength c = 0
                    then Some (error_code ERROR_INPUT, s)
                    else map_option as_int (nvmeReadPartitionSector P 1 (sector c) (cmdBuffer c)
                           (ucast (bufferLength c)) s)
                | write_to_buffer \<Rightarrow>
                    if fst (cmdBuffer c) = NULL \<or> bufferLength c = 0
                    then Some (error_code ERROR_INPUT, s)
                    else map_option as_int (nvmeWritePartitionSector P 1 (sector c) (cmdBuffer c)
                           (ucast (bufferLength c)) s)
                | _ \<Rightarrow> Some (error_code ERROR_NOT_SUPPORTED, s))
           | list_ns \<Rightarrow> Some (as_int (nvmeListNamespace P s))
           | create_ns \<Rightarrow>
               map_option (\<lambda>(st, newPartNumber, s'). as_int (st, s')) (nvmeCreatePartition P (sector c) 0 s)
           | remove_ns \<Rightarrow> map_option as_int (nvmeDeletePartition P (sector c) s)
           | get_status \<Rightarrow> Some (as_int (nvmeGetStatus P s))
           | userCommandType_other _ \<Rightarrow> Some (error_code ERROR_INPUT, s)))"

definition execute_perf_command :: "command_t \<Rightarrow> error_t" where
  "execute_perf_command cmd = ERROR_NOT_SUPPORTED"

definition execute_admin_command :: "command_t \<Rightarrow> error_t" where
  "execute_admin_command cmd = ERROR_NOT_SUPPORTED"

text \<open>\<open>mutex_ok\<close> is whether \<open>pthread_mutex_init\<close> succeeds.\<close>

definition commandQueueInit :: "bool \<Rightarrow> int \<times> CommandQueue_t" where
  "commandQueueInit mutex_ok =
     (if \<not> mutex_ok then (error_code ERROR_GENERAL, zero_queue)
      else (error_code ERROR_NONE,
        zero_queue\<lparr>enqueueIndex := 0, dequeueIndex := 0, isQueueEmpty := True,
          isInitComplete := True, smState := idle\<rparr>))"

text \<open>
  The two critical sections. An index outside the array is out of bounds and undefined in C;
  the invariant below excludes it.
\<close>

definition dequeue_locked :: "CommandQueue_t \<Rightarrow> command_t option \<times> CommandQueue_t" where
  "dequeue_locked q =
     (if queue_is_empty_locked q then (None, q)
      else
        (let i = unat (dequeueIndex q);
             nextCommand = cmdQueue q ! i;
             q1 = q\<lparr>cmdQueue := (cmdQueue q)[i := zero_command],
                    dequeueIndex := queue_next_index (dequeueIndex q)\<rparr>;
             q2 = (if dequeueIndex q1 = enqueueIndex q1 then q1\<lparr>isQueueEmpty := True\<rparr> else q1)
         in (Some nextCommand, q2)))"

definition enqueue_locked :: "command_t \<Rightarrow> CommandQueue_t \<Rightarrow> bool \<times> CommandQueue_t" where
  "enqueue_locked cmd q =
     (if queue_is_full_locked q then (False, q)
      else (True, q\<lparr>cmdQueue := (cmdQueue q)[unat (enqueueIndex q) := cmd],
              enqueueIndex := queue_next_index (enqueueIndex q), isQueueEmpty := False\<rparr>))"

text \<open>The execution of a dequeued command while the state machine is in state \<open>st\<close>.\<close>

definition execute_command ::
    "'w parted \<Rightarrow> smState_t \<Rightarrow> command_t \<Rightarrow> 'w nv \<Rightarrow> (int \<times> 'w nv) option" where
  "execute_command P st nextCommand s =
     (if stateNeeded nextCommand \<noteq> st \<and> stateNeeded nextCommand \<noteq> idle
      then Some (error_code ERROR_STATE, s)
      else (case cmdType nextCommand of
          userCommand \<Rightarrow> execute_user_command P (Some (userCmdInfo nextCommand)) s
        | perfCommand \<Rightarrow> Some (error_code (execute_perf_command nextCommand), s)
        | adminCommand \<Rightarrow> Some (error_code (execute_admin_command nextCommand), s)
        | commandType_other _ \<Rightarrow> Some (error_code ERROR_INPUT, s)))"

definition processNextCommandInQueue ::
    "'w parted \<Rightarrow> CommandQueue_t \<times> 'w nv \<Rightarrow> (int \<times> CommandQueue_t \<times> 'w nv) option" where
  "processNextCommandInQueue P = (\<lambda>(q, s).
     if \<not> isInitComplete q then Some (error_code ERROR_NO_INIT, q, s)
     else (case dequeue_locked q of
         (None, q') \<Rightarrow> Some (error_code ERROR_EMPTY_QUEUE, q', s)
       | (Some nextCommand, q') \<Rightarrow>
           map_option (\<lambda>(ret, s'). (ret, q', s')) (execute_command P (smState q') nextCommand s)))"

definition enqueue_command :: "command_t option \<Rightarrow> CommandQueue_t \<Rightarrow> int \<times> CommandQueue_t" where
  "enqueue_command cmd q =
     (if \<not> isInitComplete q then (error_code ERROR_NO_INIT, q)
      else if validate_command cmd \<noteq> ERROR_NONE then (error_code (validate_command cmd), q)
      else (case enqueue_locked (the cmd) q of
          (False, q') \<Rightarrow> (error_code ERROR_FULL_QUEUE, q')
        | (True, q') \<Rightarrow> (error_code ERROR_NONE, q')))"

definition get_queue_status :: "CommandQueue_t \<Rightarrow> int" where
  "get_queue_status q =
     (if \<not> isInitComplete q then error_code ERROR_NO_INIT
      else if queue_is_empty_locked q then error_code ERROR_EMPTY_QUEUE
      else if queue_is_full_locked q then error_code ERROR_FULL_QUEUE
      else error_code ERROR_NONE)"

section \<open>Specification notions\<close>

text \<open>
  The number of commands waiting, the commands in order, and the invariant of the queue.
\<close>

definition queue_count :: "CommandQueue_t \<Rightarrow> nat" where
  "queue_count q =
     (if isQueueEmpty q then 0
      else if unat (dequeueIndex q) < unat (enqueueIndex q)
        then unat (enqueueIndex q) - unat (dequeueIndex q)
        else unat (enqueueIndex q) + MAX_QUEUE_SIZE - unat (dequeueIndex q))"

definition queue_content :: "CommandQueue_t \<Rightarrow> command_t list" where
  "queue_content q = ring_list (cmdQueue q) (unat (dequeueIndex q)) (queue_count q)"

definition queue_inv :: "CommandQueue_t \<Rightarrow> bool" where
  "queue_inv q \<longleftrightarrow> isInitComplete q \<and> smState q = idle \<and> length (cmdQueue q) = MAX_QUEUE_SIZE \<and>
     unat (enqueueIndex q) < MAX_QUEUE_SIZE \<and> unat (dequeueIndex q) < MAX_QUEUE_SIZE \<and>
     (isQueueEmpty q \<longrightarrow> enqueueIndex q = dequeueIndex q)"

text \<open>
  What the threads of the server ask of the queue, and one request carried out by the code.
\<close>

datatype request = Enqueue "command_t option" | Process | Query

fun queue_step :: "'w parted \<Rightarrow> CommandQueue_t \<times> 'w nv \<Rightarrow> request \<Rightarrow> (int \<times> CommandQueue_t \<times> 'w nv) option" where
  "queue_step P (q, s) (Enqueue cmd) = (let (ret, q') = enqueue_command cmd q in Some (ret, q', s))"
| "queue_step P (q, s) Process = processNextCommandInQueue P (q, s)"
| "queue_step P (q, s) Query = Some (get_queue_status q, q, s)"

text \<open>
  The specification: a list of at most ten commands, the codes written out.
\<close>

fun spec_step :: "'w parted \<Rightarrow> command_t list \<times> 'w nv \<Rightarrow> request \<Rightarrow> (int \<times> command_t list \<times> 'w nv) option" where
  "spec_step P (cs, s) (Enqueue cmd) =
     (case cmd of
        None \<Rightarrow> Some (- 2, cs, s)
      | Some c \<Rightarrow>
          if validate_command (Some c) \<noteq> ERROR_NONE then Some (- 2, cs, s)
          else if length cs < 10 then Some (0, cs @ [c], s) else Some (- 7, cs, s))"
| "spec_step P (cs, s) Process =
     (case cs of
        [] \<Rightarrow> Some (- 4, [], s)
      | c # cs' \<Rightarrow> map_option (\<lambda>(ret, s'). (ret, cs', s')) (execute_command P idle c s))"
| "spec_step P (cs, s) Query =
     Some (if cs = [] then - 4 else if length cs = 10 then - 7 else 0, cs, s)"

text \<open>
  The queue and the list of its waiting commands, on the same drive.
\<close>

definition queue_rel :: "CommandQueue_t \<times> 'w nv \<Rightarrow> command_t list \<times> 'w nv \<Rightarrow> bool" where
  "queue_rel c a \<longleftrightarrow> queue_inv (fst c) \<and> fst a = queue_content (fst c) \<and> snd a = snd c"

section \<open>The ring\<close>

lemma unat_next [simp]: "unat i < 10 \<Longrightarrow> unat (queue_next_index i) = Suc (unat i) mod 10"
  by (simp add: queue_next_index_def MAX_QUEUE_SIZE_def unat_mod unat_word_ariths)

lemma queue_next_eq: "unat i < 10 \<Longrightarrow> queue_next_index i = j \<longleftrightarrow> unat j = Suc (unat i) mod 10"
  by (metis unat_next word_unat_eq_iff)

lemma queue_count_bound: "queue_inv q \<Longrightarrow> queue_count q \<le> 10"
  by (auto simp: queue_count_def queue_inv_def MAX_QUEUE_SIZE_def)

lemma length_queue_content [simp]: "length (queue_content q) = queue_count q"
  by (simp add: queue_content_def)

lemma queue_content_Nil: "queue_content q = [] \<longleftrightarrow> queue_count q = 0"
  by (simp flip: length_queue_content)

lemma queue_full_iff: "queue_inv q \<Longrightarrow> queue_is_full_locked q \<longleftrightarrow> queue_count q = 10"
  by (auto simp: queue_inv_def queue_count_def queue_is_full_locked_def MAX_QUEUE_SIZE_def word_unat_eq_iff)

lemma queue_empty_iff: "queue_inv q \<Longrightarrow> queue_is_empty_locked q \<longleftrightarrow> queue_count q = 0"
  by (auto simp: queue_inv_def queue_count_def queue_is_empty_locked_def MAX_QUEUE_SIZE_def)

lemma enqueue_index:
  "queue_inv q \<Longrightarrow> queue_count q < 10 \<Longrightarrow> unat (enqueueIndex q) = (unat (dequeueIndex q) + queue_count q) mod 10"
  by (auto simp: queue_inv_def queue_count_def MAX_QUEUE_SIZE_def mod_if split: if_splits)

lemma enqueue_room:
  assumes inv: "queue_inv q" and room: "queue_count q < 10"
  shows "\<exists>q'. enqueue_locked c q = (True, q') \<and> queue_inv q' \<and> queue_content q' = queue_content q @ [c]"
proof -
  let ?q = "q\<lparr>cmdQueue := (cmdQueue q)[unat (enqueueIndex q) := c],
              enqueueIndex := queue_next_index (enqueueIndex q), isQueueEmpty := False\<rparr>"
  have "enqueue_locked c q = (True, ?q)" using room queue_full_iff [OF inv] by (simp add: enqueue_locked_def)
  moreover have "queue_inv ?q" using inv by (simp add: queue_inv_def MAX_QUEUE_SIZE_def)
  moreover have "queue_count ?q = Suc (queue_count q)" using inv room
    by (auto simp: queue_inv_def queue_count_def MAX_QUEUE_SIZE_def mod_Suc split: if_splits)
  moreover have "queue_content ?q = queue_content q @ [c]"
    using inv room enqueue_index [OF inv room] ring_list_append [of "queue_count q" "cmdQueue q" "unat (dequeueIndex q)" c] calculation(3)
    by (simp add: queue_content_def queue_inv_def MAX_QUEUE_SIZE_def)
  ultimately show ?thesis by blast
qed

lemma dequeue_first:
  assumes inv: "queue_inv q" and c: "queue_content q = c # cs"
  shows "\<exists>q'. dequeue_locked q = (Some c, q') \<and> queue_inv q' \<and> queue_content q' = cs"
proof -
  let ?d = "unat (dequeueIndex q)"
  obtain n where n: "queue_count q = Suc n" using c by (metis length_queue_content length_Cons)
  have len: "length (cmdQueue q) = 10" "?d < 10" using inv by (simp_all add: queue_inv_def MAX_QUEUE_SIZE_def)
  have hd: "cmdQueue q ! ?d = c" "ring_list (cmdQueue q) (Suc ?d mod 10) n = cs"
    using c n len by (simp_all add: queue_content_def ring_list_Cons)
  let ?q1 = "q\<lparr>cmdQueue := (cmdQueue q)[?d := zero_command], dequeueIndex := queue_next_index (dequeueIndex q)\<rparr>"
  let ?q2 = "if dequeueIndex ?q1 = enqueueIndex ?q1 then ?q1\<lparr>isQueueEmpty := True\<rparr> else ?q1"
  have "dequeue_locked q = (Some c, ?q2)" using n queue_empty_iff [OF inv] hd(1) by (simp add: dequeue_locked_def Let_def)
  moreover have "queue_inv ?q2" using inv n by (auto simp: queue_inv_def MAX_QUEUE_SIZE_def queue_count_def)
  moreover have "queue_count ?q2 = n" using inv n
    by (auto simp: queue_inv_def queue_count_def MAX_QUEUE_SIZE_def queue_next_eq mod_Suc word_unat_eq_iff split: if_splits)
  moreover have "unat (dequeueIndex ?q2) = Suc ?d mod 10" "cmdQueue ?q2 = (cmdQueue q)[?d := zero_command]"
    using len by (simp_all add: queue_next_eq)
  then have "queue_content ?q2 = cs"
    using hd(2) len calculation(3) queue_count_bound [OF inv] n ring_list_clear_first [of ?d "cmdQueue q" n zero_command]
    by (simp add: queue_content_def)
  ultimately show ?thesis by blast
qed

interpretation cq: bounded_fifo enqueue_locked dequeue_locked queue_content queue_inv MAX_QUEUE_SIZE
proof (unfold_locales, goal_cases)
  case (1 q)
  then show ?case using queue_count_bound by (simp add: MAX_QUEUE_SIZE_def)
next
  case (2 q c)
  then show ?case using enqueue_room by (simp add: MAX_QUEUE_SIZE_def)
next
  case (3 q c)
  then show ?case using queue_full_iff [of q] by (simp add: enqueue_locked_def MAX_QUEUE_SIZE_def)
next
  case (4 q)
  then have "queue_count q = 0" by (metis length_queue_content list.size(3))
  with 4 show ?case using queue_empty_iff [of q] by (simp add: dequeue_locked_def)
next
  case (5 q c cs)
  then show ?case by (rule dequeue_first)
qed

section \<open>Refinement of a list\<close>

lemma queue_init: "queue_inv (snd (commandQueueInit True))" "queue_content (snd (commandQueueInit True)) = []"
  by (simp_all add: commandQueueInit_def queue_inv_def queue_content_def queue_count_def zero_queue_def MAX_QUEUE_SIZE_def)

lemma queue_sim_enqueue:
  assumes "queue_inv q"
  shows "\<exists>ret q'. enqueue_command cmd q = (ret, q') \<and> queue_inv q' \<and>
    spec_step P (queue_content q, s) (Enqueue cmd) = Some (ret, queue_content q', s)"
proof -
  have i: "isInitComplete q" using assms by (simp add: queue_inv_def)
  show ?thesis
  proof (cases "validate_command cmd = ERROR_NONE")
    case False
    then have "validate_command cmd = ERROR_INPUT"
      by (auto simp: validate_command_def split: option.splits commandType_e.splits smState_t.splits)
    with assms i show ?thesis by (cases cmd) (auto simp: enqueue_command_def)
  next
    case True
    then obtain c where c: "cmd = Some c" by (cases cmd) (auto simp: validate_command_def)
    from assms show ?thesis
      by (cases rule: cq.put_cases [of _ c]) (use True c i assms in \<open>auto simp: enqueue_command_def MAX_QUEUE_SIZE_def\<close>)
  qed
qed

lemma queue_status_spec:
  "queue_inv q \<Longrightarrow> get_queue_status q = (if queue_content q = [] then - 4 else if length (queue_content q) = 10 then - 7 else 0)"
  using queue_full_iff [of q] queue_empty_iff [of q]
  by (auto simp: get_queue_status_def queue_inv_def queue_content_Nil)

lemma queue_state_idle: "queue_inv q \<Longrightarrow> smState q = idle" "queue_inv q \<Longrightarrow> isInitComplete q"
  by (simp_all add: queue_inv_def)

lemma queue_sim:
  assumes "queue_rel c a"
  shows "case queue_step P c i of
      None \<Rightarrow> spec_step P a i = None
    | Some (r, c') \<Rightarrow> \<exists>a'. spec_step P a i = Some (r, a') \<and> queue_rel c' a'"
proof -
  obtain q s where c: "c = (q, s)" by (cases c)
  from assms c have a: "a = (queue_content q, s)" and inv: "queue_inv q"
    by (auto simp: queue_rel_def prod_eq_iff)
  show ?thesis
  proof (cases i)
    case (Enqueue cmd)
    with queue_sim_enqueue [OF inv, of cmd P s] c a show ?thesis by (auto simp: queue_rel_def)
  next
    case Process
    from inv show ?thesis
    proof (cases rule: cq.get_cases)
      case 1
      with Process c a inv show ?thesis
        by (simp add: processNextCommandInQueue_def queue_rel_def queue_state_idle)
    next
      case (2 x q')
      with Process c a inv show ?thesis
        by (cases "execute_command P idle x s")
          (auto simp: processNextCommandInQueue_def queue_rel_def queue_state_idle)
    qed
  next
    case Query
    with queue_status_spec [OF inv] assms c a show ?thesis by auto
  qed
qed

interpretation qsim: simulation "queue_step P" "spec_step P" queue_rel for P
  using queue_sim by unfold_locales (fastforce split: option.splits)+

section \<open>Calls on the drive\<close>

lemma execute_user_safe:
  assumes "execute_user_command P cmd s = Some (r, s')"
  shows "safe_step s s'"
  using assms
  by (auto simp: execute_user_command_def as_int_def intro: drive_safe split: option.splits userCommandType_t.splits ioType_t.splits if_splits)

lemma execute_safe:
  assumes "execute_command P st c s = Some (r, s')"
  shows "safe_step s s'"
  using assms execute_user_safe
  by (auto simp: execute_command_def split: commandType_e.splits if_splits)

lemma queue_step_safe:
  assumes "queue_step P (q, s) i = Some (r, q', s')"
  shows "safe_step s s'"
  using assms execute_safe
  by (cases i) (auto simp: processNextCommandInQueue_def Let_def split: if_splits option.splits prod.splits)

interpretation qmon: monitored "queue_step P" "calls \<circ> snd" "guarded {}" for P
proof (unfold_locales, goal_cases)
  case (3 c i r c')
  then show ?case using queue_step_safe [of P "fst c" "snd c" i r "fst c'" "snd c'"]
    by (simp add: safe_step_def)
qed (auto intro: guarded_append)

lemma queue_rel_init: "queue_rel (snd (commandQueueInit True), s) ([], s)"
  using queue_init by (simp add: queue_rel_def)

section \<open>Properties\<close>

text \<open>
  C7. The queue refines a list of at most ten commands: for every sequence of requests from its
  initialisation it returns the codes the specification returns, does the same to the drive, is
  undefined only where the specification is, and ends with the same commands waiting.
\<close>

theorem queue_refines_list:
  "case run_seq (queue_step P) (snd (commandQueueInit True), s) reqs of
     None \<Rightarrow> run_seq (spec_step P) ([], s) reqs = None
   | Some (rets, q, s') \<Rightarrow>
       run_seq (spec_step P) ([], s) reqs = Some (rets, queue_content q, s') \<and> queue_inv q"
  using qsim.run_sim [OF queue_rel_init [of s], of P reqs]
  by (cases "run_seq (queue_step P) (snd (commandQueueInit True), s) reqs") (auto simp: queue_rel_def)

text \<open>
  C8. Commands leave the queue in the order in which they were accepted; none is lost, duplicated or
  made up, and never more than ten wait.
\<close>

theorem queue_is_fifo:
  "case fifo_run enqueue_locked dequeue_locked (snd (commandQueueInit True)) reqs of
     (accepted, delivered, q) \<Rightarrow> accepted = delivered @ queue_content q \<and>
       length (queue_content q) \<le> MAX_QUEUE_SIZE"
  using cq.fifo_conserves [OF queue_init(1)] queue_init(2) cq.bound
  by (auto split: prod.split)

text \<open>
  Whatever is requested of the queue in whatever state, only partitions whose name was checked are
  deleted or written.
\<close>

lemma queue_calls_guarded:
  "case run_seq (queue_step P) (q, s) reqs of None \<Rightarrow> True | Some (rets, q', s') \<Rightarrow> safe_step s s'"
  using qmon.run_good [of P "(q, s)" reqs] by (auto simp: safe_step_def split: option.split)

text \<open>
  A command that needs a mode other than idle is taken out of the queue and answered with a state
  error without reaching the drive: no code ever leaves the idle state.
\<close>

lemma queue_drops_mode_commands:
  assumes "queue_inv q" "queue_content q = c # cs" "stateNeeded c \<noteq> idle"
  shows "\<exists>q'. processNextCommandInQueue P (q, s) = Some (error_code ERROR_STATE, q', s) \<and>
    queue_inv q' \<and> queue_content q' = cs"
  using dequeue_first [OF assms(1,2)] assms
  by (auto simp: processNextCommandInQueue_def execute_command_def queue_state_idle)

text \<open>
  The partition number of a user command has no effect on its execution.
\<close>

lemma queue_ignores_partnum:
  "execute_user_command P (Some (u\<lparr>partnum := k\<rparr>)) s = execute_user_command P (Some u) s"
  by (cases "userCommandType u"; cases "ioType u") (simp_all add: execute_user_command_def)

end
