(* ===== verification/ServerMain.thy ===== *)
theory ServerMain
  imports ThreadList CommandQueue ServerText
begin

text \<open>
  The rest of \<open>server/aesdsocket.c\<close>: the signal handler, the timestamp timer, opening the
  listening socket, sending the log to a client, cleaning up, and \<open>main\<close>, which puts the command
  queue and the accept loop together.

  The state is the program's global variables, the log file and the descriptors the main thread
  has open. What the system answers is an argument: one field of a record per call, or a list of
  the results of a repeated call.
\<close>

section \<open>State\<close>

text \<open>\<open>addrinfo\<close> is whether the address list is allocated; \<open>logData\<close> is the log file, if it exists.\<close>

record server =
  addrinfo :: bool
  sockfd :: int
  endProgram :: int
  runAsDaemon :: bool
  timerArmed :: bool
  logData :: "byte list option"
  openFds :: "int list"

definition initial_server :: "byte list option \<Rightarrow> server" where
  "initial_server log = \<lparr>addrinfo = False, sockfd = - 1, endProgram = 0, runAsDaemon = False,
     timerArmed = False, logData = log, openFds = []\<rparr>"

definition SIGINT :: int where "SIGINT = 2"
definition SIGTERM :: int where "SIGTERM = 15"

definition handle_sigint :: "int \<Rightarrow> server \<Rightarrow> server" where
  "handle_sigint sig s =
     (let s1 = (if sig = SIGINT \<or> sig = SIGTERM then s\<lparr>endProgram := 1\<rparr> else s)
      in s1\<lparr>endProgram := 1\<rparr>)"

section \<open>The timestamp timer\<close>

text \<open>
  The callback formats into 64 bytes: \<open>stamp\<close> is what \<open>strftime\<close> stored behind the prefix (its
  length is the result), \<open>logfd\<close> what \<open>open\<close> returned, which creates the log, and \<open>written\<close>
  how many bytes \<open>write\<close> appended.
\<close>

definition timerCallback :: "byte list \<Rightarrow> int \<Rightarrow> nat \<Rightarrow> server \<Rightarrow> server option" where
  "timerCallback stamp logfd written s =
     (let str = bytes_of_text ''timestamp:'' @ stamp;
          str = str @ replicate (64 - length str) 0;
          charsWritten = length stamp
      in if 64 < charsWritten then Some s
         else
           (let charsWritten = charsWritten + 10 in
            if 64 \<le> charsWritten then None
            else
              (let str = str[charsWritten := 10];
                   charsWritten = charsWritten + 1
               in if logfd < 0 then Some s
                  else
                    (let old = (case logData s of None \<Rightarrow> [] | Some bs \<Rightarrow> bs)
                     in Some (s\<lparr>logData := Some (old @ take written (take charsWritten str))\<rparr>)))))"

definition startIntervalLoggingTimer :: "int \<Rightarrow> int \<Rightarrow> server \<Rightarrow> int \<times> server" where
  "startIntervalLoggingTimer created_rc settime_rc s =
     (if created_rc = - 1 then (- 1, s)
      else if settime_rc = - 1 then (- 1, s)
      else (0, s\<lparr>timerArmed := True\<rparr>))"

section \<open>Opening the socket and cleaning up\<close>

record open_answers =
  a_socket :: int
  a_getaddrinfo :: int
  a_setsockopt :: int
  a_bind :: int
  a_fork :: int
  a_setsid :: int
  a_null :: int
  a_dup_in :: int
  a_dup_out :: int
  a_dup_err :: int

text \<open>\<open>Exits\<close> is the end of the process: the parent after the fork.\<close>

datatype open_end = Returns int | Exits int

definition daemonize :: "open_answers \<Rightarrow> server \<Rightarrow> open_end \<times> server" where
  "daemonize a s =
     (if a_fork a \<noteq> 0 then (Exits 0, s)
      else if a_setsid a < 0 then (Returns (- 1), s)
      else if a_null a < 0 then (Returns (- 1), s)
      else
        (let s1 = s\<lparr>openFds := a_null a # openFds s\<rparr> in
         if a_dup_in a < 0 then (Returns (- 1), s1)
         else if a_dup_out a < 0 then (Returns (- 1), s1)
         else if a_dup_err a < 0 then (Returns (- 1), s1)
         else (Returns 0, s1)))"

definition openSocket :: "open_answers \<Rightarrow> server \<Rightarrow> open_end \<times> server" where
  "openSocket a s =
     (let s1 = s\<lparr>sockfd := a_socket a\<rparr> in
      if sockfd s1 = - 1 then (Returns (- 1), s1)
      else
        (let s2 = s1\<lparr>openFds := sockfd s1 # openFds s1\<rparr> in
         if a_getaddrinfo a \<noteq> 0 then (Returns (- 1), s2)
         else
           (let s3 = s2\<lparr>addrinfo := True\<rparr> in
            if a_setsockopt a = - 1 then (Returns (- 1), s3)
            else if a_bind a = - 1 then (Returns (- 1), s3)
            else if runAsDaemon s3 then daemonize a s3
            else (Returns 0, s3))))"

text \<open>\<open>remove_rc\<close> is the result of removing the log file.\<close>

definition cleanupProgram :: "int \<Rightarrow> server \<Rightarrow> int \<times> server" where
  "cleanupProgram remove_rc s =
     (let s1 = (if addrinfo s then s\<lparr>addrinfo := False\<rparr> else s);
          s2 = (if sockfd s1 \<noteq> - 1
                then s1\<lparr>openFds := remove1 (sockfd s1) (openFds s1), sockfd := - 1\<rparr> else s1);
          s3 = (if logData s2 \<noteq> None \<and> remove_rc \<noteq> - 1 then s2\<lparr>logData := None\<rparr> else s2)
      in (0, s3))"

section \<open>Sending the log\<close>

text \<open>
  The inner loop sends the piece \<open>buf\<close> from position \<open>k\<close> on; \<open>ms\<close> are the results of the
  calls of \<open>send\<close>. The result is whether it succeeded, what the client got and the results that
  are left; \<open>None\<close> is a call that has not returned.
\<close>

fun send_piece :: "byte list \<Rightarrow> nat \<Rightarrow> int list \<Rightarrow> (bool \<times> byte list \<times> int list) option" where
  "send_piece buf k ms =
     (if k < length buf
      then (case ms of
          [] \<Rightarrow> None
        | m # ms' \<Rightarrow>
            if m < 0 then Some (False, [], ms')
            else map_option (\<lambda>(ok, out, r). (ok, take (nat m) (drop k buf) @ out, r))
                   (send_piece buf (k + nat m) ms'))
      else Some (True, [], ms))"

declare send_piece.simps [simp del]

text \<open>The results of \<open>read\<close>: an error, or a piece of at most 64 bytes, empty at the end of the file.\<close>

fun sendFullLogWExistingFD :: "byte list option list \<Rightarrow> int list \<Rightarrow> (int \<times> byte list) option" where
  "sendFullLogWExistingFD [] ms = None"
| "sendFullLogWExistingFD (None # rs) ms = Some (- 1, [])"
| "sendFullLogWExistingFD (Some buf # rs) ms =
     (if buf = [] then Some (0, [])
      else do {
        (ok, out, ms') \<leftarrow> send_piece buf 0 ms;
        if \<not> ok then Some (- 1, out)
        else map_option (\<lambda>(rc, rest). (rc, out @ rest)) (sendFullLogWExistingFD rs ms')
      })"

text \<open>The variant that opens the log and closes it on every path; the last part is the descriptors left open.\<close>

fun send_log_closing :: "int \<Rightarrow> byte list option list \<Rightarrow> int list \<Rightarrow> int list \<Rightarrow> (int \<times> byte list \<times> int list) option" where
  "send_log_closing fd [] ms fds = None"
| "send_log_closing fd (None # rs) ms fds = Some (- 1, [], remove1 fd fds)"
| "send_log_closing fd (Some buf # rs) ms fds =
     (if buf = [] then Some (0, [], remove1 fd fds)
      else do {
        (ok, out, ms') \<leftarrow> send_piece buf 0 ms;
        if \<not> ok then Some (- 1, out, remove1 fd fds)
        else map_option (\<lambda>(rc, rest, l). (rc, out @ rest, l)) (send_log_closing fd rs ms' fds)
      })"

definition sendFullLog ::
    "int \<Rightarrow> byte list option list \<Rightarrow> int list \<Rightarrow> int list \<Rightarrow> (int \<times> byte list \<times> int list) option" where
  "sendFullLog fd rs ms fds =
     (if fd = - 1 then Some (- 1, [], fds) else send_log_closing fd rs ms (fd # fds))"

section \<open>The program\<close>

text \<open>
  \<open>main\<close> on its arguments, with the answers of the system, the results of the two mutex
  initialisations, the events of the accept loop and the result of removing the log. It ends the
  process, returns, or still waits for connections.
\<close>

record main_world =
  answers :: open_answers
  log_mutex_rc :: int
  queue_mutex_ok :: bool
  events :: "accept_event list"
  remove_rc :: int

datatype main_end =
    Process_exit int
  | Main_waiting server threads CommandQueue_t
  | Main_returned int server threads CommandQueue_t

definition no_threads :: threads where
  "no_threads = \<lparr>nodes = Map.empty, slh_first = NULL, created = [], joined = []\<rparr>"

definition parse_args :: "string list \<Rightarrow> server \<Rightarrow> server option" where
  "parse_args argv s =
     (if length argv = 2
      then Some (if argv ! 1 = ''-d'' then s\<lparr>runAsDaemon := True\<rparr> else s)
      else if length argv \<noteq> 1 then None else Some s)"

definition main :: "string list \<Rightarrow> main_world \<Rightarrow> server \<Rightarrow> main_end option" where
  "main argv w s =
     (case parse_args argv s of
        None \<Rightarrow> Some (Main_returned (- 1) s no_threads zero_queue)
      | Some s1 \<Rightarrow>
          (case openSocket (answers w) s1 of
             (Exits c, s2) \<Rightarrow> Some (Process_exit c)
           | (Returns _, s2) \<Rightarrow>
               (let rc = log_mutex_rc w;
                    (_, q) = commandQueueInit (queue_mutex_ok w)
                in if rc = 0 then do {
                     l \<leftarrow> listenLoop (events w) no_threads;
                     (case l of
                        Waiting t \<Rightarrow> Some (Main_waiting s2 t q)
                      | Returned rc1 t \<Rightarrow>
                          Some (Main_returned rc1 (snd (cleanupProgram (remove_rc w) s2)) t q))
                   } else Some (Main_returned rc (snd (cleanupProgram (remove_rc w) s2)) no_threads q))))"

section \<open>Specification notions\<close>

text \<open>
  The bytes the reads deliver up to the end of the file or an error.
\<close>

fun log_of :: "byte list option list \<Rightarrow> byte list" where
  "log_of (Some b # rs) = (if b = [] then [] else b @ log_of rs)"
| "log_of rs = []"

section \<open>Sending\<close>

lemma send_piece_out:
  assumes "send_piece buf k ms = Some (ok, out, ms')"
  shows "(ok \<longrightarrow> out = drop k buf) \<and> (\<exists>r. drop k buf = out @ r)"
  using assms
proof (induction buf k ms arbitrary: out ms' rule: send_piece.induct)
  case (1 buf k ms)
  show ?case
  proof (cases "k < length buf")
    case False
    with "1.prems" show ?thesis by (auto simp: send_piece.simps)
  next
    case True
    then obtain m ms1 where ms: "ms = m # ms1" using "1.prems" by (cases ms) (auto simp: send_piece.simps)
    show ?thesis
    proof (cases "m < 0")
      case True
      with "1.prems" ms \<open>k < length buf\<close> show ?thesis by (auto simp: send_piece.simps)
    next
      case False
      then obtain out1 where o: "send_piece buf (k + nat m) ms1 = Some (ok, out1, ms')" "out = take (nat m) (drop k buf) @ out1"
        using "1.prems" ms \<open>k < length buf\<close> by (auto simp: send_piece.simps [of buf k])
      from "1.IH" [OF \<open>k < length buf\<close> ms False o(1)] have
        i: "(ok \<longrightarrow> out1 = drop (nat m) (drop k buf)) \<and> (\<exists>r. drop (nat m) (drop k buf) = out1 @ r)"
        by (simp add: add.commute)
      have "drop k buf = take (nat m) (drop k buf) @ drop (nat m) (drop k buf)" by (rule append_take_drop_id [symmetric])
      with i o(2) show ?thesis by (metis append.assoc)
    qed
  qed
qed

lemma send_piece_progress:
  assumes "\<forall>m \<in> set ms. 1 \<le> m" "length buf - k \<le> length ms"
  shows "\<exists>ms'. send_piece buf k ms = Some (True, drop k buf, ms') \<and> set ms' \<subseteq> set ms \<and>
    length ms \<le> length ms' + (length buf - k)"
  using assms
proof (induction ms arbitrary: k)
  case Nil
  then show ?case by (simp add: send_piece.simps)
next
  case (Cons m ms)
  show ?case
  proof (cases "k < length buf")
    case False
    then show ?thesis by (simp add: send_piece.simps)
  next
    case True
    have m: "1 \<le> nat m" "\<not> m < 0" using Cons.prems by auto
    have "length buf - (k + nat m) \<le> length ms" using Cons.prems(2) m(1) by simp
    then obtain ms' where "send_piece buf (k + nat m) ms = Some (True, drop (k + nat m) buf, ms')" "set ms' \<subseteq> set ms"
      "length ms \<le> length ms' + (length buf - (k + nat m))" using Cons.IH [of "k + nat m"] Cons.prems(1) by auto
    moreover have "take (nat m) (drop k buf) @ drop (k + nat m) buf = drop k buf"
      by (metis add.commute append_take_drop_id drop_drop)
    ultimately show ?thesis using True m by (auto simp: send_piece.simps [of buf k])
  qed
qed

lemma send_log_result:
  assumes "send_log_closing fd rs ms fds = Some (rc, out, l)"
  shows "l = remove1 fd fds \<and> rc \<in> {0, - 1} \<and> (rc = 0 \<longrightarrow> out = log_of rs) \<and> (\<exists>r. log_of rs = out @ r)"
  using assms
proof (induction fd rs ms fds arbitrary: out rule: send_log_closing.induct)
  case (3 fd buf rs ms fds)
  show ?case
  proof (cases "buf = []")
    case False
    with "3.prems" obtain ok out1 ms1 where p: "send_piece buf 0 ms = Some (ok, out1, ms1)" by (auto split: bind_splits)
    note s = send_piece_out [OF p]
    show ?thesis
    proof (cases ok)
      case True
      with "3.prems" p False obtain rest where r: "send_log_closing fd rs ms1 fds = Some (rc, rest, l)" "out = out1 @ rest" by auto
      from "3.IH" [OF False p refl refl _ r(1)] True False s r(2) show ?thesis by auto
    qed (use "3.prems" p False s in auto)
  qed (use "3.prems" in auto)
qed auto

lemma send_log_progress:
  assumes "\<forall>c \<in> set cs. c \<noteq> []" "\<forall>m \<in> set ms. 1 \<le> m" "length (concat cs) \<le> length ms"
  shows "send_log_closing fd (map Some cs @ Some [] # rest) ms fds = Some (0, concat cs, remove1 fd fds)"
  using assms
proof (induction cs arbitrary: ms)
  case (Cons c cs)
  obtain ms1 where p: "send_piece c 0 ms = Some (True, c, ms1)" "set ms1 \<subseteq> set ms" "length ms \<le> length ms1 + length c"
    using send_piece_progress [of ms c 0] Cons.prems by auto
  then have "send_log_closing fd (map Some cs @ Some [] # rest) ms1 fds = Some (0, concat cs, remove1 fd fds)"
    using Cons.prems by (intro Cons.IH) auto
  with p(1) Cons.prems(1) show ?case by simp
qed simp

section \<open>Timestamps\<close>

text \<open>
  The timestamp line: \<open>strftime\<close> stores at most 53 bytes behind the prefix, so the newline is inside
  the buffer and the log gets the whole line.
\<close>

lemma timestamp_fits:
  assumes "length stamp \<le> 53" "0 \<le> logfd" "length stamp + 11 \<le> n"
  shows "timerCallback stamp logfd n s = Some (s\<lparr>logData := Some ((case logData s of None \<Rightarrow> [] | Some bs \<Rightarrow> bs) @
    bytes_of_text ''timestamp:'' @ stamp @ [10])\<rparr>)"
proof -
  let ?p = "bytes_of_text ''timestamp:''"
  have l: "length ?p = 10" by (simp add: bytes_of_text_def)
  obtain z where z: "replicate (64 - length (?p @ stamp)) (0 :: byte) = 0 # z" using assms(1) l
    by (cases "64 - length (?p @ stamp)") auto
  have "take (length stamp + 11) ((?p @ stamp @ 0 # z)[length stamp + 10 := 10]) = ?p @ stamp @ [10]"
    using l by (simp add: list_update_append)
  then show ?thesis using assms l z by (simp add: timerCallback_def Let_def add.commute)
qed

section \<open>Starting and ending\<close>

lemma open_then_clean:
  assumes "openSocket a s = (Returns r, s')" "\<not> addrinfo s" "sockfd s = - 1" "openFds s = []"
  shows "let c = snd (cleanupProgram rm s') in \<not> addrinfo c \<and> sockfd c = - 1 \<and> runAsDaemon c = runAsDaemon s \<and>
    set (openFds c) \<subseteq> (if runAsDaemon s then {a_null a} else {})"
proof -
  have "runAsDaemon s' = runAsDaemon s \<and> (sockfd s' = - 1 \<and> openFds s' = [] \<or> sockfd s' \<noteq> - 1 \<and>
      (openFds s' = [sockfd s'] \<or> runAsDaemon s \<and> openFds s' = [a_null a, sockfd s']))"
    using assms by (auto simp: openSocket_def daemonize_def Let_def split: if_splits)
  then show ?thesis by (auto simp: cleanupProgram_def Let_def split: if_splits)
qed

lemma listen_round_go: "listen_round e s = Some (go, s') \<Longrightarrow> \<not> interrupts e \<Longrightarrow> go = (\<not> ending e)"
  unfolding listen_round_def interrupts_def [symmetric] by (auto simp: Let_def bind_eq_Some_conv)

lemma failing_accepts:
  assumes "threads_inv s xs" "all_served es s" "\<forall>e \<in> set es. accepted e = - 1 \<and> \<not> interrupted e \<and> \<not> ending e"
  shows "\<exists>s'. listen_loop es s = Some (True, s') \<and> created s' = created s @ map (\<lambda>e. (the (thread_made e), - 1)) es"
  using assms
proof (induction es arbitrary: s xs)
  case (Cons e es)
  have e: "\<not> interrupts e" "accepted e = - 1" "\<not> ending e" using Cons.prems(3) by (auto simp: interrupts_def)
  have "served e s" using Cons.prems(2) by (simp add: all_served_def)
  then obtain go s1 ys where r: "listen_round e s = Some (go, s1)" "threads_inv s1 ys"
    "created s1 = created s @ [(the (thread_made e), accepted e)]"
    using listen_round_inv [OF Cons.prems(1)] e(1) by metis
  have go using listen_round_go [OF r(1) e(1)] e(3) by simp
  with r(1) Cons.prems(2) have "all_served es s1" by (simp add: all_served_def)
  moreover have "\<forall>e \<in> set es. accepted e = - 1 \<and> \<not> interrupted e \<and> \<not> ending e" using Cons.prems(3)
    by (meson list.set_intros(2))
  ultimately obtain s' where
    s': "listen_loop es s1 = Some (True, s')" "created s' = created s1 @ map (\<lambda>e. (the (thread_made e), - 1)) es"
    using Cons.IH [OF r(2)] by blast
  have "listen_loop (e # es) s = Some (True, s')" using r(1) s'(1) \<open>go\<close> by simp
  moreover have "created s' = created s @ map (\<lambda>e. (the (thread_made e), - 1)) (e # es)" unfolding s'(2) r(3) e(2) by simp
  ultimately show ?case by blast
qed simp

lemma no_threads_inv: "threads_inv no_threads []"
  by (simp add: no_threads_def threads_inv_empty)

section \<open>Properties\<close>

text \<open>
  C38. Sending the log returns 0 or -1 and closes its descriptor on every path; on success the client got
  exactly the bytes the reads delivered, on failure a prefix of them; and it succeeds whenever the log can
  be read and every \<open>send\<close> accepts at least one byte, however the sends cut the pieces.
\<close>

theorem sendFullLog_correct:
  "(sendFullLog fd rs ms fds = Some (rc, out, l) \<longrightarrow>
      l = fds \<and> rc \<in> {0, - 1} \<and> (rc = 0 \<longrightarrow> out = log_of rs) \<and> (\<exists>r. log_of rs = out @ r)) \<and>
   (fd \<noteq> - 1 \<and> (\<forall>c \<in> set cs. c \<noteq> []) \<and> (\<forall>m \<in> set ms. 1 \<le> m) \<and> length (concat cs) \<le> length ms \<longrightarrow>
      sendFullLog fd (map Some cs @ Some [] # rest) ms fds = Some (0, concat cs, fds))"
  using send_log_result [of fd rs ms "fd # fds" rc out l] send_log_progress [of cs ms fd rest "fd # fds"]
  by (auto simp: sendFullLog_def split: if_splits)

theorem sendFullLog_correct_witness:
  "sendFullLog 5 [Some [1, 2, 3], Some [4], Some []] [2, 1, 1, 64] [3] = Some (0, [1, 2, 3, 4], [3])"
  using sendFullLog_correct [where fd = 5 and fds = "[3]" and cs = "[[1, 2, 3], [4]]" and ms = "[2, 1, 1, 64]" and rest = "[]"]
  by simp

end
