(* ===== verification/ServerSystem.thy ===== *)
theory ServerSystem
  imports CommandServerProps ServerMain
begin

text \<open>
  The running server: the main thread in \<open>listenLoop\<close> and a thread \<open>repsondingThread\<close> for each
  client, interleaved on the thread list, the drive, the client descriptors and the flag
  \<open>endProgram\<close> of \<open>server/aesdsocket.c\<close>.

  A thread runs in four kinds of atomic steps: it reads its descriptor from its node and greets the
  client; it tests the condition of its loop and either enters the body or closes the descriptor;
  it carries out the body, a round of \<open>thread_round\<close> on the drive, unless \<open>recv\<close> waits for a client that
  stays silent, which keeps the thread from going on; it stores the flag \<open>isThreadComplete\<close> in its node. The main thread makes a round of its loop per accepted
  connection and, when the program ends, joins and frees one node per step. A signal may come
  between any two steps, and during a round of the main loop.
\<close>

section \<open>State\<close>

text \<open>
  Where a client thread is: before its first step (with what its client is going to send), at the
  test of its loop, inside the body, or behind the closing of its descriptor. The descriptor is the local
  variable \<open>clientFD\<close>.
\<close>

datatype 'w client =
    Starting "recv_result list"
  | Looping cint "'w session"
  | Receiving cint "'w session"
  | Leaving

text \<open>Where the main thread is: in its loop, in the loop that joins all threads, or behind it.\<close>

datatype listener = Listening | Cleaning ptr | Done

text \<open>
  \<open>running\<close> is the thread that works on a node, \<open>clientFds\<close> the client descriptors that are
  open, \<open>aborted\<close> the descriptors of the threads that returned early.
\<close>

record 'w system =
  globals :: server
  slist :: threads
  running :: "nat \<rightharpoonup> 'w client"
  drive :: "'w nv"
  clientFds :: "cint list"
  aborted :: "cint list"
  listener :: listener

text \<open>A step leads to the next state, has to wait, or is undefined.\<close>

datatype 'a outcome = Next 'a | Blocked | Fault

definition defined_step :: "'a option \<Rightarrow> 'a outcome" where
  "defined_step r = (case r of None \<Rightarrow> Fault | Some s \<Rightarrow> Next s)"

section \<open>Steps of a client thread\<close>

definition thread_start :: "nat \<Rightarrow> recv_result list \<Rightarrow> 'w system \<Rightarrow> 'w system option" where
  "thread_start a inp s = do {
     myNodeData \<leftarrow> nodes (slist s) a;
     Some (s\<lparr>running := (running s)(a \<mapsto> Looping (clientfd myNodeData) (session_start inp (drive s)))\<rparr>)
   }"

definition thread_test :: "nat \<Rightarrow> cint \<Rightarrow> 'w session \<Rightarrow> 'w system \<Rightarrow> 'w system" where
  "thread_test a clientFD se s =
     (if threadActive se \<and> endProgram (globals s) = 0
      then s\<lparr>running := (running s)(a \<mapsto> Receiving clientFD se)\<rparr>
      else s\<lparr>clientFds := remove1 clientFD (clientFds s), running := (running s)(a \<mapsto> Leaving)\<rparr>)"

text \<open>
  The early return leaves the descriptor open and the node unmarked; a thread whose client stays silent waits.
\<close>

definition thread_body :: "'w host \<Rightarrow> 'w parted \<Rightarrow> nat \<Rightarrow> cint \<Rightarrow> 'w session \<Rightarrow> 'w system \<Rightarrow> 'w system outcome" where
  "thread_body H P a clientFD se s = (case thread_round H P (se\<lparr>nv := drive s\<rparr>) of
     None \<Rightarrow> Fault
   | Some (Waits _) \<Rightarrow> Blocked
   | Some (Early se') \<Rightarrow> Next (s\<lparr>drive := nv se', aborted := clientFD # aborted s, running := (running s)(a := None)\<rparr>)
   | Some (Again se') \<Rightarrow> Next (s\<lparr>drive := nv se', running := (running s)(a \<mapsto> Looping clientFD se')\<rparr>))"

definition thread_complete :: "nat \<Rightarrow> 'w system \<Rightarrow> 'w system option" where
  "thread_complete a s = do {
     myNodeData \<leftarrow> nodes (slist s) a;
     Some (s\<lparr>slist := (slist s)\<lparr>nodes := (nodes (slist s))(a \<mapsto> myNodeData\<lparr>isThreadComplete := True\<rparr>)\<rparr>,
             running := (running s)(a := None)\<rparr>)
   }"

definition thread_step :: "'w host \<Rightarrow> 'w parted \<Rightarrow> nat \<Rightarrow> 'w system \<Rightarrow> 'w system outcome" where
  "thread_step H P a s = (case running s a of
     None \<Rightarrow> Blocked
   | Some (Starting inp) \<Rightarrow> defined_step (thread_start a inp s)
   | Some (Looping clientFD se) \<Rightarrow> Next (thread_test a clientFD se s)
   | Some (Receiving clientFD se) \<Rightarrow> thread_body H P a clientFD se s
   | Some Leaving \<Rightarrow> defined_step (thread_complete a s))"

section \<open>Steps of the main thread\<close>

definition main_accept :: "accept_event \<Rightarrow> recv_result list \<Rightarrow> 'w system \<Rightarrow> 'w system option" where
  "main_accept e inp s = do {
     (go, t) \<leftarrow> listen_round e (slist s);
     let s1 = s\<lparr>slist := t, globals := (if ending e then handle_sigint SIGINT (globals s) else globals s),
                listener := (if go then Listening else Cleaning (slh_first t))\<rparr>;
     Some (if interrupts e then s1
           else s1\<lparr>clientFds := (if accepted e = - 1 then clientFds s else accepted e # clientFds s),
                   running := (case (node_at e, thread_made e) of
                       (Some a, Some _) \<Rightarrow> (running s)(a \<mapsto> Starting inp)
                     | _ \<Rightarrow> running s)\<rparr>)
   }"

text \<open>One round of the loop that joins all threads; \<open>pthread_join\<close> waits for the thread.\<close>

definition main_join :: "ptr \<Rightarrow> 'w system \<Rightarrow> 'w system outcome" where
  "main_join dataptr s = (case dataptr of
     NULL \<Rightarrow> Next (s\<lparr>listener := Done\<rparr>)
   | Ptr a \<Rightarrow>
       if running s a \<noteq> None then Blocked
       else defined_step (do {
         n \<leftarrow> nodes (slist s) a;
         t \<leftarrow> join_and_free a (slist s);
         Some (s\<lparr>slist := t, listener := Cleaning (entries n)\<rparr>)
       }))"

section \<open>The system\<close>

datatype action = Accept accept_event "recv_result list" | Signal int | Thread nat | Join

definition server_step :: "'w host \<Rightarrow> 'w parted \<Rightarrow> action \<Rightarrow> 'w system \<Rightarrow> 'w system outcome" where
  "server_step H P act s = (case act of
     Accept e inp \<Rightarrow> if listener s = Listening then defined_step (main_accept e inp s) else Blocked
   | Signal sig \<Rightarrow> Next (s\<lparr>globals := handle_sigint sig (globals s)\<rparr>)
   | Thread a \<Rightarrow> thread_step H P a s
   | Join \<Rightarrow> (case listener s of Cleaning p \<Rightarrow> main_join p s | _ \<Rightarrow> Blocked))"

text \<open>The state when the main thread starts to listen.\<close>

definition server_start :: "server \<Rightarrow> 'w nv \<Rightarrow> 'w system" where
  "server_start g v = \<lparr>globals = g, slist = SLIST_INIT no_threads, running = Map.empty, drive = v,
     clientFds = [], aborted = [], listener = Listening\<rparr>"

section \<open>Specification notions\<close>

text \<open>
  What the operating system guarantees of an accepted connection: memory and a thread for it, a
  descriptor that is not in use, or -1 when it failed, on which receiving fails; flags are
  set by the steps of the threads; and the flag \<open>endProgram\<close> is not taken back.
\<close>

definition admissible :: "action \<Rightarrow> 'w system \<Rightarrow> bool" where
  "admissible act s = (case act of
     Accept e inp \<Rightarrow> served e (slist s) \<and> completed e = [] \<and>
       (endProgram (globals s) \<noteq> 0 \<longrightarrow> ending_accept e) \<and> (ending_accept e \<longrightarrow> ending e) \<and>
       accepted e \<notin> set (clientFds s) \<and> (accepted e = - 1 \<and> \<not> interrupts e \<longrightarrow> inp \<noteq> [] \<and> hd inp = RecvError)
   | _ \<Rightarrow> True)"

definition server_trans :: "'w host \<Rightarrow> 'w parted \<Rightarrow> 'w system \<Rightarrow> action \<Rightarrow> 'w system \<Rightarrow> bool" where
  "server_trans H P s act s' \<longleftrightarrow> admissible act s \<and> server_step H P act s = Next s'"

abbreviation server_run :: "'w host \<Rightarrow> 'w parted \<Rightarrow> 'w system \<Rightarrow> action list \<Rightarrow> 'w system \<Rightarrow> bool" where
  "server_run H P \<equiv> run_of (server_trans H P)"

text \<open>Executing a run.\<close>

fun server_exec :: "'w host \<Rightarrow> 'w parted \<Rightarrow> action list \<Rightarrow> 'w system \<Rightarrow> 'w system option" where
  "server_exec H P [] s = Some s"
| "server_exec H P (act # acts) s = (if admissible act s
     then (case server_step H P act s of Next s' \<Rightarrow> server_exec H P acts s' | _ \<Rightarrow> None) else None)"

text \<open>
  A thread in \<open>recv\<close> whose client has not sent a whole message and sends nothing more.
\<close>

definition waits_for_client :: "'w host \<Rightarrow> 'w parted \<Rightarrow> 'w system \<Rightarrow> nat \<Rightarrow> bool" where
  "waits_for_client H P s a \<longleftrightarrow> (\<exists>fd se se'. running s a = Some (Receiving fd se) \<and>
     thread_round H P (se\<lparr>nv := drive s\<rparr>) = Some (Waits se'))"

text \<open>
  Two clients, of which one quits and one loses its connection, until the program ends; a
  client whose message crashes the server; and a client that stays silent while the program is to end.
\<close>

definition example_run :: "action list" where
  "example_run = [
     Accept (example_events ! 0) [RecvData (bytes_of_text ''quit'' @ [10])],
     Accept ((example_events ! 1)\<lparr>completed := []\<rparr>) [RecvError],
     Thread 1, Thread 2, Thread 1, Thread 2, Thread 1, Thread 2, Thread 1, Signal SIGTERM, Thread 1,
     Accept (example_events ! 3) [], Join, Join, Join]"

definition crashing_run :: "action list" where
  "crashing_run = [Accept (example_events ! 0) [RecvData (bytes_of_text ''mkpart'' @ [10])], Thread 1, Thread 1]"


text \<open>The steps a thread can still make, and can still make when the program ends.\<close>

definition steps_left :: "'w client option \<Rightarrow> nat" where
  "steps_left c = (case c of
     None \<Rightarrow> 0
   | Some (Starting inp) \<Rightarrow> 2 * recv_size inp + 5
   | Some (Looping _ se) \<Rightarrow> if threadActive se then 2 * recv_size (input se) + 4 else 2
   | Some (Receiving _ se) \<Rightarrow> 2 * recv_size (input se) + 3
   | Some Leaving \<Rightarrow> 1)"

definition steps_ending :: "'w client option \<Rightarrow> nat" where
  "steps_ending c = (case c of
     None \<Rightarrow> 0 | Some (Starting _) \<Rightarrow> 3 | Some (Looping _ _) \<Rightarrow> 2 | Some (Receiving _ _) \<Rightarrow> 3 | Some Leaving \<Rightarrow> 1)"

text \<open>
  What an action counts as a step of a client thread, the steps a new client allows, and what an
  action counts as a step other than a signal.
\<close>

definition thread_cost :: "action \<Rightarrow> nat" where
  "thread_cost act = (case act of Thread _ \<Rightarrow> 1 | _ \<Rightarrow> 0)"

definition thread_gain :: "action \<Rightarrow> nat" where
  "thread_gain act = (case act of Accept e inp \<Rightarrow> if interrupts e then 0 else 2 * recv_size inp + 5 | _ \<Rightarrow> 0)"

definition work_cost :: "action \<Rightarrow> nat" where
  "work_cost act = (case act of Signal _ \<Rightarrow> 0 | _ \<Rightarrow> 1)"

text \<open>The descriptor a thread has open.\<close>

definition descriptor :: "cint \<Rightarrow> cint multiset" where
  "descriptor fd = (if fd = - 1 then {#} else {#fd#})"

definition holding :: "'w client option \<Rightarrow> cint \<Rightarrow> cint multiset" where
  "holding c fd = (case c of None \<Rightarrow> {#} | Some Leaving \<Rightarrow> {#} | Some _ \<Rightarrow> descriptor fd)"

definition held :: "'w system \<Rightarrow> nat \<Rightarrow> cint multiset" where
  "held s a = holding (running s a) (clientfd (the (nodes (slist s) a)))"

text \<open>A thread that works on a node: the node exists, is not marked, and holds its descriptor.\<close>

definition attached :: "'w client \<Rightarrow> slist_data_t \<Rightarrow> bool" where
  "attached c n \<longleftrightarrow> \<not> isThreadComplete n \<and>
     (case c of Looping fd _ \<Rightarrow> fd = clientfd n | Receiving fd _ \<Rightarrow> fd = clientfd n | _ \<Rightarrow> True)"

text \<open>
  The main thread joins threads from the head of its list on, and only when the program ends.
\<close>

definition main_at :: "listener \<Rightarrow> ptr \<Rightarrow> int \<Rightarrow> nat list \<Rightarrow> bool" where
  "main_at l first ends xs = (case l of
     Listening \<Rightarrow> True | Cleaning p \<Rightarrow> p = first \<and> ends \<noteq> 0 | Done \<Rightarrow> xs = [] \<and> ends \<noteq> 0)"

text \<open>
  The invariant of the system: the threads work on nodes of the list, and the open client
  descriptors are those of the threads and of the threads that returned early.
\<close>

definition server_inv :: "'w system \<Rightarrow> nat list \<Rightarrow> bool" where
  "server_inv s xs \<longleftrightarrow> threads_inv (slist s) xs \<and>
     (\<forall>a c. running s a = Some c \<longrightarrow> (\<exists>n. nodes (slist s) a = Some n \<and> attached c n)) \<and>
     distinct (clientFds s) \<and>
     mset (clientFds s) = sum_list (map (held s) xs) + sum_list (map descriptor (aborted s)) \<and>
     main_at (listener s) (slh_first (slist s)) (endProgram (globals s)) xs"

text \<open>
  A step of a thread changes only where this thread is and keeps the invariant; its number of
  possible steps falls.
\<close>

definition thread_moved :: "nat \<Rightarrow> nat list \<Rightarrow> 'w system \<Rightarrow> 'w system \<Rightarrow> bool" where
  "thread_moved a xs s s' \<longleftrightarrow> server_inv s' xs \<and> a \<in> set xs \<and> globals s' = globals s \<and> listener s' = listener s \<and>
     safe_step (drive s) (drive s') \<and> slist s' \<in> {slist s, mark_complete [a] (slist s)} \<and>
     (\<exists>c. running s' = (running s)(a := c) \<and> steps_left c < steps_left (running s a) \<and>
       (endProgram (globals s) \<noteq> 0 \<longrightarrow> steps_ending c < steps_ending (running s a)))"

text \<open>
  Joining a thread takes the first node off the list.
\<close>

definition joined_first :: "nat \<Rightarrow> nat list \<Rightarrow> 'w system \<Rightarrow> 'w system \<Rightarrow> bool" where
  "joined_first a zs s s' \<longleftrightarrow> server_inv s' zs \<and> globals s' = globals s \<and> drive s' = drive s \<and> running s' = running s \<and>
     running s a = None \<and> (\<exists>p. listener s' = Cleaning p) \<and> created (slist s') = created (slist s) \<and>
     joined (slist s') = joined (slist s) @ [the (thread_at (slist s) a)] \<and>
     (\<forall>b \<in> set zs. thread_at (slist s') b = thread_at (slist s) b)"

text \<open>
  A new connection adds a node with its thread in front, and takes the complete ones out.
\<close>

definition accepted_client :: "accept_event \<Rightarrow> recv_result list \<Rightarrow> nat list \<Rightarrow> 'w system \<Rightarrow> nat list \<Rightarrow> 'w system \<Rightarrow> bool" where
  "accepted_client e inp xs s ys s' \<longleftrightarrow> (\<exists>a. node_at e = Some a \<and> running s a = None \<and>
     running s' = (running s)(a \<mapsto> Starting inp) \<and>
     ys = a # filter (\<lambda>b. \<not> isThreadComplete (the (nodes (slist s) b))) xs)"

definition client_sum :: "('w client option \<Rightarrow> nat) \<Rightarrow> 'w system \<Rightarrow> nat list \<Rightarrow> nat" where
  "client_sum w s xs = sum_list (map (\<lambda>a. w (running s a)) xs)"

text \<open>A bound on the steps that are left once the main thread joins the threads.\<close>

definition shutdown_left :: "'w system \<Rightarrow> nat list \<Rightarrow> nat" where
  "shutdown_left s xs = client_sum steps_ending s xs + length xs + (if listener s = Done then 0 else 1)"

text \<open>
  The connections of a run, without the marks their rounds find; and what a run has in common with
  \<open>listen_loop\<close> on events whose marks are those the threads made: while the main thread listens
  the lists differ in marks that are still to be found, and later the same threads are joined in the
  same order.
\<close>

fun connections :: "action list \<Rightarrow> accept_event list" where
  "connections [] = []"
| "connections (Accept e inp # acts) = e # connections acts"
| "connections (_ # acts) = connections acts"

definition unmarked :: "accept_event \<Rightarrow> accept_event" where
  "unmarked e = e\<lparr>completed := []\<rparr>"

definition join_order :: "threads \<Rightarrow> nat list \<Rightarrow> nat list" where
  "join_order t xs = joined t @ map (the \<circ> thread_at t) xs"

definition follows :: "accept_event list \<Rightarrow> 'w system \<Rightarrow> nat list \<Rightarrow> bool" where
  "follows es s xs \<longleftrightarrow> (if listener s = Listening
     then \<exists>t cs. listen_loop es no_threads = Some (True, t) \<and> slist s = mark_complete cs t \<and> set cs \<subseteq> dom (nodes t)
     else \<exists>t ts. listen_loop es no_threads = Some (False, t) \<and> threads_inv t ts \<and>
       created (slist s) = created t \<and> join_order (slist s) xs = join_order t ts)"

section \<open>Updates at one thread\<close>

lemma sum_list_upd:
  fixes f :: "'a \<Rightarrow> 'b :: comm_monoid_add"
  assumes "distinct xs" "a \<in> set xs"
  shows "sum_list (map (f(a := v)) xs) + f a = sum_list (map f xs) + v"
proof -
  obtain ys zs where x: "xs = ys @ a # zs" using assms(2) by (meson split_list)
  with assms(1) have "map (f(a := v)) ys = map f ys" "map (f(a := v)) zs = map f zs" by auto
  then show ?thesis unfolding x by (simp only: map_append list.map fun_upd_same sum_list.append sum_list.Cons) (simp add: ac_simps)
qed

lemma threads_invD:
  assumes "threads_inv t xs"
  shows "distinct xs" "dom (nodes t) = set xs" "a \<in> set xs \<Longrightarrow> \<exists>n. nodes t a = Some n" "\<forall>a \<in> set xs. thread_at t a \<noteq> None"
    "seg (nodes t) (slh_first t) xs NULL"
  using assms by (auto simp: threads_inv_def linked_def)

lemma server_invD:
  assumes "server_inv s xs"
  shows "threads_inv (slist s) xs" "distinct (clientFds s)"
    "mset (clientFds s) = sum_list (map (held s) xs) + sum_list (map descriptor (aborted s))"
    "running s a = Some c \<Longrightarrow> \<exists>n. nodes (slist s) a = Some n \<and> attached c n \<and> a \<in> set xs"
    "running s a \<noteq> None \<Longrightarrow> a \<in> set xs"
proof -
  have t: "threads_inv (slist s) xs" and r: "running s b = Some d \<longrightarrow> (\<exists>n. nodes (slist s) b = Some n \<and> attached d n)" for b d
    using assms by (auto simp: server_inv_def)
  then show "running s a = Some c \<Longrightarrow> \<exists>n. nodes (slist s) a = Some n \<and> attached c n \<and> a \<in> set xs"
    "running s a \<noteq> None \<Longrightarrow> a \<in> set xs" using threads_invD(2) [OF t] by blast+
qed (use assms in \<open>auto simp: server_inv_def\<close>)

lemma descriptor_minus_one [simp]: "descriptor (- 1) = {#}"
  by (simp add: descriptor_def)

lemma no_minus_one:
  assumes "server_inv s xs"
  shows "- 1 \<notin> set (clientFds s)"
proof -
  have d: "- 1 \<notin># descriptor fd" for fd by (simp add: descriptor_def)
  then have h: "- 1 \<notin># held s a" for a by (auto simp: held_def holding_def split: option.splits client.splits)
  have z: "(\<And>b. - 1 \<notin># f b) \<Longrightarrow> - 1 \<notin># sum_list (map f ys)" for f :: "'x \<Rightarrow> cint multiset" and ys
    by (induction ys) auto
  have "- 1 \<notin># mset (clientFds s)"
    unfolding server_invD(3) [OF assms] set_mset_union using z [of "held s" xs, OF h] z [of descriptor "aborted s", OF d] by simp
  then show ?thesis by simp
qed

lemma balance:
  fixes F F' S S' A A' h h' :: "'b :: cancel_comm_monoid_add"
  assumes "F' + h + A = F + h' + A'" "S' + h = S + h'" "F = S + A"
  shows "F' = S' + A'"
proof -
  have "F' + (h + A) = F + h' + A'" using assms(1) by (simp add: add.assoc)
  also have "\<dots> = (S' + h) + (A + A')" unfolding assms(2,3) by (simp add: ac_simps)
  also have "\<dots> = S' + A' + (h + A)" by (simp add: ac_simps)
  finally show ?thesis by simp
qed

lemma server_inv_update:
  assumes inv: "server_inv s xs" and run: "running s a = Some c" and n: "nodes (slist s) a = Some n"
    and att: "case c' of None \<Rightarrow> True | Some d \<Rightarrow> attached d n"
    and eq: "slist s' = slist s" "running s' = (running s)(a := c')" "listener s' = listener s" "globals s' = globals s"
    and fds: "distinct (clientFds s')"
      "mset (clientFds s') + held s a + sum_list (map descriptor (aborted s)) =
       mset (clientFds s) + held s' a + sum_list (map descriptor (aborted s'))"
  shows "server_inv s' xs"
proof -
  have a: "a \<in> set xs" using server_invD(5) [OF inv] run by simp
  have h: "held s' = (held s)(a := held s' a)" using eq(1,2) by (simp add: held_def fun_eq_iff)
  have "sum_list (map (held s') xs) + held s a = sum_list (map (held s) xs) + held s' a"
    using sum_list_upd [OF threads_invD(1) [OF server_invD(1) [OF inv]] a, of "held s" "held s' a"] unfolding h [symmetric] .
  from balance [OF fds(2) this server_invD(3) [OF inv]] have
    "mset (clientFds s') = sum_list (map (held s') xs) + sum_list (map descriptor (aborted s'))" .
  moreover have "\<exists>m. nodes (slist s') b = Some m \<and> attached d m" if "running s' b = Some d" for b d
    using that att n inv eq(1,2) by (cases "b = a") (auto simp: server_inv_def)
  ultimately show ?thesis using inv fds(1) eq(1,3,4) by (auto simp: server_inv_def)
qed

section \<open>Steps of a client thread\<close>

lemma holding_simps [simp]:
  "holding None fd = {#}" "holding (Some Leaving) fd = {#}" "holding (Some (Starting inp)) fd = descriptor fd"
  "holding (Some (Looping f se)) fd = descriptor fd" "holding (Some (Receiving f se)) fd = descriptor fd"
  by (simp_all add: holding_def)

lemma held_open:
  assumes "server_inv s xs" "running s a = Some c"
  shows "held s a \<subseteq># mset (clientFds s)"
proof -
  obtain ys zs where "xs = ys @ a # zs" using server_invD(5) [OF assms(1), of a] assms(2) by (auto dest: split_list)
  then have "mset (clientFds s) = held s a + (sum_list (map (held s) (ys @ zs)) + sum_list (map descriptor (aborted s)))"
    using server_invD(3) [OF assms(1)] by (simp add: ac_simps)
  then show ?thesis by (metis mset_subset_eq_add_left)
qed

lemma thread_complete_inv:
  assumes inv: "server_inv s xs" and run: "running s a = Some Leaving"
  obtains s' where "thread_complete a s = Some s'" "server_inv s' xs" "slist s' = mark_complete [a] (slist s)"
    "running s' = (running s)(a := None)" "drive s' = drive s" "globals s' = globals s" "listener s' = listener s"
proof -
  obtain n where n: "nodes (slist s) a = Some n" using server_invD(4) [OF inv run] by auto
  let ?t = "mark_complete [a] (slist s)"
  let ?s = "s\<lparr>slist := ?t, running := (running s)(a := None)\<rparr>"
  note m = mark_complete_inv [OF server_invD(1) [OF inv], of "[a]"]
  have t: "?t = (slist s)\<lparr>nodes := (nodes (slist s))(a \<mapsto> n\<lparr>isThreadComplete := True\<rparr>)\<rparr>"
    using n by (auto simp: mark_complete_def fun_eq_iff option.map_ident_strong)
  have h: "held ?s = held s"
  proof
    fix b show "held ?s b = held s b" using run by (cases "b = a") (simp_all add: held_def t)
  qed
  have "\<exists>k. nodes (slist ?s) b = Some k \<and> attached d k" if "running ?s b = Some d" for b d
    using that server_invD(4) [OF inv, of b d] by (auto simp: t split: if_splits)
  then have "server_inv ?s xs" using inv m(1,2) unfolding server_inv_def h by simp
  moreover have "thread_complete a s = Some ?s" using n by (simp add: thread_complete_def t)
  ultimately show ?thesis using that by simp
qed

lemma thread_test_inv:
  assumes inv: "server_inv s xs" and run: "running s a = Some (Looping fd se)"
  shows "server_inv (thread_test a fd se s) xs"
proof -
  obtain n where n: "nodes (slist s) a = Some n" "attached (Looping fd se) n" using server_invD(4) [OF inv run] by auto
  have fd: "fd = clientfd n" using n(2) by (simp add: attached_def)
  show ?thesis
  proof (cases "threadActive se \<and> endProgram (globals s) = 0")
    case True
    let ?s = "s\<lparr>running := (running s)(a \<mapsto> Receiving fd se)\<rparr>"
    have "server_inv ?s xs"
      using n server_invD(2) [OF inv] run
      by (intro server_inv_update [OF inv run n(1), of "Some (Receiving fd se)"]) (simp_all add: attached_def held_def)
    with True show ?thesis by (simp add: thread_test_def)
  next
    case False
    let ?s = "s\<lparr>clientFds := remove1 fd (clientFds s), running := (running s)(a \<mapsto> Leaving)\<rparr>"
    have "mset (remove1 fd (clientFds s)) + descriptor fd = mset (clientFds s)"
    proof (cases "fd = - 1")
      case True
      then show ?thesis using no_minus_one [OF inv] by (simp add: remove1_idem)
    next
      case F: False
      then have "fd \<in># mset (clientFds s)" using held_open [OF inv run] n(1) fd by (simp add: run held_def descriptor_def)
      with F show ?thesis by (simp add: descriptor_def)
    qed
    then have "server_inv ?s xs"
      using n server_invD(2) [OF inv] run fd
      by (intro server_inv_update [OF inv run n(1), of "Some Leaving"]) (simp_all add: attached_def held_def)
    with False show ?thesis by (simp add: thread_test_def if_not_P [OF False])
  qed
qed

lemma thread_start_moved:
  assumes inv: "server_inv s xs" and run: "running s a = Some (Starting inp)"
  obtains s' where "thread_start a inp s = Some s'" "thread_moved a xs s s'"
proof -
  obtain n where n: "nodes (slist s) a = Some n" "\<not> isThreadComplete n" "a \<in> set xs"
    using server_invD(4) [OF inv run] by (auto simp: attached_def)
  let ?c = "Looping (clientfd n) (session_start inp (drive s))"
  let ?s = "s\<lparr>running := (running s)(a \<mapsto> ?c)\<rparr>"
  have "server_inv ?s xs" using n server_invD(2) [OF inv] run
    by (intro server_inv_update [OF inv run n(1), of "Some ?c"]) (simp_all add: attached_def held_def)
  then have "thread_moved a xs s ?s" using n(3) run
    by (auto simp: thread_moved_def steps_left_def steps_ending_def intro!: exI [of _ "Some ?c"])
  with that n(1) show ?thesis by (simp add: thread_start_def)
qed

lemma thread_test_moved:
  assumes inv: "server_inv s xs" and run: "running s a = Some (Looping fd se)"
  shows "thread_moved a xs s (thread_test a fd se s)"
proof -
  have "a \<in> set xs" using server_invD(5) [OF inv, of a] run by simp
  with thread_test_inv [OF assms] run show ?thesis
    by (auto simp: thread_moved_def thread_test_def steps_left_def steps_ending_def)
qed

lemma thread_body_moved:
  assumes inv: "server_inv s xs" and run: "running s a = Some (Receiving fd se)"
    and body: "thread_body H P a fd se s = Next s'"
  shows "thread_moved a xs s s'"
proof -
  obtain n where n: "nodes (slist s) a = Some n" "attached (Receiving fd se) n" "a \<in> set xs" using server_invD(4) [OF inv run] by auto
  obtain r where r: "thread_round H P (se\<lparr>nv := drive s\<rparr>) = Some r" using body by (auto simp: thread_body_def split: option.splits)
  note ok = thread_round_ok [OF r]
  show ?thesis
  proof (cases r)
    case (Early se')
    then have s': "s' = s\<lparr>drive := nv se', aborted := fd # aborted s, running := (running s)(a := None)\<rparr>"
      using body r by (simp add: thread_body_def)
    have "server_inv s' xs" using s' n server_invD(2) [OF inv] run
      by (intro server_inv_update [OF inv run n(1), of None]) (simp_all add: attached_def held_def ac_simps)
    with n(3) s' Early ok run show ?thesis by (auto simp: thread_moved_def steps_left_def steps_ending_def intro!: exI [of _ None])
  next
    case (Again se')
    then have s': "s' = s\<lparr>drive := nv se', running := (running s)(a \<mapsto> Looping fd se')\<rparr>" using body r by (simp add: thread_body_def)
    have "server_inv s' xs" using s' n server_invD(2) [OF inv] run
      by (intro server_inv_update [OF inv run n(1), of "Some (Looping fd se')"]) (simp_all add: attached_def held_def)
    with n(3) s' Again ok run show ?thesis
      by (auto simp: thread_moved_def steps_left_def steps_ending_def intro!: exI [of _ "Some (Looping fd se')"])
  qed (use body r in \<open>simp add: thread_body_def\<close>)
qed

lemma thread_step_moved:
  assumes inv: "server_inv s xs" and step: "thread_step H P a s = Next s'"
  shows "thread_moved a xs s s'"
proof -
  obtain c where c: "running s a = Some c" using step by (cases "running s a") (auto simp: thread_step_def)
  show ?thesis
  proof (cases c)
    case (Starting inp)
    with c thread_start_moved [OF inv] step show ?thesis by (fastforce simp: thread_step_def defined_step_def)
  next
    case (Looping fd se)
    with c thread_test_moved [OF inv] step show ?thesis by (auto simp: thread_step_def)
  next
    case (Receiving fd se)
    with c thread_body_moved [OF inv] step show ?thesis by (simp add: thread_step_def)
  next
    case Leaving
    with c have "running s a = Some Leaving" by simp
    from thread_complete_inv [OF inv this] obtain s1 where s1: "thread_complete a s = Some s1" "server_inv s1 xs" "slist s1 = mark_complete [a] (slist s)"
      "running s1 = (running s)(a := None)" "drive s1 = drive s" "globals s1 = globals s" "listener s1 = listener s" .
    then have "s1 = s'" using c Leaving step by (simp add: thread_step_def defined_step_def)
    with s1 c Leaving server_invD(5) [OF inv, of a] show ?thesis
      by (auto simp: thread_moved_def steps_left_def steps_ending_def intro!: exI [of _ None])
  qed
qed

section \<open>Steps of the main thread\<close>

lemma join_head:
  assumes t: "threads_inv t (a # zs)"
  obtains n tn where "nodes t a = Some n" "thread_at t a = Some tn" "slh_first t = Ptr a"
    "join_and_free a t = Some (t\<lparr>slh_first := entries n, joined := joined t @ [tn], nodes := (nodes t)(a := None)\<rparr>)"
    "threads_inv (t\<lparr>slh_first := entries n, joined := joined t @ [tn], nodes := (nodes t)(a := None)\<rparr>) zs"
proof -
  obtain n where n: "slh_first t = Ptr a" "nodes t a = Some n" "seg (nodes t) (entries n) zs NULL"
    using threads_invD(5) [OF t] by (auto split: option.splits)
  obtain tn where tn: "thread n = Some tn" using threads_invD(4) [OF t] n(2) by (auto simp: thread_at_def)
  let ?t = "t\<lparr>slh_first := entries n, joined := joined t @ [tn], nodes := (nodes t)(a := None)\<rparr>"
  have d: "a \<notin> set zs" "distinct zs" "dom (nodes t) = insert a (set zs)" using threads_invD(1,2) [OF t] by auto
  then have ta: "thread_at ?t b = thread_at t b" if "b \<in> set zs" for b using that by (auto simp: thread_at_def)
  have m: "mset (map (the \<circ> thread_at ?t) zs) = mset (map (the \<circ> thread_at t) zs)" using ta by (intro arg_cong [where f = mset]) simp
  have "linked ?t zs" using n(3) d by (auto simp: linked_def)
  moreover have "\<forall>b \<in> set zs. thread_at ?t b \<noteq> None" using ta threads_invD(4) [OF t] by simp
  moreover have "mset (map fst (created ?t)) = mset (joined ?t) + mset (map (the \<circ> thread_at ?t) zs)"
    unfolding m using t n(2) tn by (simp add: threads_inv_def thread_at_def)
  ultimately have "threads_inv ?t zs" by (simp only: threads_inv_def)
  moreover have "join_and_free a t = Some ?t" using n tn by (simp add: join_and_free_def SLIST_REMOVE_def node_def)
  ultimately show ?thesis using that n tn by (simp add: thread_at_def)
qed

lemma main_join_moved:
  assumes inv: "server_inv s (a # zs)" and l: "listener s = Cleaning p" and run: "running s a = None"
  obtains s' where "main_join p s = Next s'" "joined_first a zs s s'"
proof -
  have p: "p = slh_first (slist s)" "endProgram (globals s) \<noteq> 0" using inv l by (auto simp: server_inv_def main_at_def)
  note t = server_invD(1) [OF inv]
  obtain n tn where n: "nodes (slist s) a = Some n" "thread_at (slist s) a = Some tn" "slh_first (slist s) = Ptr a"
    "join_and_free a (slist s) = Some ((slist s)\<lparr>slh_first := entries n, joined := joined (slist s) @ [tn], nodes := (nodes (slist s))(a := None)\<rparr>)"
    "threads_inv ((slist s)\<lparr>slh_first := entries n, joined := joined (slist s) @ [tn], nodes := (nodes (slist s))(a := None)\<rparr>) zs"
    by (rule join_head [OF t])
  let ?t = "(slist s)\<lparr>slh_first := entries n, joined := joined (slist s) @ [tn], nodes := (nodes (slist s))(a := None)\<rparr>"
  let ?s = "s\<lparr>slist := ?t, listener := Cleaning (entries n)\<rparr>"
  have a: "a \<notin> set zs" using threads_invD(1) [OF t] by simp
  have h: "map (held ?s) zs = map (held s) zs" using a by (auto simp: held_def)
  have r: "\<exists>m. nodes (slist ?s) b = Some m \<and> attached c m" if "running ?s b = Some c" for b c
    using that server_invD(4) [OF inv, of b c] run by (cases "b = a") auto
  have "server_inv ?s zs"
    unfolding server_inv_def h using n(5) r server_invD(2,3) [OF inv] p(2) run by (simp add: held_def main_at_def)
  moreover have "thread_at ?t b = thread_at (slist s) b" if "b \<in> set zs" for b using that a by (auto simp: thread_at_def)
  ultimately have "joined_first a zs s ?s" using n(2) run by (simp add: joined_first_def)
  moreover have "main_join p s = Next ?s" using p(1) n(1,3,4) run by (simp add: main_join_def defined_step_def)
  ultimately show ?thesis using that by blast
qed

lemma main_join_end:
  assumes inv: "server_inv s []" and l: "listener s = Cleaning p"
  shows "main_join p s = Next (s\<lparr>listener := Done\<rparr>)" "server_inv (s\<lparr>listener := Done\<rparr>) []"
proof -
  have "p = slh_first (slist s)" "endProgram (globals s) \<noteq> 0" using inv l by (auto simp: server_inv_def main_at_def)
  with inv l threads_invD(5) [OF server_invD(1) [OF inv]]
  show "main_join p s = Next (s\<lparr>listener := Done\<rparr>)" "server_inv (s\<lparr>listener := Done\<rparr>) []"
    by (simp_all add: main_join_def server_inv_def main_at_def)
qed

lemma join_cases:
  assumes inv: "server_inv s xs" and l: "listener s = Cleaning p"
  obtains (waits) a where "a \<in> set xs" "running s a \<noteq> None" "main_join p s = Blocked"
    | (ends) "xs = []" "main_join p s = Next (s\<lparr>listener := Done\<rparr>)" "server_inv (s\<lparr>listener := Done\<rparr>) []"
    | (joins) a zs s' where "xs = a # zs" "main_join p s = Next s'" "joined_first a zs s s'"
proof (cases xs)
  case Nil
  with main_join_end [of s p] inv l ends show thesis by simp
next
  case (Cons a zs)
  then have i: "server_inv s (a # zs)" using inv by simp
  have "p = Ptr a" using inv l threads_invD(5) [OF server_invD(1) [OF i]] by (auto simp: server_inv_def main_at_def)
  then have "running s a \<noteq> None \<Longrightarrow> main_join p s = Blocked" by (simp add: main_join_def)
  with waits [of a] joins [OF Cons] main_join_moved [OF i l] Cons show thesis by (cases "running s a") auto
qed

lemma mark_none [simp]: "mark_complete [] t = t"
  by (simp add: mark_complete_def option.map_ident)

lemma info_at:
  assumes "map_option info (nodes t' b) = map_option info (nodes t b)" "nodes t b = Some n"
  obtains m where "nodes t' b = Some m" "isThreadComplete m = isThreadComplete n" "clientfd m = clientfd n"
  using assms by (cases "nodes t' b") (auto simp: info_def)

lemma listen_round_adds:
  assumes t: "threads_inv t xs" and e: "served e t" "\<not> interrupts e" "completed e = []"
  obtains a tn t' n where "node_at e = Some a" "thread_made e = Some tn" "nodes t a = None" "listen_round e t = Some (\<not> ending e, t')"
    "threads_inv t' (a # filter (\<lambda>b. \<not> isThreadComplete (the (nodes t b))) xs)"
    "nodes t' a = Some n" "\<not> isThreadComplete n" "clientfd n = accepted e"
    "\<forall>b \<in> set xs. \<not> isThreadComplete (the (nodes t b)) \<longrightarrow> map_option info (nodes t' b) = map_option info (nodes t b)"
proof -
  obtain a tn t1 where a: "node_at e = Some a" "thread_made e = Some tn" "new_thread e t = Some t1" "threads_inv t1 (a # xs)"
    "nodes t1 = (nodes t)(a \<mapsto> \<lparr>thread = Some tn, isThreadComplete = False, clientfd = accepted e, entries = slh_first t\<rparr>)"
    by (rule new_thread_inv [OF t e(1,2)])
  have na: "nodes t a = None" using e(1,2) a(1) by (simp add: served_def)
  then have ax: "a \<notin> set xs" using threads_invD(3) [OF t, of a] by auto
  let ?xs = "filter (\<lambda>b. \<not> isThreadComplete (the (nodes t b))) xs"
  have f: "filter (\<lambda>b. \<not> isThreadComplete (the (nodes t1 b))) (a # xs) = a # ?xs" using a(5) ax by (auto intro: filter_cong)
  obtain t2 where t2: "foreach_safe isThreadComplete (slh_first t1) t1 = Some t2" "threads_inv t2 (a # ?xs)"
    "\<forall>b \<in> dom (nodes t2). map_option info (nodes t2 b) = map_option info (nodes t1 b)"
    using foreach_inv [OF a(4), of isThreadComplete, unfolded f] by metis
  have d: "dom (nodes t2) = insert a (set ?xs)" using threads_invD(2) [OF t2(2)] by simp
  then have "map_option info (nodes t2 a) = map_option info (nodes t1 a)" using t2(3) by simp
  then obtain n where "nodes t2 a = Some n" "\<not> isThreadComplete n" "clientfd n = accepted e" using a(5) by (auto simp: info_def)
  moreover have "map_option info (nodes t2 b) = map_option info (nodes t b)" if "b \<in> set xs" "\<not> isThreadComplete (the (nodes t b))" for b
    using t2(3) d that a(5) ax by auto
  moreover have "listen_round e t = Some (\<not> ending e, t2)" using a(3) t2(1) e(2,3) by (auto simp: listen_round_def interrupts_def)
  ultimately show ?thesis using that a(1,2) na t2(2) by blast
qed

lemma still_attached:
  assumes inv: "server_inv s xs" and run: "running s b = Some c"
    and keep: "\<forall>b \<in> set xs. \<not> isThreadComplete (the (nodes (slist s) b)) \<longrightarrow> map_option info (nodes t' b) = map_option info (nodes (slist s) b)"
  obtains m where "nodes t' b = Some m" "attached c m" "clientfd m = clientfd (the (nodes (slist s) b))"
proof -
  obtain k where k: "nodes (slist s) b = Some k" "attached c k" "b \<in> set xs" using server_invD(4) [OF inv run] by blast
  then have "map_option info (nodes t' b) = map_option info (nodes (slist s) b)" using keep by (simp add: attached_def)
  from info_at [OF this k(1)] obtain m where "nodes t' b = Some m" "isThreadComplete m = isThreadComplete k" "clientfd m = clientfd k" .
  with k that show ?thesis by (cases c) (auto simp: attached_def)
qed

lemma add_client_inv:
  assumes inv: "server_inv s xs" and a: "nodes (slist s) a = None"
    and ys: "ys = filter (\<lambda>b. \<not> isThreadComplete (the (nodes (slist s) b))) xs"
    and t': "threads_inv (slist s') (a # ys)" "nodes (slist s') a = Some n" "\<not> isThreadComplete n" "clientfd n \<notin> set (clientFds s)"
    and keep: "\<forall>b \<in> set xs. \<not> isThreadComplete (the (nodes (slist s) b)) \<longrightarrow> map_option info (nodes (slist s') b) = map_option info (nodes (slist s) b)"
    and s': "running s' = (running s)(a \<mapsto> Starting inp)" "aborted s' = aborted s"
      "clientFds s' = (if clientfd n = - 1 then clientFds s else clientfd n # clientFds s)"
      "main_at (listener s') (slh_first (slist s')) (endProgram (globals s')) (a # ys)"
  shows "server_inv s' (a # ys)"
proof -
  have hb: "held s' b = held s b" if "b \<noteq> a" for b
  proof (cases "running s b")
    case (Some c)
    from still_attached [OF inv this keep] obtain m where "nodes (slist s') b = Some m" "clientfd m = clientfd (the (nodes (slist s) b))" .
    with \<open>b \<noteq> a\<close> s'(1) show ?thesis by (simp add: held_def)
  qed (use that s'(1) in \<open>simp add: held_def\<close>)
  have "held s b = {#}" if "b \<in> set xs" "isThreadComplete (the (nodes (slist s) b))" for b
    using that server_invD(4) [OF inv, of b] by (cases "running s b") (auto simp: held_def attached_def)
  then have "sum_list (map (held s) ys) = sum_list (map (held s) xs)" unfolding ys by (intro sum_list_map_filter) auto
  moreover have "map (held s') ys = map (held s) ys" using threads_invD(1) [OF t'(1)] by (intro map_cong refl hb) auto
  moreover have "held s' a = descriptor (clientfd n)" using t'(2) s'(1) by (simp add: held_def)
  ultimately have sum: "sum_list (map (held s') (a # ys)) = descriptor (clientfd n) + sum_list (map (held s) xs)"
    by (simp only: list.map sum_list.Cons)
  have "\<exists>m. nodes (slist s') b = Some m \<and> attached c m" if "running s' b = Some c" for b c
  proof (cases "b = a")
    case False
    with that s'(1) have "running s b = Some c" by simp
    from still_attached [OF inv this keep] show ?thesis by blast
  qed (use that t'(2,3) s'(1) in \<open>auto simp: attached_def\<close>)
  then show ?thesis unfolding server_inv_def sum using t' s' server_invD(2,3) [OF inv] by (simp add: descriptor_def)
qed

lemma main_accept_moved:
  assumes inv: "server_inv s xs" and e: "admissible (Accept e inp) s" and l: "listener s = Listening"
  obtains s' ys where "main_accept e inp s = Some s'" "server_inv s' ys" "drive s' = drive s"
    "if interrupts e then running s' = running s \<and> ys = xs else accepted_client e inp xs s ys s'"
proof (cases "interrupts e")
  case True
  then have "listen_round e (slist s) = Some (False, slist s)" by (simp add: listen_round_def interrupts_def)
  then have r: "main_accept e inp s = Some (s\<lparr>globals := handle_sigint SIGINT (globals s), listener := Cleaning (slh_first (slist s))\<rparr>)"
    using True e by (auto simp: main_accept_def admissible_def interrupts_def)
  let ?s = "s\<lparr>globals := handle_sigint SIGINT (globals s), listener := Cleaning (slh_first (slist s))\<rparr>"
  have "held ?s = held s" by (simp add: held_def fun_eq_iff)
  then have "server_inv ?s xs" using inv by (simp add: server_inv_def main_at_def handle_sigint_def Let_def)
  with r that [of ?s xs] True show ?thesis by simp
next
  case False
  have sv: "served e (slist s)" "completed e = []" "accepted e \<notin> set (clientFds s)" using e by (simp_all add: admissible_def)
  let ?ys = "filter (\<lambda>b. \<not> isThreadComplete (the (nodes (slist s) b))) xs"
  obtain a tn t' n where a: "node_at e = Some a" "thread_made e = Some tn" "nodes (slist s) a = None"
    "listen_round e (slist s) = Some (\<not> ending e, t')" "threads_inv t' (a # ?ys)"
    "nodes t' a = Some n" "\<not> isThreadComplete n" "clientfd n = accepted e"
    "\<forall>b \<in> set xs. \<not> isThreadComplete (the (nodes (slist s) b)) \<longrightarrow> map_option info (nodes t' b) = map_option info (nodes (slist s) b)"
    using listen_round_adds [OF server_invD(1) [OF inv] sv(1) False sv(2)] by metis
  obtain s' where s': "main_accept e inp s = Some s'" "slist s' = t'" "running s' = (running s)(a \<mapsto> Starting inp)" "aborted s' = aborted s"
    "clientFds s' = (if accepted e = - 1 then clientFds s else accepted e # clientFds s)" "drive s' = drive s"
    "main_at (listener s') (slh_first t') (endProgram (globals s')) (a # ?ys)"
    using a(1,2,4) False by (simp add: main_accept_def Let_def main_at_def handle_sigint_def)
  have "server_inv s' (a # ?ys)" using a s' sv(3) by (intro add_client_inv [OF inv a(3) refl, where n = n]) simp_all
  moreover have "running s a = None" using server_invD(4) [OF inv, of a] a(3) by fastforce
  ultimately show ?thesis using that [of s' "a # ?ys"] False a(1) s' by (auto simp: accepted_client_def)
qed

section \<open>Runs\<close>

lemma client_sum_upd:
  assumes "distinct xs" "a \<in> set xs" "running s' = (running s)(a := c)"
  shows "client_sum w s' xs + w (running s a) = client_sum w s xs + w c"
proof -
  have "(\<lambda>b. w (running s' b)) = (\<lambda>b. w (running s b))(a := w c)" using assms(3) by auto
  then show ?thesis using sum_list_upd [OF assms(1,2), of "\<lambda>b. w (running s b)" "w c"] by (simp add: client_sum_def)
qed

lemma client_sum_accepted:
  assumes inv: "server_inv s xs" and e: "accepted_client e inp xs s ys s'" and ys: "distinct ys" and w: "w None = 0"
  shows "client_sum w s' ys = client_sum w s xs + w (Some (Starting inp))"
proof -
  obtain a where a: "running s' = (running s)(a \<mapsto> Starting inp)"
    "ys = a # filter (\<lambda>b. \<not> isThreadComplete (the (nodes (slist s) b))) xs" using e by (auto simp: accepted_client_def)
  let ?ys = "filter (\<lambda>b. \<not> isThreadComplete (the (nodes (slist s) b))) xs"
  have "w (running s b) = 0" if "isThreadComplete (the (nodes (slist s) b))" for b
    using that server_invD(4) [OF inv, of b] w by (cases "running s b") (auto simp: attached_def)
  then have "sum_list (map (\<lambda>b. w (running s b)) ?ys) = sum_list (map (\<lambda>b. w (running s b)) xs)" by (intro sum_list_map_filter) auto
  moreover have "map (\<lambda>b. w (running s' b)) ?ys = map (\<lambda>b. w (running s b)) ?ys" using a ys by (intro map_cong) auto
  ultimately show ?thesis unfolding client_sum_def a(2) using a(1) by (simp only: list.map sum_list.Cons) simp
qed

lemma steps_none [simp]: "steps_left None = 0" "steps_ending None = 0" "steps_left (Some (Starting inp)) = 2 * recv_size inp + 5"
  by (simp_all add: steps_left_def steps_ending_def)

lemma signal_inv:
  assumes "server_inv s xs"
  shows "server_inv (s\<lparr>globals := handle_sigint sig (globals s)\<rparr>) xs"
proof -
  have "held (s\<lparr>globals := handle_sigint sig (globals s)\<rparr>) = held s" by (simp add: held_def fun_eq_iff)
  with assms show ?thesis by (auto simp: server_inv_def main_at_def handle_sigint_def Let_def split: listener.splits)
qed

lemma action_costs [simp]:
  "thread_cost (Accept e inp) = 0" "thread_cost (Signal sig) = 0" "thread_cost (Thread a) = 1" "thread_cost Join = 0"
  "thread_gain (Accept e inp) = (if interrupts e then 0 else 2 * recv_size inp + 5)" "thread_gain (Signal sig) = 0"
  "thread_gain (Thread a) = 0" "thread_gain Join = 0"
  "work_cost (Accept e inp) = 1" "work_cost (Signal sig) = 0" "work_cost (Thread a) = 1" "work_cost Join = 1"
  by (simp_all add: thread_cost_def thread_gain_def work_cost_def)

lemma server_step_ok:
  assumes inv: "server_inv s xs" and adm: "admissible act s" and step: "server_step H P act s = Next s'"
  shows "\<exists>ys. server_inv s' ys \<and> safe_step (drive s) (drive s') \<and>
    thread_cost act + client_sum steps_left s' ys \<le> thread_gain act + client_sum steps_left s xs"
proof (cases act)
  case (Accept e inp)
  then have l: "listener s = Listening" "main_accept e inp s = Some s'"
    using step by (auto simp: server_step_def defined_step_def split: if_splits option.splits)
  from main_accept_moved [OF inv adm [unfolded Accept] l(1)] l(2) obtain ys where ys: "server_inv s' ys" "drive s' = drive s"
    "if interrupts e then running s' = running s \<and> ys = xs else accepted_client e inp xs s ys s'" by (metis option.inject)
  have "client_sum steps_left s' ys = thread_gain act + client_sum steps_left s xs"
  proof (cases "interrupts e")
    case False
    with ys(3) client_sum_accepted [OF inv _ threads_invD(1) [OF server_invD(1) [OF ys(1)]], where w = steps_left] Accept show ?thesis by simp
  qed (use ys(3) Accept in \<open>simp add: client_sum_def\<close>)
  with ys(1,2) Accept show ?thesis by auto
next
  case (Signal sig)
  with step signal_inv [OF inv, of sig] show ?thesis by (auto simp: server_step_def client_sum_def intro!: exI [of _ xs])
next
  case (Thread a)
  then have m: "thread_moved a xs s s'" using thread_step_moved [OF inv] step by (simp add: server_step_def)
  then obtain c where c: "running s' = (running s)(a := c)" "steps_left c < steps_left (running s a)" "a \<in> set xs" "server_inv s' xs"
    "safe_step (drive s) (drive s')" by (auto simp: thread_moved_def)
  from client_sum_upd [OF threads_invD(1) [OF server_invD(1) [OF inv]] c(3,1), of steps_left] c Thread show ?thesis
    by (intro exI [of _ xs]) simp
next
  case Join
  then obtain p where p: "listener s = Cleaning p" "main_join p s = Next s'" using step by (auto simp: server_step_def split: listener.splits)
  from inv p(1) show ?thesis
  proof (cases rule: join_cases)
    case ends
    with p Join show ?thesis by (auto simp: client_sum_def)
  next
    case (joins a zs s1)
    with p Join show ?thesis by (auto simp: joined_first_def client_sum_def)
  qed (use p in simp)
qed

interpretation srv: amortized "server_trans H P" "\<lambda>s xs. server_inv s xs \<and> safe_step v (drive s)" "client_sum steps_left"
    thread_cost thread_gain for H P v
proof
  fix s :: "'a system" and xs act s'
  assume s: "server_inv s xs \<and> safe_step v (drive s)" "server_trans H P s act s'"
  then have "admissible act s" "server_step H P act s = Next s'" by (simp_all add: server_trans_def)
  from server_step_ok [OF conjunct1 [OF s(1)] this] s(1) show "\<exists>ys. (server_inv s' ys \<and> safe_step v (drive s')) \<and>
    thread_cost act + client_sum steps_left s' ys \<le> thread_gain act + client_sum steps_left s xs" by (blast intro: safe_step_trans)
qed

lemma server_start_inv: "server_inv (server_start g v) []"
  by (simp add: server_inv_def server_start_def main_at_def SLIST_INIT_def no_threads_def threads_inv_empty)

lemma server_run_inv:
  assumes "server_run H P (server_start g v) acts s"
  shows "\<exists>xs. server_inv s xs \<and> safe_step v (drive s) \<and>
    sum_list (map thread_cost acts) + client_sum steps_left s xs \<le> sum_list (map thread_gain acts)"
  using srv.run_pays [OF assms, where v = v and x = "[]"] server_start_inv [of g v] by (simp add: server_start_def client_sum_def)

lemma server_step_fault:
  assumes inv: "server_inv s xs" and step: "server_step H P act s = Fault"
    and adm: "\<forall>e inp. act = Accept e inp \<and> node_at e \<noteq> None \<longrightarrow> admissible act s"
  shows "(\<exists>a fd se. act = Thread a \<and> running s a = Some (Receiving fd se) \<and> thread_round H P (se\<lparr>nv := drive s\<rparr>) = None) \<or>
    (\<exists>e inp. act = Accept e inp \<and> listener s = Listening \<and> \<not> interrupts e \<and> node_at e = None)"
proof (cases act)
  case (Accept e inp)
  with step have l: "listener s = Listening" "main_accept e inp s = None"
    by (auto simp: server_step_def defined_step_def split: if_splits option.splits)
  have "\<not> interrupts e" using l(2) by (auto simp: main_accept_def listen_round_def interrupts_def Let_def)
  moreover have "node_at e = None"
  proof (rule ccontr)
    assume "node_at e \<noteq> None"
    with adm Accept have "admissible (Accept e inp) s" by blast
    from main_accept_moved [OF inv this l(1)] l(2) show False by (metis option.distinct(1))
  qed
  ultimately show ?thesis using Accept l(1) by blast
next
  case (Thread a)
  with step obtain c where c: "running s a = Some c" by (cases "running s a") (auto simp: server_step_def thread_step_def)
  note s = step [unfolded Thread server_step_def, simplified, unfolded thread_step_def defined_step_def c]
  show ?thesis
  proof (cases c)
    case (Starting inp)
    with s thread_start_moved [OF inv, of a inp] c show ?thesis by fastforce
  next
    case (Receiving fd se)
    with s c Thread show ?thesis by (auto simp: thread_body_def split: option.splits round_end.splits)
  next
    case Leaving
    with s thread_complete_inv [OF inv, of a] c show ?thesis by fastforce
  qed (use s in simp)
next
  case Join
  then obtain p where p: "listener s = Cleaning p" "main_join p s = Fault" using step by (auto simp: server_step_def split: listener.splits)
  from inv p(1) show ?thesis by (cases rule: join_cases) (use p(2) in auto)
qed (use step in \<open>simp add: server_step_def\<close>)

lemma server_step_faults:
  assumes "(\<exists>a fd se. act = Thread a \<and> running s a = Some (Receiving fd se) \<and> thread_round H P (se\<lparr>nv := drive s\<rparr>) = None) \<or>
    (\<exists>e inp. act = Accept e inp \<and> listener s = Listening \<and> \<not> interrupts e \<and> node_at e = None)"
  shows "server_step H P act s = Fault"
  using assms by (auto simp: server_step_def thread_step_def thread_body_def defined_step_def main_accept_def listen_round_def
    interrupts_def new_thread_def)

section \<open>Shutting down\<close>

lemma shutdown_step:
  assumes inv: "server_inv s xs" and l: "listener s \<noteq> Listening" and step: "server_step H P act s = Next s'"
  shows "\<exists>ys. server_inv s' ys \<and> listener s' \<noteq> Listening \<and> work_cost act + shutdown_left s' ys \<le> shutdown_left s xs"
proof (cases act)
  case (Signal sig)
  with step l signal_inv [OF inv, of sig] show ?thesis by (auto simp: server_step_def shutdown_left_def client_sum_def intro!: exI [of _ xs])
next
  case (Thread a)
  then have m: "thread_moved a xs s s'" using thread_step_moved [OF inv] step by (simp add: server_step_def)
  have "endProgram (globals s) \<noteq> 0" using inv l by (auto simp: server_inv_def main_at_def split: listener.splits)
  with m obtain c where c: "running s' = (running s)(a := c)" "steps_ending c < steps_ending (running s a)" "a \<in> set xs" "server_inv s' xs"
    "listener s' = listener s" by (auto simp: thread_moved_def)
  from client_sum_upd [OF threads_invD(1) [OF server_invD(1) [OF inv]] c(3,1), of steps_ending] c Thread l show ?thesis
    by (auto simp: shutdown_left_def intro!: exI [of _ xs])
next
  case Join
  then obtain p where p: "listener s = Cleaning p" "main_join p s = Next s'" using step by (auto simp: server_step_def split: listener.splits)
  from inv p(1) show ?thesis
  proof (cases rule: join_cases)
    case ends
    with p Join show ?thesis by (auto simp: shutdown_left_def client_sum_def)
  next
    case (joins a zs s1)
    with p Join show ?thesis by (auto simp: joined_first_def shutdown_left_def client_sum_def)
  qed (use p in simp)
qed (use step l in \<open>simp add: server_step_def\<close>)

interpretation down: amortized "server_trans H P" "\<lambda>s xs. server_inv s xs \<and> listener s \<noteq> Listening" shutdown_left
    work_cost "\<lambda>_. 0" for H P
  using shutdown_step by unfold_locales (simp add: server_trans_def, blast)

lemma shutdown_run:
  assumes "server_run H P s acts s'" "server_inv s xs" "listener s \<noteq> Listening"
  shows "sum_list (map work_cost acts) \<le> shutdown_left s xs"
  using down.run_pays [OF assms(1), where x = xs] assms(2,3) by auto

lemma shutdown_bound:
  assumes "server_inv s xs"
  shows "shutdown_left s xs \<le> 4 * length xs + 1"
proof -
  have "steps_ending c \<le> 3" for c :: "'a client option" by (auto simp: steps_ending_def split: option.splits client.splits)
  then have "sum_list (map (\<lambda>a. steps_ending (running s a)) xs) \<le> sum_list (map (\<lambda>_. 3) xs)" by (intro sum_list_mono) simp
  then show ?thesis by (simp add: shutdown_left_def client_sum_def sum_list_triv)
qed

lemma thread_blocked:
  assumes "running s a \<noteq> None" "thread_step H P a s = Blocked"
  shows "waits_for_client H P s a"
  using assms by (auto simp: waits_for_client_def thread_step_def thread_body_def defined_step_def
    split: option.splits client.splits round_end.splits)

lemma cleaning_progress:
  assumes inv: "server_inv s xs" and l: "listener s = Cleaning p"
  shows "(\<exists>act. work_cost act = 1 \<and> server_step H P act s \<noteq> Blocked) \<or> (\<exists>a \<in> set xs. waits_for_client H P s a)"
  using inv l
proof (cases rule: join_cases)
  case (waits a)
  show ?thesis
  proof (cases "thread_step H P a s = Blocked")
    case True
    with waits(1) thread_blocked [OF waits(2)] show ?thesis by blast
  next
    case False
    then show ?thesis by (intro disjI1 exI [of _ "Thread a"]) (simp add: server_step_def)
  qed
qed (use l in \<open>auto simp: server_step_def intro!: exI [of _ Join]\<close>)



lemma done_released:
  assumes inv: "server_inv s xs" and l: "listener s = Done"
  shows "running s = Map.empty \<and> nodes (slist s) = Map.empty \<and> mset (joined (slist s)) = mset (map fst (created (slist s))) \<and>
    mset (clientFds s) = sum_list (map descriptor (aborted s))"
proof -
  have x: "xs = []" using inv l by (simp add: server_inv_def main_at_def)
  then have "threads_inv (slist s) []" "mset (clientFds s) = sum_list (map descriptor (aborted s))"
    using server_invD(1,3) [OF inv] by simp_all
  moreover have "running s a = None" for a using server_invD(5) [OF inv, of a] x by (cases "running s a") auto
  ultimately show ?thesis by (auto simp: threads_inv_empty fun_eq_iff)
qed

section \<open>The events of the accept loop\<close>

lemma listen_loop_snoc:
  "listen_loop es s = Some (True, t) \<Longrightarrow> listen_loop (es @ [e]) s = listen_loop [e] t"
  by (induction es arbitrary: s) (auto split: bind_splits if_splits)

lemma mark_mark: "mark_complete [a] (mark_complete cs t) = mark_complete (a # cs) t"
proof (rule threads.equality)
  show "nodes (mark_complete [a] (mark_complete cs t)) = nodes (mark_complete (a # cs) t)"
  proof
    fix b show "nodes (mark_complete [a] (mark_complete cs t)) b = nodes (mark_complete (a # cs) t) b"
      by (cases "nodes t b") (simp_all add: mark_complete_def)
  qed
qed (simp_all add: mark_complete_def)

lemma new_thread_marked:
  assumes "node_at e = Some a" "a \<notin> set cs"
  shows "new_thread e (mark_complete cs t) = map_option (mark_complete cs) (new_thread e t)"
proof -
  let ?n = "\<lparr>thread = thread_made e, isThreadComplete = False, clientfd = accepted e, entries = slh_first t\<rparr>"
  have "nodes (mark_complete cs (t\<lparr>nodes := (nodes t)(a \<mapsto> ?n)\<rparr>)) = (nodes (mark_complete cs t))(a \<mapsto> ?n)"
    using assms(2) by (auto simp: mark_complete_def fun_eq_iff)
  with assms(1) show ?thesis by (auto simp: new_thread_def SLIST_INSERT_HEAD_def mark_complete_def intro!: threads.equality split: option.split)
qed

lemma listen_round_marked:
  assumes "\<not> interrupts e" "node_at e = Some a" "a \<notin> set cs" "completed e = []"
  shows "listen_round e (mark_complete cs t) = listen_round (e\<lparr>completed := cs\<rparr>) t"
proof -
  have "new_thread (e\<lparr>completed := cs\<rparr>) t = new_thread e t" by (simp add: new_thread_def)
  with assms(1,4) new_thread_marked [OF assms(2,3)] show ?thesis
    by (cases "new_thread e t") (auto simp: listen_round_def interrupts_def Let_def)
qed

lemma follows_accept:
  assumes inv: "server_inv s xs" "server_inv s' ys" and f: "follows es s xs" and e: "admissible (Accept e inp) s"
    and l: "listener s = Listening" and step: "main_accept e inp s = Some s'"
  shows "\<exists>e'. unmarked e' = e \<and> follows (es @ [e']) s' ys"
proof -
  obtain t cs where t: "listen_loop es no_threads = Some (True, t)" "slist s = mark_complete cs t" "set cs \<subseteq> dom (nodes t)"
    using f l by (auto simp: follows_def)
  have sv: "served e (slist s)" "completed e = []" using e by (simp_all add: admissible_def)
  let ?e = "e\<lparr>completed := cs\<rparr>"
  have u: "unmarked ?e = e" using sv(2) by (simp add: unmarked_def)
  note sn = listen_loop_snoc [OF t(1), of ?e]
  show ?thesis
  proof (cases "interrupts e")
    case True
    then have "listen_round e (slist s) = Some (False, slist s)" "listen_round ?e t = Some (False, t)"
      by (auto simp: listen_round_def interrupts_def)
    then have s': "slist s' = mark_complete cs t" "listener s' = Cleaning (slh_first (slist s))" "listen_loop (es @ [?e]) no_threads = Some (False, t)"
      using True step t(2) sn by (auto simp: main_accept_def Let_def)
    with server_invD(1) [OF inv(2)] have "follows (es @ [?e]) s' ys"
      by (auto simp: follows_def join_order_def mark_complete_same)
    with u show ?thesis by blast
  next
    case False
    then obtain a where a: "node_at e = Some a" "nodes (slist s) a = None" using sv(1) by (auto simp: served_def split: option.splits)
    have "a \<notin> set cs" using a(2) t(2,3) mark_complete_same(5) [of cs t] by (metis domIff subsetD)
    from listen_round_marked [OF False a(1) this sv(2), of t] t(2) have r: "listen_round e (slist s) = listen_round ?e t" by simp
    obtain go t' where g: "listen_round ?e t = Some (go, t')" "slist s' = t'" "listener s' = (if go then Listening else Cleaning (slh_first t'))"
      using step False r by (auto simp: main_accept_def Let_def split: bind_splits)
    have "listen_loop (es @ [?e]) no_threads = Some (go, t')" using sn g(1) by auto
    then have "follows (es @ [?e]) s' ys" using g(2,3) server_invD(1) [OF inv(2)]
      by (cases go) (auto simp: follows_def intro: exI [of _ "[]"])
    with u show ?thesis by blast
  qed
qed

lemma follows_thread:
  assumes inv: "server_inv s xs" and f: "follows es s xs" and m: "thread_moved a xs s s'"
  shows "follows es s' xs"
proof -
  have s': "slist s' = slist s \<or> slist s' = mark_complete [a] (slist s)" "listener s' = listener s" "a \<in> set xs"
    using m by (auto simp: thread_moved_def)
  show ?thesis
  proof (cases "listener s = Listening")
    case True
    then obtain t cs where t: "listen_loop es no_threads = Some (True, t)" "slist s = mark_complete cs t" "set cs \<subseteq> dom (nodes t)"
      using f by (auto simp: follows_def)
    have "a \<in> dom (nodes t)" using s'(3) threads_invD(2) [OF server_invD(1) [OF inv]] t(2) by (simp add: mark_complete_same)
    then have "\<exists>cs. slist s' = mark_complete cs t \<and> set cs \<subseteq> dom (nodes t)"
      using s'(1) t(2,3) mark_mark [of a cs t] by (metis insert_subset list.simps(15))
    with t(1) s'(2) True show ?thesis by (auto simp: follows_def)
  next
    case False
    have "created (slist s') = created (slist s)" "join_order (slist s') xs = join_order (slist s) xs"
      using s'(1) by (auto simp: join_order_def mark_complete_same)
    with f False s'(2) show ?thesis by (simp add: follows_def)
  qed
qed

lemma follows_join:
  assumes f: "follows es s (a # zs)" and l: "listener s \<noteq> Listening" and j: "joined_first a zs s s'"
  shows "follows es s' zs"
proof -
  have "map (the \<circ> thread_at (slist s')) zs = map (the \<circ> thread_at (slist s)) zs" using j by (simp add: joined_first_def)
  then have "join_order (slist s') zs = join_order (slist s) (a # zs)" using j by (simp add: join_order_def joined_first_def)
  with f l j show ?thesis by (auto simp: follows_def joined_first_def)
qed

lemma follows_step:
  assumes inv: "server_inv s xs" and f: "follows es s xs" and adm: "admissible act s" and step: "server_step H P act s = Next s'"
  shows "\<exists>es' ys. server_inv s' ys \<and> map unmarked es' = connections [act] \<and> follows (es @ es') s' ys"
proof (cases act)
  case (Accept e inp)
  then have l: "listener s = Listening" "main_accept e inp s = Some s'"
    using step by (auto simp: server_step_def defined_step_def split: if_splits option.splits)
  from main_accept_moved [OF inv adm [unfolded Accept] l(1)] l(2) obtain ys where ys: "server_inv s' ys" by (metis option.inject)
  from follows_accept [OF inv ys f adm [unfolded Accept] l] obtain e' where "unmarked e' = e" "follows (es @ [e']) s' ys" by blast
  with ys Accept show ?thesis by (intro exI [of _ "[e']"] exI [of _ ys]) simp
next
  case (Signal sig)
  with step have s': "s' = s\<lparr>globals := handle_sigint sig (globals s)\<rparr>" by (simp add: server_step_def)
  then have "follows es s' xs" using f by (auto simp: follows_def split: if_splits)
  with s' signal_inv [OF inv] Signal show ?thesis by (intro exI [of _ "[]"] exI [of _ xs]) simp
next
  case (Thread a)
  then have m: "thread_moved a xs s s'" using thread_step_moved [OF inv] step by (simp add: server_step_def)
  with follows_thread [OF inv f m] Thread show ?thesis by (intro exI [of _ "[]"] exI [of _ xs]) (simp add: thread_moved_def)
next
  case Join
  then obtain p where p: "listener s = Cleaning p" "main_join p s = Next s'" using step by (auto simp: server_step_def split: listener.splits)
  from inv p(1) show ?thesis
  proof (cases rule: join_cases)
    case ends
    then have s': "s' = s\<lparr>listener := Done\<rparr>" using p(2) by simp
    then have "follows es s' []" using f p(1) ends(1) by (simp add: follows_def)
    with ends(3) s' Join show ?thesis by (intro exI [of _ "[]"] exI [of _ "[]"]) simp
  next
    case (joins a zs s1)
    then have "joined_first a zs s s'" using p(2) by simp
    with follows_join [of es s a zs s'] f joins(1) p(1) Join show ?thesis
      by (intro exI [of _ "[]"] exI [of _ zs]) (simp add: joined_first_def)
  qed (use p in simp)
qed

lemma connections_append [simp]: "connections (acts @ acts') = connections acts @ connections acts'"
  by (induction acts rule: connections.induct) auto

lemma server_run_follows:
  assumes "server_run H P (server_start g v) acts s"
  shows "\<exists>es xs. server_inv s xs \<and> map unmarked es = connections acts \<and> follows es s xs"
  using assms
proof induction
  case run_start
  have "follows [] (server_start g v) []"
    by (simp add: follows_def server_start_def SLIST_INIT_def no_threads_def)
  with server_start_inv [of g v] show ?case by (intro exI [of _ "[]"]) simp
next
  case (run_step acts s1 act s2)
  then obtain es xs where es: "server_inv s1 xs" "map unmarked es = connections acts" "follows es s1 xs" by blast
  from follows_step [OF es(1,3)] run_step.hyps(2) [unfolded server_trans_def] obtain es' ys where
    "server_inv s2 ys" "map unmarked es' = connections [act]" "follows (es @ es') s2 ys" by blast
  with es(2) show ?case by (intro exI [of _ "es @ es'"] exI [of _ ys]) simp
qed

lemma follows_done:
  assumes inv: "server_inv s xs" and f: "follows es s xs" and l: "listener s = Done"
  shows "listenLoop es no_threads = Some (Returned 0 (slist s))"
proof -
  have x: "xs = []" using inv l by (simp add: server_inv_def main_at_def)
  obtain t ts where t: "listen_loop es no_threads = Some (False, t)" "threads_inv t ts" "created (slist s) = created t"
    "joined (slist s) = joined t @ map (the \<circ> thread_at t) ts"
    using f l x by (auto simp: follows_def join_order_def)
  obtain t' where t': "foreach_safe (\<lambda>_. True) (slh_first t) t = Some t'" "threads_inv t' []" "created t' = created t"
    "joined t' = joined t @ map (the \<circ> thread_at t) ts"
    using foreach_inv [OF t(2), of "\<lambda>_. True"] by (metis filter_False filter_True)
  have "t' = slist s" using t t' server_invD(1) [OF inv] x by (intro threads.equality) (simp_all add: threads_inv_empty)
  moreover have "SLIST_INIT no_threads = no_threads" by (simp add: SLIST_INIT_def no_threads_def)
  ultimately show ?thesis using t(1) t'(1) by (simp add: listenLoop_def)
qed

section \<open>Examples\<close>

lemma server_exec_run:
  assumes "server_exec H P acts s1 = Some s2" "server_run H P s before s1"
  shows "server_run H P s (before @ acts) s2"
  using assms
proof (induction acts arbitrary: before s1)
  case (Cons act acts)
  then obtain s' where s': "admissible act s1" "server_step H P act s1 = Next s'" "server_exec H P acts s' = Some s2"
    by (auto split: if_splits outcome.splits)
  then have "server_trans H P s1 act s'" by (simp add: server_trans_def)
  from Cons.IH [OF s'(3) run_of.run_step [OF Cons.prems(2) this]] show ?case by simp
qed simp

lemmas server_execD = server_exec_run [OF _ run_of.run_start, simplified]

lemma example_run_exec:
  obtains s where "server_exec example_host example_parted example_run (server_start (initial_server None) example_drive) = Some s"
    "listener s = Done" "clientFds s = [6]"
proof -
  have "case server_exec example_host example_parted example_run (server_start (initial_server None) example_drive) of
      None \<Rightarrow> False | Some s \<Rightarrow> listener s = Done \<and> clientFds s = [6]" by code_simp
  with that show thesis by (auto split: option.splits)
qed

lemma crashing_run_exec:
  obtains s where "server_exec example_host example_parted crashing_run (server_start (initial_server None) example_drive) = Some s"
    "server_step example_host example_parted (Thread 1) s = Fault"
proof -
  have "case server_exec example_host example_parted crashing_run (server_start (initial_server None) example_drive) of
      None \<Rightarrow> False | Some s \<Rightarrow> (case server_step example_host example_parted (Thread 1) s of Fault \<Rightarrow> True | _ \<Rightarrow> False)" by code_simp
  with that show thesis by (auto split: option.splits outcome.splits)
qed


section \<open>Properties\<close>

text \<open>
  C10. However the main thread, the client threads and signals interleave, the thread list stays
  linked, every running thread works on a node of it that is not marked, the open client
  descriptors are exactly those of the running threads and of the threads that returned early, each once; the
  calls on the drive stay guarded; and the client threads together make at most as many steps as the
  streams of their clients allow, so that they end unless new clients come.
\<close>

theorem server_run_invariant:
  assumes "server_run H P (server_start g v) acts s"
  shows "\<exists>xs. server_inv s xs \<and> safe_step v (drive s) \<and> 
    sum_list (map thread_cost acts) + client_sum steps_left s xs \<le> sum_list (map thread_gain acts)"
  by (rule server_run_inv [OF assms])

text \<open>
  C11. The running server faults in exactly two ways: in the handling of a message, or when \<open>malloc\<close> has no memory
  for the node of a new connection. Otherwise, as long as every thread can be created and the system gives new
  connections unused descriptors and memory, no thread reads or writes a node that was freed, and neither
  accepting, reaping nor joining runs into undefined behaviour.
\<close>

theorem server_faults_in_messages:
  assumes "server_run H P (server_start g v) acts s"
    and "\<forall>e inp. act = Accept e inp \<and> node_at e \<noteq> None \<longrightarrow> admissible act s"
  shows "server_step H P act s = Fault \<longleftrightarrow>
    (\<exists>a fd se. act = Thread a \<and> running s a = Some (Receiving fd se) \<and> thread_round H P (se\<lparr>nv := drive s\<rparr>) = None) \<or>
    (\<exists>e inp. act = Accept e inp \<and> listener s = Listening \<and> \<not> interrupts e \<and> node_at e = None)"
proof -
  obtain xs where xs: "server_inv s xs" using server_run_inv [OF assms(1)] by blast
  show ?thesis using server_step_fault [OF xs _ assms(2), of H P] server_step_faults [of act s H P] by blast
qed

text \<open>
  C12. Once the main thread has left its loop, and as long as threads and memory were available for the
  connections, every run makes at most four steps per thread in the list and one more, signals apart. Before the end some
  step is possible, unless a thread waits in \<open>recv\<close> for a client that stays connected and silent; so when there is
  no such client the server ends, or faults in handling a message, and the threads never wait for each other in a
  circle. At
  the end every thread was joined once, no node and no thread is left, and the only client descriptors open are those of
  the threads that returned early.
\<close>

theorem server_shuts_down:
  assumes "server_run H P (server_start g v) acts s" "listener s \<noteq> Listening"
  shows "\<exists>xs. threads_inv (slist s) xs \<and>
    (\<forall>acts' s'. server_run H P s acts' s' \<longrightarrow> sum_list (map work_cost acts') \<le> 4 * length xs + 1) \<and>
    (if listener s = Done
     then running s = Map.empty \<and> nodes (slist s) = Map.empty \<and> mset (joined (slist s)) = mset (map fst (created (slist s))) \<and>
       mset (clientFds s) = sum_list (map descriptor (aborted s))
     else (\<exists>act. work_cost act = 1 \<and> server_step H P act s \<noteq> Blocked) \<or> (\<exists>a \<in> set xs. waits_for_client H P s a))"
proof -
  obtain xs where xs: "server_inv s xs" using server_run_inv [OF assms(1)] by blast
  have "sum_list (map work_cost acts') \<le> 4 * length xs + 1" if "server_run H P s acts' s'" for acts' s'
    using shutdown_run [OF that xs assms(2)] shutdown_bound [OF xs] by linarith
  moreover have "(\<exists>act. work_cost act = 1 \<and> server_step H P act s \<noteq> Blocked) \<or> (\<exists>a \<in> set xs. waits_for_client H P s a)"
    if "listener s \<noteq> Done"
    using that assms(2) cleaning_progress [OF xs] by (cases "listener s") auto
  ultimately show ?thesis using server_invD(1) [OF xs] done_released [OF xs] by (intro exI [of _ xs]) auto
qed


theorem server_run_invariant_witness:
  "\<exists>s xs. server_run example_host example_parted (server_start (initial_server None) example_drive) example_run s \<and>
     server_inv s xs \<and> safe_step example_drive (drive s)"
proof -
  obtain s where "server_exec example_host example_parted example_run (server_start (initial_server None) example_drive) = Some s"
    by (rule example_run_exec)
  from server_run_invariant [OF server_execD [OF this]] server_execD [OF this] show ?thesis by blast
qed

theorem server_faults_in_messages_witness:
  "\<exists>s fd se. server_run example_host example_parted (server_start (initial_server None) example_drive) crashing_run s \<and>
     running s 1 = Some (Receiving fd se) \<and> thread_round example_host example_parted (se\<lparr>nv := drive s\<rparr>) = None"
proof -
  obtain s where s: "server_exec example_host example_parted crashing_run (server_start (initial_server None) example_drive) = Some s"
    "server_step example_host example_parted (Thread 1) s = Fault" by (rule crashing_run_exec)
  have "admissible (Thread 1) s" by (simp add: admissible_def)
  with server_faults_in_messages [OF server_execD [OF s(1)], of "Thread 1"] s(2) server_execD [OF s(1)] show ?thesis by auto
qed

theorem server_shuts_down_witness:
  "\<exists>s. server_run example_host example_parted (server_start (initial_server None) example_drive) example_run s \<and>
     clientFds s = [6] \<and> running s = Map.empty \<and> nodes (slist s) = Map.empty"
proof -
  obtain s where s: "server_exec example_host example_parted example_run (server_start (initial_server None) example_drive) = Some s"
    "listener s = Done" "clientFds s = [6]" by (rule example_run_exec)
  from server_shuts_down [OF server_execD [OF s(1)]] s(2,3) server_execD [OF s(1)] show ?thesis by auto
qed


end
