(* ===== verification/StdoutRedirect.thy ===== *)
theory StdoutRedirect
  imports CommandServerProps
begin

text \<open>
  How a command's text reaches its client. The commands of \<open>repsondingThread\<close> whose operation prints
  (\<open>status\<close>, \<open>listparts\<close>, \<open>read\<close> and the performance jobs) save the standard output with
  \<open>dup\<close>, put the client's descriptor in its place with \<open>dup2\<close>, run the operation and put the
  saved one back; the copy is never closed, and nothing flushes the stream.

  The state is the process's table of descriptors, what every open file got, the buffer of the stream
  \<open>stdout\<close> and the variable \<open>savedfd\<close> of each thread. Parameters: the limit of the table, and
  how many characters of its buffer the stream passes on after a call of \<open>printf\<close>.
\<close>

section \<open>State\<close>

definition STDOUT_FILENO :: int where "STDOUT_FILENO = 1"

record io =
  fds :: "int \<rightharpoonup> nat"
  sinks :: "nat \<Rightarrow> string"
  buffer :: string
  savedfd :: "nat \<Rightarrow> int"

section \<open>System calls and printing\<close>

text \<open>The lowest free descriptor refers to the same file; -1 when there is none or \<open>d\<close> is not open.\<close>

definition dup :: "nat \<Rightarrow> int \<Rightarrow> io \<Rightarrow> int \<times> io" where
  "dup limit d s = (case fds s d of
     None \<Rightarrow> (- 1, s)
   | Some f \<Rightarrow> (case find (\<lambda>d'. fds s d' = None) (map int [0..<limit]) of
       None \<Rightarrow> (- 1, s)
     | Some d' \<Rightarrow> (d', s\<lparr>fds := (fds s)(d' \<mapsto> f)\<rparr>)))"

definition dup2 :: "int \<Rightarrow> int \<Rightarrow> io \<Rightarrow> io" where
  "dup2 d d' s = (case fds s d of None \<Rightarrow> s | Some f \<Rightarrow> s\<lparr>fds := (fds s)(d' \<mapsto> f)\<rparr>)"

definition printf :: "(string \<Rightarrow> nat) \<Rightarrow> string \<Rightarrow> io \<Rightarrow> io" where
  "printf passed t s =
     (let b = buffer s @ t;
          n = passed b;
          s1 = s\<lparr>buffer := drop n b\<rparr>
      in case fds s STDOUT_FILENO of
           None \<Rightarrow> s1
         | Some f \<Rightarrow> s1\<lparr>sinks := (sinks s)(f := sinks s f @ take n b)\<rparr>)"

section \<open>Redirecting a command\<close>

datatype redirect_action = Save | Switch int | Print string | Restore

definition redirect_step :: "(string \<Rightarrow> nat) \<Rightarrow> nat \<Rightarrow> nat \<times> redirect_action \<Rightarrow> io \<Rightarrow> io" where
  "redirect_step passed limit = (\<lambda>(c, st) s. case st of
     Save \<Rightarrow> (let (d, s1) = dup limit STDOUT_FILENO s in s1\<lparr>savedfd := (savedfd s)(c := d)\<rparr>)
   | Switch clientFD \<Rightarrow> dup2 clientFD STDOUT_FILENO s
   | Print t \<Rightarrow> printf passed t s
   | Restore \<Rightarrow> dup2 (savedfd s c) STDOUT_FILENO s)"

text \<open>The steps of thread \<open>c\<close> around an operation that prints the texts \<open>ts\<close>, and a run of such steps.\<close>

definition redirected_op :: "nat \<Rightarrow> int \<Rightarrow> string list \<Rightarrow> (nat \<times> redirect_action) list" where
  "redirected_op c clientFD ts = map (Pair c) ([Save, Switch clientFD] @ map Print ts @ [Restore])"

definition redirect_run :: "(string \<Rightarrow> nat) \<Rightarrow> nat \<Rightarrow> (nat \<times> redirect_action) list \<Rightarrow> io \<Rightarrow> io" where
  "redirect_run passed limit = fold (redirect_step passed limit)"

section \<open>Specification notions\<close>

text \<open>
  A line-buffered stream passes on every complete line; a fully buffered one nothing before \<open>n\<close>
  characters have come together.
\<close>

definition line_buffered :: "(string \<Rightarrow> nat) \<Rightarrow> bool" where
  "line_buffered passed \<longleftrightarrow> (\<forall>b. CHR 0x0A \<notin> set (drop (passed b) b))"

definition fully_buffered :: "nat \<Rightarrow> (string \<Rightarrow> nat) \<Rightarrow> bool" where
  "fully_buffered n passed \<longleftrightarrow> (\<forall>b. length b < n \<longrightarrow> passed b = 0)"

definition ends_line :: "string \<Rightarrow> bool" where
  "ends_line t \<longleftrightarrow> t = [] \<or> last t = CHR 0x0A"

text \<open>The free descriptors.\<close>

definition free_fds :: "nat \<Rightarrow> io \<Rightarrow> int set" where
  "free_fds limit s = {d. fds s d = None \<and> 0 \<le> d \<and> d < int limit}"

text \<open>
  Several redirected operations one after the other, each given by its thread, its client's descriptor and its texts;
  and the texts of those whose descriptor refers to the file \<open>f\<close>.
\<close>

fun redirected_ops :: "(nat \<times> int \<times> string list) list \<Rightarrow> (nat \<times> redirect_action) list" where
  "redirected_ops [] = []"
| "redirected_ops ((c, clientFD, ts) # ops) = redirected_op c clientFD ts @ redirected_ops ops"

fun texts_for :: "(int \<rightharpoonup> nat) \<Rightarrow> nat \<Rightarrow> (nat \<times> int \<times> string list) list \<Rightarrow> string" where
  "texts_for table f [] = []"
| "texts_for table f ((c, clientFD, ts) # ops) = (if table clientFD = Some f then concat ts else []) @ texts_for table f ops"

text \<open>The stream of a terminal, and a process with two clients.\<close>

definition by_line :: "string \<Rightarrow> nat" where
  "by_line b = length b - length (takeWhile (\<lambda>c. c \<noteq> CHR 0x0A) (rev b))"

definition example_io :: io where
  "example_io = \<lparr>fds = [0 \<mapsto> 0, 1 \<mapsto> 1, 2 \<mapsto> 1, 3 \<mapsto> 3, 4 \<mapsto> 4, 5 \<mapsto> 5], sinks = (\<lambda>_. []), buffer = [], savedfd = (\<lambda>_. 0)\<rparr>"

section \<open>Descriptors\<close>

lemma find_free: "find (\<lambda>d. fds s d = None) (map int [0..<n]) = Some d \<Longrightarrow> d \<in> free_fds n s"
  by (auto simp: find_Some_iff free_fds_def)

lemma dup_cases:
  assumes "fds s d = Some f"
  obtains (free) d' where "d' \<in> free_fds n s" "dup n d s = (d', s\<lparr>fds := (fds s)(d' \<mapsto> f)\<rparr>)"
    | (full) "free_fds n s = {}" "dup n d s = (- 1, s)"
proof (cases "find (\<lambda>d. fds s d = None) (map int [0..<n])")
  case None
  then have "\<not> (\<exists>k. k \<in> int ` {0..<n} \<and> fds s k = None)" by (auto simp: find_None_iff)
  moreover have "d \<in> int ` {0..<n}" if "0 \<le> d" "d < int n" for d using that by (intro image_eqI [of _ _ "nat d"]) auto
  ultimately have "free_fds n s = {}" by (auto simp: free_fds_def)
  with None assms full show thesis by (simp add: dup_def)
next
  case (Some d')
  with find_free [OF Some] assms free show thesis by (simp add: dup_def)
qed

lemma finite_free [simp]: "finite (free_fds n s)"
  by (rule finite_subset [of _ "{0..<int n}"]) (auto simp: free_fds_def)

section \<open>Printing\<close>

lemma ends_line_append: "ends_line t \<Longrightarrow> ends_line u \<Longrightarrow> ends_line (t @ u)"
  by (cases u rule: rev_cases) (auto simp: ends_line_def)

lemma ends_line_concat: "\<forall>t \<in> set ts. ends_line t \<Longrightarrow> ends_line (concat ts)"
  by (induction ts) (auto simp: ends_line_append, simp add: ends_line_def)

text \<open>Printing passes the text on in order, whatever stays in the buffer.\<close>

lemma print_all:
  assumes "fds s STDOUT_FILENO = Some f"
  shows "\<exists>out b. redirect_run F n (map (Pair c) (map Print ts)) s = s\<lparr>sinks := (sinks s)(f := sinks s f @ out), buffer := b\<rparr> \<and>
    out @ b = buffer s @ concat ts \<and> (line_buffered F \<longrightarrow> CHR 0x0A \<notin> set (buffer s) \<longrightarrow> CHR 0x0A \<notin> set b) \<and>
    (fully_buffered m F \<longrightarrow> length (buffer s @ concat ts) < m \<longrightarrow> out = [])"
  using assms
proof (induction ts arbitrary: s)
  case Nil
  show ?case by (intro exI [of _ "[]"] exI [of _ "buffer s"]) (simp add: redirect_run_def)
next
  case (Cons t ts)
  let ?b = "buffer s @ t"
  let ?s = "s\<lparr>buffer := drop (F ?b) ?b, sinks := (sinks s)(f := sinks s f @ take (F ?b) ?b)\<rparr>"
  have p: "redirect_step F n (c, Print t) s = ?s" using Cons.prems by (simp add: redirect_step_def printf_def Let_def)
  have "fds ?s STDOUT_FILENO = Some f" using Cons.prems by simp
  from Cons.IH [OF this] obtain out b where o: "redirect_run F n (map (Pair c) (map Print ts)) ?s =
      ?s\<lparr>sinks := (sinks ?s)(f := sinks ?s f @ out), buffer := b\<rparr>"
    "out @ b = buffer ?s @ concat ts" "line_buffered F \<longrightarrow> CHR 0x0A \<notin> set (buffer ?s) \<longrightarrow> CHR 0x0A \<notin> set b"
    "fully_buffered m F \<longrightarrow> length (buffer ?s @ concat ts) < m \<longrightarrow> out = []" by blast
  have "redirect_run F n (map (Pair c) (map Print (t # ts))) s =
      s\<lparr>sinks := (sinks s)(f := sinks s f @ (take (F ?b) ?b @ out)), buffer := b\<rparr>"
    using p o(1) by (simp add: redirect_run_def)
  moreover have "(take (F ?b) ?b @ out) @ b = buffer s @ concat (t # ts)"
    using o(2) append_take_drop_id [of "F ?b" ?b] by (simp del: append_take_drop_id take_append drop_append)
  moreover have "line_buffered F \<longrightarrow> CHR 0x0A \<notin> set b" using o(3) by (simp add: line_buffered_def del: drop_append)
  moreover have "fully_buffered m F \<longrightarrow> length (buffer s @ concat (t # ts)) < m \<longrightarrow> take (F ?b) ?b @ out = []"
    using o(4) by (auto simp: fully_buffered_def)
  ultimately show ?case by blast
qed

lemma print_lines:
  assumes "fds s STDOUT_FILENO = Some f" "buffer s = []" "line_buffered F" "ends_line (concat ts)"
  shows "redirect_run F n (map (Pair c) (map Print ts)) s = s\<lparr>sinks := (sinks s)(f := sinks s f @ concat ts)\<rparr>"
proof -
  obtain out b where o: "redirect_run F n (map (Pair c) (map Print ts)) s = s\<lparr>sinks := (sinks s)(f := sinks s f @ out), buffer := b\<rparr>"
    "out @ b = concat ts" "CHR 0x0A \<notin> set b"
    using print_all [OF assms(1), where F = F and n = n and c = c and ts = ts and m = 0] assms(2,3) by auto
  have "b = []"
  proof (rule ccontr)
    assume "b \<noteq> []"
    then have "last b \<in> set b" "last (concat ts) = last b" "concat ts \<noteq> []" using o(2) by (simp, metis last_appendR, metis append_is_Nil_conv)
    with assms(4) o(3) show False by (metis ends_line_def)
  qed
  with o assms(2) show ?thesis by (cases s) simp
qed

lemma print_buffered:
  assumes "fds s STDOUT_FILENO = Some f" "fully_buffered m F" "length (buffer s @ concat ts) < m"
  shows "redirect_run F n (map (Pair c) (map Print ts)) s = s\<lparr>buffer := buffer s @ concat ts\<rparr>"
proof -
  obtain o' b where "redirect_run F n (map (Pair c) (map Print ts)) s = s\<lparr>sinks := (sinks s)(f := sinks s f @ o'), buffer := b\<rparr>"
    "o' @ b = buffer s @ concat ts" "o' = []"
    using print_all [OF assms(1), where F = F and n = n and c = c and ts = ts and m = m] assms(2,3) by blast
  then show ?thesis by (cases s) simp
qed

section \<open>Redirected operations\<close>

lemma redirect_run_append [simp]: "redirect_run F n (xs @ ys) s = redirect_run F n ys (redirect_run F n xs s)"
  by (simp add: redirect_run_def)

lemma redirect_run_simps [simp]:
  "redirect_run F n [] s = s"
  "redirect_run F n ((c, Switch d) # xs) s = redirect_run F n xs (dup2 d STDOUT_FILENO s)"
  "redirect_run F n ((c, Restore) # xs) s = redirect_run F n xs (dup2 (savedfd s c) STDOUT_FILENO s)"
  by (simp_all add: redirect_run_def redirect_step_def)

lemma save_step:
  assumes "dup n STDOUT_FILENO s = (d, s1)"
  shows "redirect_run F n ((c, Save) # xs) s = redirect_run F n xs (s1\<lparr>savedfd := (savedfd s)(c := d)\<rparr>)"
  using assms by (simp add: redirect_run_def redirect_step_def)

lemma free_other: "d \<in> free_fds n s \<Longrightarrow> fds s e = Some f \<Longrightarrow> e \<noteq> d"
  by (auto simp: free_fds_def)

lemma redirected_op_run:
  assumes "dup n STDOUT_FILENO s = (d, s1)" "fds s1 clientFD = Some f"
  shows "redirect_run F n (redirected_op c clientFD ts) s =
    redirect_run F n [(c, Restore)] (redirect_run F n (map (Pair c) (map Print ts))
      (s1\<lparr>savedfd := (savedfd s)(c := d), fds := (fds s1)(STDOUT_FILENO \<mapsto> f)\<rparr>))"
proof -
  have "redirected_op c clientFD ts = (c, Save) # (c, Switch clientFD) # map (Pair c) (map Print ts) @ [(c, Restore)]"
    by (simp add: redirected_op_def)
  with assms(2) show ?thesis by (simp add: save_step [OF assms(1)] dup2_def)
qed

lemma save_free:
  assumes "fds s STDOUT_FILENO = Some out" "fds s clientFD = Some f" "free_fds n s \<noteq> {}"
  obtains d where "d \<in> free_fds n s" "dup n STDOUT_FILENO s = (d, s\<lparr>fds := (fds s)(d \<mapsto> out)\<rparr>)"
    "clientFD \<noteq> d" "STDOUT_FILENO \<noteq> d"
  using dup_cases [OF assms(1), of n] assms free_other by metis

lemma redirected_delivers:
  assumes io: "fds s STDOUT_FILENO = Some out" "fds s clientFD = Some f" "free_fds n s \<noteq> {}" "buffer s = []"
    and lines: "line_buffered F" "ends_line (concat ts)"
  obtains d where "d \<in> free_fds n s" "redirect_run F n (redirected_op c clientFD ts) s =
    s\<lparr>fds := (fds s)(d \<mapsto> out), sinks := (sinks s)(f := sinks s f @ concat ts), savedfd := (savedfd s)(c := d)\<rparr>"
proof -
  obtain d where d: "d \<in> free_fds n s" "dup n STDOUT_FILENO s = (d, s\<lparr>fds := (fds s)(d \<mapsto> out)\<rparr>)" "clientFD \<noteq> d" "STDOUT_FILENO \<noteq> d"
    using save_free [OF io(1-3)] .
  let ?s = "s\<lparr>savedfd := (savedfd s)(c := d), fds := (fds s)(d \<mapsto> out, STDOUT_FILENO \<mapsto> f)\<rparr>"
  have p: "redirect_run F n (map (Pair c) (map Print ts)) ?s = ?s\<lparr>sinks := (sinks s)(f := sinks s f @ concat ts)\<rparr>"
    using print_lines [of ?s f F ts n c] io(4) lines by simp
  have "(fds s)(d \<mapsto> out, STDOUT_FILENO \<mapsto> f, STDOUT_FILENO \<mapsto> out) = (fds s)(d \<mapsto> out)" using io(1) d(4) by auto
  with redirected_op_run [OF d(2), of clientFD f F c ts] io(2) d(3,4) p have "redirect_run F n (redirected_op c clientFD ts) s =
    s\<lparr>fds := (fds s)(d \<mapsto> out), sinks := (sinks s)(f := sinks s f @ concat ts), savedfd := (savedfd s)(c := d)\<rparr>"
    by (simp add: dup2_def)
  with that d(1) show thesis by blast
qed

lemma redirected_exhausted:
  assumes io: "fds s STDOUT_FILENO = Some out" "fds s clientFD = Some f" "free_fds n s = {}" "buffer s = []"
    and neg: "fds s (- 1) = None" and lines: "line_buffered F" "ends_line (concat ts)"
  shows "redirect_run F n (redirected_op c clientFD ts) s =
    s\<lparr>fds := (fds s)(STDOUT_FILENO \<mapsto> f), sinks := (sinks s)(f := sinks s f @ concat ts), savedfd := (savedfd s)(c := - 1)\<rparr>"
proof -
  have d: "dup n STDOUT_FILENO s = (- 1, s)" using dup_cases [OF io(1), of n] io(3) by (metis empty_iff)
  let ?s = "s\<lparr>savedfd := (savedfd s)(c := - 1), fds := (fds s)(STDOUT_FILENO \<mapsto> f)\<rparr>"
  have "redirect_run F n (map (Pair c) (map Print ts)) ?s = ?s\<lparr>sinks := (sinks s)(f := sinks s f @ concat ts)\<rparr>"
    using print_lines [of ?s f F ts n c] io(4) lines by simp
  with redirected_op_run [OF d io(2), of F c ts] neg show ?thesis by (simp add: dup2_def STDOUT_FILENO_def)
qed

lemma redirected_buffered:
  assumes io: "fds s STDOUT_FILENO = Some out" "fds s clientFD = Some f" "free_fds n s \<noteq> {}"
    and full: "fully_buffered m F" "length (buffer s @ concat ts) < m"
  shows "sinks (redirect_run F n (redirected_op c clientFD ts) s) = sinks s \<and>
    buffer (redirect_run F n (redirected_op c clientFD ts) s) = buffer s @ concat ts \<and>
    fds (redirect_run F n (redirected_op c clientFD ts) s) STDOUT_FILENO = Some out"
proof -
  obtain d where d: "d \<in> free_fds n s" "dup n STDOUT_FILENO s = (d, s\<lparr>fds := (fds s)(d \<mapsto> out)\<rparr>)" "clientFD \<noteq> d" "STDOUT_FILENO \<noteq> d"
    using save_free [OF io] .
  let ?s = "s\<lparr>savedfd := (savedfd s)(c := d), fds := (fds s)(d \<mapsto> out, STDOUT_FILENO \<mapsto> f)\<rparr>"
  have "redirect_run F n (map (Pair c) (map Print ts)) ?s = ?s\<lparr>buffer := buffer s @ concat ts\<rparr>"
    using print_buffered [of ?s f m F ts n c] full by simp
  with redirected_op_run [OF d(2), of clientFD f F c ts] io(1,2) d(3,4) show ?thesis by (simp add: dup2_def)
qed

lemma free_fewer:
  assumes "d \<in> free_fds n s" "fds s' = (fds s)(d \<mapsto> f)"
  shows "free_fds n s' = free_fds n s - {d}"
  using assms by (auto simp: free_fds_def)

lemma texts_for_cong:
  assumes "\<forall>(c, clientFD, ts) \<in> set ops. table' clientFD = table clientFD"
  shows "texts_for table' f ops = texts_for table f ops"
  using assms by (induction ops rule: redirected_ops.induct) auto

lemma redirected_sequence:
  assumes "fds s STDOUT_FILENO = Some out" "buffer s = []" "line_buffered F" "length ops \<le> card (free_fds n s)"
    "\<forall>(c, clientFD, ts) \<in> set ops. fds s clientFD \<noteq> None \<and> ends_line (concat ts)"
  shows "fds (redirect_run F n (redirected_ops ops) s) STDOUT_FILENO = Some out \<and>
    buffer (redirect_run F n (redirected_ops ops) s) = [] \<and>
    card (free_fds n (redirect_run F n (redirected_ops ops) s)) = card (free_fds n s) - length ops \<and>
    sinks (redirect_run F n (redirected_ops ops) s) f = sinks s f @ texts_for (fds s) f ops"
  using assms
proof (induction ops arbitrary: s rule: redirected_ops.induct)
  case (2 c clientFD ts ops)
  obtain g where g: "fds s clientFD = Some g" "ends_line (concat ts)" using "2.prems"(5) by auto
  have ne: "free_fds n s \<noteq> {}" using "2.prems"(4) by auto
  obtain d where d: "d \<in> free_fds n s" "redirect_run F n (redirected_op c clientFD ts) s =
      s\<lparr>fds := (fds s)(d \<mapsto> out), sinks := (sinks s)(g := sinks s g @ concat ts), savedfd := (savedfd s)(c := d)\<rparr>"
    using redirected_delivers [OF "2.prems"(1) g(1) ne "2.prems"(2,3) g(2)] .
  let ?s = "s\<lparr>fds := (fds s)(d \<mapsto> out), sinks := (sinks s)(g := sinks s g @ concat ts), savedfd := (savedfd s)(c := d)\<rparr>"
  have fr: "card (free_fds n ?s) = card (free_fds n s) - 1" using free_fewer [OF d(1), of ?s out] d(1) by simp
  have nd: "fds s e \<noteq> None \<Longrightarrow> fds ?s e = fds s e" for e using d(1) by (auto simp: free_fds_def)
  have "fds ?s STDOUT_FILENO = Some out" "buffer ?s = []" "length ops \<le> card (free_fds n ?s)"
    "\<forall>(c, clientFD, ts) \<in> set ops. fds ?s clientFD \<noteq> None \<and> ends_line (concat ts)"
    using "2.prems" nd [of STDOUT_FILENO] fr by auto
  note IH = "2.IH" [OF this(1,2) "2.prems"(3) this(3,4)]
  have t: "texts_for (fds ?s) f ops = texts_for (fds s) f ops" using "2.prems"(5) nd by (intro texts_for_cong) auto
  show ?case using IH unfolding redirected_ops.simps redirect_run_append d(2) fr t using g(1) by auto
qed simp

lemma print_line:
  assumes "fds s STDOUT_FILENO = Some f" "buffer s = []" "line_buffered F" "ends_line t"
  shows "redirect_run F n ((c, Print t) # xs) s = redirect_run F n xs (s\<lparr>sinks := (sinks s)(f := sinks s f @ t)\<rparr>)"
  using print_lines [OF assms(1,2,3), of "[t]" n c] assms(4) by (simp add: redirect_run_def)

lemma save_switch:
  assumes "fds s STDOUT_FILENO = Some out" "fds s fd = Some f" "free_fds n s \<noteq> {}"
  obtains d where "d \<in> free_fds n s" "STDOUT_FILENO \<noteq> d" "\<And>c F xs. redirect_run F n ((c, Save) # (c, Switch fd) # xs) s =
    redirect_run F n xs (s\<lparr>savedfd := (savedfd s)(c := d), fds := (fds s)(d \<mapsto> out, STDOUT_FILENO \<mapsto> f)\<rparr>)"
proof -
  obtain d where d: "d \<in> free_fds n s" "dup n STDOUT_FILENO s = (d, s\<lparr>fds := (fds s)(d \<mapsto> out)\<rparr>)" "fd \<noteq> d" "STDOUT_FILENO \<noteq> d"
    using save_free [OF assms] .
  then have "redirect_run F n ((c, Save) # (c, Switch fd) # xs) s =
    redirect_run F n xs (s\<lparr>savedfd := (savedfd s)(c := d), fds := (fds s)(d \<mapsto> out, STDOUT_FILENO \<mapsto> f)\<rparr>)" for F c xs
    using assms(2) by (simp add: save_step [OF d(2)] dup2_def)
  with that d(1,4) show thesis by blast
qed

lemma race:
  assumes io: "fds s STDOUT_FILENO = Some out" "fds s fda = Some a" "fds s fdb = Some b" "buffer s = []" "2 \<le> card (free_fds n s)"
    and lines: "line_buffered F" "ends_line ta" "ends_line tb" and ne: "a \<noteq> b" "a \<noteq> out" "b \<noteq> out"
  shows "\<exists>s'. redirect_run F n [(0, Save), (0, Switch fda), (1, Save), (1, Switch fdb), (0, Print ta), (0, Restore),
      (1, Print tb), (1, Restore)] s = s' \<and> fds s' STDOUT_FILENO = Some a \<and>
    sinks s' a = sinks s a \<and> sinks s' b = sinks s b @ ta \<and> sinks s' out = sinks s out @ tb"
proof -
  have "free_fds n s \<noteq> {}" using io(5) by auto
  then obtain d where d: "d \<in> free_fds n s" "STDOUT_FILENO \<noteq> d"
    "\<And>c F xs. redirect_run F n ((c, Save) # (c, Switch fda) # xs) s =
      redirect_run F n xs (s\<lparr>savedfd := (savedfd s)(c := d), fds := (fds s)(d \<mapsto> out, STDOUT_FILENO \<mapsto> a)\<rparr>)"
    using save_switch [OF io(1,2)] by blast
  let ?s = "s\<lparr>savedfd := (savedfd s)(0 := d), fds := (fds s)(d \<mapsto> out, STDOUT_FILENO \<mapsto> a)\<rparr>"
  have "free_fds n ?s = free_fds n s - {d}" using io(1) d(1) by (auto simp: free_fds_def)
  then have "card (free_fds n ?s) \<noteq> 0" using io(5) d(1) by simp
  then have f: "free_fds n ?s \<noteq> {}" by auto
  have b: "fds ?s STDOUT_FILENO = Some a" "fds ?s fdb = Some b \<or> fdb = STDOUT_FILENO" using free_other [OF d(1) io(3)] io(3) by auto
  have "fdb \<noteq> STDOUT_FILENO" using io(1,3) ne(3) by auto
  with b obtain e where e: "e \<in> free_fds n ?s" "STDOUT_FILENO \<noteq> e"
    "\<And>c F xs. redirect_run F n ((c, Save) # (c, Switch fdb) # xs) ?s =
      redirect_run F n xs (?s\<lparr>savedfd := (savedfd ?s)(c := e), fds := (fds ?s)(e \<mapsto> a, STDOUT_FILENO \<mapsto> b)\<rparr>)"
    using save_switch [of ?s a fdb b n, OF _ _ f] by blast
  have "fds ?s d = Some out" using d(2) by simp
  then have de: "d \<noteq> e" using free_other [OF e(1)] by blast
  show ?thesis using io(4) lines ne d(2) e(2) de
    by (simp add: d(3) e(3) print_line dup2_def)
qed

section \<open>The listing\<close>

lemma opens_prints:
  assumes "opens P (print_model P) s dev disk s1"
  obtains m where "stdout s1 = stdout s @ ''Parted device name: '' @ m @ nl"
  using assms by (auto simp: opens_def Let_def print_model_def did_def say_def)

lemma partition_info_lines: "ends_line (partition_info P i p w)"
  by (simp add: partition_info_def ends_line_def nl_def)

lemma listing_lines:
  assumes "opens P (print_model P) (nv s) dev disk s1" "cmd_listparts P s = Some s'"
  obtains t where "stdout (nv s') = stdout (nv s) @ t" "ends_line t"
    "t = drop (length (stdout (nv s))) (stdout s1) @ concat (map (\<lambda>i. case ped_disk_get_partition P disk i (lib s1) of
        None \<Rightarrow> [] | Some p \<Rightarrow> partition_info P i p (lib s1)) [1..15])"
proof -
  obtain m where m: "stdout s1 = stdout (nv s) @ ''Parted device name: '' @ m @ nl" by (rule opens_prints [OF assms(1)])
  let ?l = "concat (map (\<lambda>i. case ped_disk_get_partition P disk i (lib s1) of
        None \<Rightarrow> [] | Some p \<Rightarrow> partition_info P i p (lib s1)) [1..15])"
  obtain v where v: "nvmeListPartitions P (nv s) = Some (NVME_STATUS_OK, v)" "stdout v = stdout s1 @ ?l"
    using nvmeListPartitions_text [OF assms(1)] by blast
  have "ends_line (case q of None \<Rightarrow> [] | Some p \<Rightarrow> partition_info P i p (lib s1))" for q i
    by (cases q) (simp_all add: partition_info_lines ends_line_def [of "[]"])
  then have "ends_line ?l" by (intro ends_line_concat) auto
  moreover have "ends_line (''Parted device name: '' @ m @ nl)" by (simp add: ends_line_def nl_def)
  ultimately have "ends_line ((''Parted device name: '' @ m @ nl) @ ?l)" by (rule ends_line_append [rotated])
  moreover have "nv s' = v" using v(1) assms(2) by (auto simp: cmd_listparts_def redirected_def Let_def)
  ultimately show thesis using that [of "(''Parted device name: '' @ m @ nl) @ ?l"] v(2) m by simp
qed

section \<open>The hex dump\<close>

lemma hex_line_ends: "ends_line (hex_line bs i)"
  by (simp add: hex_line_def ends_line_def nl_def)

lemma hexDump_ends: "ends_line (hexDump (Some bs))"
proof -
  have "ends_line (hexDump_from bs i)" for i
  proof (induction bs i rule: hexDump_from.induct)
    case (1 bs i)
    then show ?case by (subst hexDump_from.simps) (auto intro: ends_line_append hex_line_ends simp: ends_line_def [of "[]"])
  qed
  then show ?thesis by (simp add: hexDump_def)
qed

section \<open>Examples\<close>

lemma by_line_ok: "line_buffered by_line"
  unfolding line_buffered_def
proof
  fix b :: string
  let ?t = "takeWhile (\<lambda>c. c \<noteq> CHR 0x0A) (rev b)"
  have "drop (by_line b) b = rev ?t"
    by (metis (no_types) by_line_def length_rev rev_rev_ident rev_take takeWhile_eq_take)
  then show "CHR 0x0A \<notin> set (drop (by_line b) b)" by (auto dest: set_takeWhileD)
qed

lemma example_free: "free_fds 8 example_io = {6, 7}"
  by (auto simp: free_fds_def example_io_def split: if_splits)

section \<open>Properties\<close>

text \<open>
  C19. As long as redirected operations do not overlap, the stream is line-buffered and the
  descriptors last, every client gets the texts of its own operations, in order and nothing else, and
  the standard output is back in its place; every operation uses up one descriptor.
\<close>

theorem redirect_delivers:
  assumes "fds s STDOUT_FILENO = Some out" "buffer s = []" "line_buffered F" "length ops \<le> card (free_fds n s)"
    "\<forall>(c, clientFD, ts) \<in> set ops. fds s clientFD \<noteq> None \<and> ends_line (concat ts)"
  shows "fds (redirect_run F n (redirected_ops ops) s) STDOUT_FILENO = Some out \<and>
    card (free_fds n (redirect_run F n (redirected_ops ops) s)) = card (free_fds n s) - length ops \<and>
    sinks (redirect_run F n (redirected_ops ops) s) f = sinks s f @ texts_for (fds s) f ops"
  using redirected_sequence [OF assms] by blast

text \<open>
  C20. What \<open>listparts\<close> prints is the name of the device and the partitions with numbers 1 to 15 in order. When the
  device opens, no other redirection is under way, a descriptor is free and the standard output is line-buffered and
  empty, exactly this text reaches the client, however it is cut into calls of \<open>printf\<close>. When the standard output
  is fully buffered and has room for the text, nothing of it reaches the client: it stays in the buffer.
\<close>

theorem listing_delivered:
  assumes "fds t STDOUT_FILENO = Some out" "fds t clientFD = Some f" "free_fds n t \<noteq> {}" "buffer t = []"
    and "opens P (print_model P) (nv s) dev disk s1" "cmd_listparts P s = Some s'"
    and "stdout (nv s') = stdout (nv s) @ concat ts"
    and listing: "listing = drop (length (stdout (nv s))) (stdout s1) @ concat (map (\<lambda>i. case ped_disk_get_partition P disk i (lib s1) of
      None \<Rightarrow> [] | Some p \<Rightarrow> partition_info P i p (lib s1)) [1..15])"
  shows "(line_buffered F \<longrightarrow> sinks (redirect_run F n (redirected_op c clientFD ts) t) f = sinks t f @ listing) \<and>
    (fully_buffered m F \<and> length listing < m \<longrightarrow>
       sinks (redirect_run F n (redirected_op c clientFD ts) t) f = sinks t f \<and>
       buffer (redirect_run F n (redirected_op c clientFD ts) t) = listing)"
proof -
  obtain u where u: "stdout (nv s') = stdout (nv s) @ u" "ends_line u" "u = listing"
    unfolding listing by (rule listing_lines [OF assms(5,6)]) blast
  then have e: "concat ts = listing" using assms(7) by simp
  have "sinks (redirect_run F n (redirected_op c clientFD ts) t) f = sinks t f @ listing" if l: "line_buffered F"
  proof -
    obtain d where "redirect_run F n (redirected_op c clientFD ts) t =
        t\<lparr>fds := (fds t)(d \<mapsto> out), sinks := (sinks t)(f := sinks t f @ concat ts), savedfd := (savedfd t)(c := d)\<rparr>"
      using redirected_delivers [OF assms(1-4) l, of ts c] u(2,3) e by metis
    then show ?thesis using e by simp
  qed
  with redirected_buffered [OF assms(1-3), of m F ts c] assms(4) e show ?thesis by simp
qed

text \<open>
  C18. When its buffer can be allocated and the device opened and read, the command to read \<open>k\<close> sectors of 512 bytes
  stays inside that buffer, releases it and shows the client what is in it: the whole sectors of the device that fit, read
  from sector 0 of the partition on, whatever offset was asked for; behind them the bytes \<open>malloc\<close> left, if the device
  has larger sectors; the last byte replaced by a zero. As text, with a send that succeeds, this is cut at the first zero
  and to the 1023 characters of a reply. As a dump it is printed, and reaches the client when no other redirection is under way, a
  descriptor is free and the standard output is line-buffered and empty.
\<close>

theorem read_command_delivers:
  assumes "sint n = int k" "0 < k" "k * 512 < 2 ^ 31"
    and "malloc H (mem (nv s)) (k * 512) = Some (a, bs)" "length bs = k * 512" "mem (nv s) a = None"
    and "opens P no_greeting (nv s) dev disk v" "ped_disk_get_partition P disk (sint part) (lib v) = Some p"
    and "dev_sector_size P dev (lib v) = int sector" "0 < sector" "sector < 2 ^ 31"
    and "ped_geometry_read P p 0 (int (k * 512 div sector)) (lib v) = (True, data, w)" "length data = k * 512 div sector * sector"
    and "buf = butlast (data @ drop (length data) bs) @ [0]"
    and io: "fds t STDOUT_FILENO = Some out" "fds t clientFD = Some f" "free_fds m t \<noteq> {}" "buffer t = []" "line_buffered F"
      "concat ts = hexDump (Some buf)"
  shows "\<exists>s' pre. read_sectors H P part off n printAsHex s = Some s' \<and> mem (nv s') = mem (nv s) \<and> lib (nv s') = w \<and>
    (if printAsHex
     then stdout (nv s') = pre @ hexDump (Some buf) \<and>
       sinks (redirect_run F m (redirected_op c clientFD ts) t) f = sinks t f @ hexDump (Some buf)
     else sent s' = pre @ socket_text (''Read '' @ text_of (takeWhile (\<lambda>b. b \<noteq> 0) buf) @ '' from socket'' @ nl))"
proof -
  have "ends_line (concat ts)" unfolding io(6) by (rule hexDump_ends)
  from redirected_delivers [OF io(1-5) this] obtain d where "redirect_run F m (redirected_op c clientFD ts) t =
      t\<lparr>fds := (fds t)(d \<mapsto> out), sinks := (sinks t)(f := sinks t f @ concat ts), savedfd := (savedfd t)(c := d)\<rparr>" by metis
  then have "sinks (redirect_run F m (redirected_op c clientFD ts) t) f = sinks t f @ hexDump (Some buf)" using io(6) by simp
  with read_sectors_shows [OF assms(1-14), of off printAsHex] show ?thesis by auto
qed

text \<open>
  C40. Two redirected operations that overlap send their texts to the wrong places: there is an order
  of their steps in which the text for the first client goes to the second, the text for the second to the
  server's own output, and afterwards everything the server prints goes to the first client.
\<close>

theorem redirect_race:
  assumes "fds s STDOUT_FILENO = Some out" "fds s fda = Some a" "fds s fdb = Some b" "buffer s = []" "2 \<le> card (free_fds n s)"
    and "line_buffered F" "ends_line ta" "ends_line tb" "a \<noteq> b" "a \<noteq> out" "b \<noteq> out"
  shows "\<exists>steps s'. filter (\<lambda>x. fst x = 0) steps = redirected_op 0 fda [ta] \<and>
    filter (\<lambda>x. fst x = 1) steps = redirected_op 1 fdb [tb] \<and> redirect_run F n steps s = s' \<and>
    fds s' STDOUT_FILENO = Some a \<and>
    sinks s' a = sinks s a \<and> sinks s' b = sinks s b @ ta \<and> sinks s' out = sinks s out @ tb"
  using race [OF assms]
  by (intro exI [of _ "[(0, Save), (0, Switch fda), (1, Save), (1, Switch fdb), (0, Print ta), (0, Restore),
      (1, Print tb), (1, Restore)]"]) (simp add: redirected_op_def)

theorem redirect_delivers_witness:
  "sinks (redirect_run by_line 8 (redirected_ops [(0, 4, [''one'' @ nl]), (1, 5, [''t'', ''wo'' @ nl])]) example_io) 5 = ''two'' @ nl"
proof -
  let ?ops = "[(0, 4, [''one'' @ nl]), (1, 5, [''t'', ''wo'' @ nl])] :: (nat \<times> int \<times> string list) list"
  have "fds example_io STDOUT_FILENO = Some 1" "buffer example_io = []" "length ?ops \<le> card (free_fds 8 example_io)"
    "\<forall>(c, clientFD, ts) \<in> set ?ops. fds example_io clientFD \<noteq> None \<and> ends_line (concat ts)"
    unfolding example_free by (auto simp: example_io_def STDOUT_FILENO_def ends_line_def nl_def)
  from redirect_delivers [OF this(1,2) by_line_ok this(3,4), of 5] show ?thesis by (simp add: example_io_def)
qed

theorem listing_delivered_witness:
  "\<exists>s' ts. cmd_listparts example_parted (session_start [] example_drive) = Some s' \<and>
     sinks (redirect_run by_line 8 (redirected_op 0 4 ts) example_io) 4 =
       ''Parted device name: disk'' @ nl @ partition_info example_parted 1 0 (lib example_drive) @
       partition_info example_parted 2 1 (lib example_drive)"
proof -
  let ?s = "session_start [] example_drive"
  have o: "opens example_parted (print_model example_parted) (nv ?s) 0 0
      (did (Opened 0) (lib example_drive) (print_model example_parted 0 example_drive))" using example_greet_opens by simp
  obtain s' where s': "cmd_listparts example_parted ?s = Some s'"
    using nvmeListPartitions_text [OF example_greet_opens] by (auto simp: cmd_listparts_def redirected_def Let_def)
  obtain u where u: "stdout (nv s') = stdout (nv ?s) @ concat [u]" using listing_lines [OF o s'] by fastforce
  have io: "fds example_io STDOUT_FILENO = Some 1" "fds example_io 4 = Some 4" "free_fds 8 example_io \<noteq> {}" "buffer example_io = []"
    unfolding example_free by (simp_all add: example_io_def STDOUT_FILENO_def)
  have "[1..15 :: int] = [1, 2, 3, 4, 5, 6, 7, 8, 9, 10, 11, 12, 13, 14, 15]" by (simp add: upto_rec1)
  moreover have "ped_disk_get_partition example_parted 0 n (lib example_drive)
       = (if n = 1 then Some 0 else if n = 2 then Some (Suc 0) else None)" for n
    by (simp_all add: example_simps)
  ultimately show ?thesis using listing_delivered [OF io o s' u refl, where F = by_line and c = 0 and m = 0] by_line_ok s'
    by (intro exI [of _ s'] exI [of _ "[u]"]) (simp add: print_model_def say_def example_io_def example_drive_def example_parted_def)
qed

theorem read_command_delivers_witness:
  "\<exists>s' pre. read_sectors example_host sector_parted 1 0 1 False sector_session = Some s' \<and>
     mem (nv s') = mem (nv sector_session) \<and>
     sent s' = pre @ socket_text (''Read '' @ replicate 511 (CHR ''A'') @ '' from socket'' @ nl)"
proof -
  let ?buf = "butlast (replicate 512 65 @ drop (length (replicate 512 (65 :: byte))) (replicate 512 170)) @ [0]"
  have t: "text_of (takeWhile (\<lambda>b. b \<noteq> 0) ?buf) = replicate 511 (CHR ''A'')"
    using chr_of_char [of "CHR ''A''"] by (simp add: butlast_conv_take text_of_def takeWhile_append)
  have n: "sint (1 :: cint) = int 1" "(0 :: nat) < 1" "(1 :: nat) * 512 < 2 ^ 31" "(0 :: nat) < 512" "(512 :: nat) < 2 ^ 31"
    "length (replicate 512 (170 :: byte)) = 1 * 512" "length (replicate 512 (65 :: byte)) = 1 * 512 div 512 * 512"
    "dev_sector_size sector_parted 0 (lib (nv sector_session)) = int 512"
    "ped_geometry_read sector_parted 0 0 (int (1 * 512 div 512)) (lib (nv sector_session)) = (True, replicate 512 65, lib (nv sector_session))"
    using sector_example(5,6) by simp_all
  have io: "fds example_io STDOUT_FILENO = Some 1" "fds example_io 4 = Some 4" "free_fds 8 example_io \<noteq> {}" "buffer example_io = []"
    "concat [hexDump (Some ?buf)] = hexDump (Some ?buf)"
    unfolding example_free by (simp_all add: example_io_def STDOUT_FILENO_def)
  from read_command_delivers [OF n(1-3) sector_example(1) n(6) sector_example(2,3), unfolded did_sel,
      OF sector_example(4) n(8,4,5,9,7) refl io(1-4) by_line_ok io(5), of 0 False]
  show ?thesis unfolding t by (simp only: if_False) blast
qed

theorem redirect_race_witness:
  "\<exists>steps. fds (redirect_run by_line 8 steps example_io) STDOUT_FILENO = Some 4 \<and>
     sinks (redirect_run by_line 8 steps example_io) 5 = ''one'' @ nl"
proof -
  have "fds example_io STDOUT_FILENO = Some 1" "fds example_io 4 = Some 4" "fds example_io 5 = Some 5" "buffer example_io = []"
    "2 \<le> card (free_fds 8 example_io)" "ends_line (''one'' @ nl)" "ends_line (''two'' @ nl)"
    unfolding example_free by (auto simp: example_io_def STDOUT_FILENO_def ends_line_def nl_def)
  from redirect_race [OF this(1-5) by_line_ok this(6,7)] show ?thesis by (auto simp: example_io_def)
qed

end
