(* ===== verification/DeviceLog.thy ===== *)
theory DeviceLog
  imports CharDriverProps ServerMain
begin

text \<open>
  The two programs together: the server's \<open>sendFullLog\<close> on the log that the character driver keeps.
  This is the configuration \<open>USE_AESD_CHAR_DEVICE\<close> of the server, in which \<open>LOG_PATH\<close> is
  \<open>/dev/aesdchar\<close>; the repository builds the other one, a regular file.
\<close>

section \<open>Sending the log of the device\<close>

text \<open>
  What \<open>read(fd, buf, sizeof(buf))\<close> returns to the loop of \<open>sendFullLog\<close>, call after call until the
  loop ends, when the descriptor belongs to the driver: an error, no byte at the end of the file, or a piece.
\<close>

fun device_reads :: "kernel \<Rightarrow> nat \<Rightarrow> u64 \<Rightarrow> driver \<Rightarrow> byte list option list option" where
  "device_reads K 0 f_pos d = None"
| "device_reads K (Suc fuel) f_pos d = do {
     (n, f_pos', buf) \<leftarrow> aesd_read K 64 f_pos d;
     if n = 0 then Some [Some []]
     else if sint n < 0 then Some [None]
     else map_option ((#) (Some buf)) (device_reads K fuel f_pos' d)
   }"

text \<open>
  \<open>sendFullLog\<close> on the device: opening it gives a descriptor at position 0, or fails; closing it releases the file.
\<close>

definition sendDeviceLog ::
    "kernel \<Rightarrow> nat \<Rightarrow> int \<Rightarrow> int list \<Rightarrow> int list \<Rightarrow> driver \<Rightarrow> ((int \<times> byte list \<times> int list) \<times> driver) option" where
  "sendDeviceLog K fuel fd ms fds d =
     (let (rc, d1) = aesd_open d in
      if rc \<noteq> 0 \<or> fd = - 1 then map_option (\<lambda>r. (r, d1)) (sendFullLog (- 1) [] ms fds)
      else do {
        rs \<leftarrow> device_reads K fuel 0 d1;
        r \<leftarrow> sendFullLog fd rs ms fds;
        Some (r, snd (aesd_release d1))
      })"

text \<open>The bytes the calls of \<open>write\<close> bring.\<close>

abbreviation written :: "(kernel \<times> u64) list \<Rightarrow> byte list list" where
  "written ws \<equiv> map (\<lambda>(K, count). fst (copy_from_user K count)) ws"

definition complete_line :: "byte list \<Rightarrow> bool" where
  "complete_line l \<longleftrightarrow> l \<noteq> [] \<and> last l = newline"

section \<open>What the reads deliver\<close>

lemma sint_of_nat_length:
  assumes "length bs < 2 ^ 31"
  shows "0 \<le> sint (of_nat (length bs) :: u64)"
proof -
  have "unat (of_nat (length bs) :: u64) = length bs" using assms by (intro unat_of_nat_u64) simp
  then have "uint (of_nat (length bs) :: u64) = int (length bs)" by (metis uint_nat)
  then show ?thesis using assms by (simp add: sint_uint signed_take_bit_int_eq_self)
qed

lemma device_reads_pieces:
  assumes inv: "drv_inv d" and ne: "drv_log d \<noteq> []" and user: "\<forall>bs. copy_to_user K bs = 0"
    and fuel: "length (concat (drv_log d)) - unat f_pos < fuel"
  shows "\<exists>cs. device_reads K fuel f_pos d = Some (map Some cs @ [Some []]) \<and> (\<forall>c \<in> set cs. c \<noteq> []) \<and>
    concat cs = drop (unat f_pos) (concat (drv_log d))"
  using fuel
proof (induction fuel arbitrary: f_pos)
  case (Suc fuel)
  have "(0 :: u64) < 64" by simp
  with inv ne user show ?case
  proof (cases rule: read_step [where f_pos = f_pos])
    case eof
    then show ?thesis by (intro exI [of _ "[]"]) simp
  next
    case (data bs)
    then have "length (concat (drv_log d)) - unat (f_pos + of_nat (length bs)) < fuel" using Suc.prems by (cases bs) auto
    from Suc.IH [OF this] obtain cs where cs: "device_reads K fuel (f_pos + of_nat (length bs)) d = Some (map Some cs @ [Some []])"
      "\<forall>c \<in> set cs. c \<noteq> []" "concat cs = drop (unat (f_pos + of_nat (length bs))) (concat (drv_log d))" by blast
    from cs data of_nat_length_nz [OF data(2,3)] sint_of_nat_length [OF data(3)] show ?thesis
      by (intro exI [of _ "bs # cs"]) (simp add: not_less [symmetric])
  qed
qed simp

lemma device_reads_whole:
  assumes inv: "drv_inv d" and user: "\<forall>bs. copy_to_user K bs = 0" and fuel: "length (concat (drv_log d)) < fuel"
  obtains cs where "device_reads K fuel 0 d = Some (map Some cs @ [Some []])" "\<forall>c \<in> set cs. c \<noteq> []"
    "concat cs = concat (drv_log d)"
proof (cases "drv_log d = []")
  case True
  obtain n where "fuel = Suc n" using fuel by (cases fuel) auto
  with True show thesis using that [of "[]"] aesd_read_empty [OF inv True, of K 64 0] user by simp
next
  case False
  from device_reads_pieces [OF inv False user, of 0 fuel] fuel that show thesis by auto
qed

lemma drv_log_open: "drv_log (snd (aesd_open d)) = drv_log d"
  by (simp add: drv_log_def aesd_open_def split: option.split)

lemma sendDeviceLog_ok:
  assumes "drv_inv d" "\<forall>bs. copy_to_user K bs = 0" "length (concat (drv_log d)) < fuel"
    and "fd \<noteq> - 1" "\<forall>m \<in> set ms. 1 \<le> m" "length (concat (drv_log d)) \<le> length ms"
  shows "sendDeviceLog K fuel fd ms fds d = Some ((0, concat (drv_log d), fds), snd (aesd_open d))"
proof -
  let ?d = "snd (aesd_open d)"
  have "length (concat (drv_log ?d)) < fuel" using assms(3) by (simp add: drv_log_open)
  with drv_inv_open [of d, THEN iffD2, OF assms(1)] assms(2) obtain cs where cs: "device_reads K fuel 0 ?d = Some (map Some cs @ [Some []])"
    "\<forall>c \<in> set cs. c \<noteq> []" "concat cs = concat (drv_log d)"
    by (rule device_reads_whole) (simp add: drv_log_open)
  have "sendFullLog fd (map Some cs @ [Some []]) ms fds = Some (0, concat (drv_log d), fds)"
    using send_log_progress [OF cs(2) assms(5), of fd "[]" "fd # fds"] cs(3) assms(4,6) by (simp add: sendFullLog_def)
  with cs(1) assms(4) show ?thesis by (simp add: sendDeviceLog_def aesd_open_def aesd_release_def)
qed

text \<open>When the device cannot copy to its caller, the client gets nothing and the descriptor is closed.\<close>

lemma sendDeviceLog_fails:
  assumes "drv_inv d" "drv_log d \<noteq> []" "\<forall>bs. copy_to_user K bs \<noteq> 0" "fd \<noteq> - 1" "0 < fuel"
  shows "sendDeviceLog K fuel fd ms fds d = Some ((- 1, [], fds), snd (aesd_open d))"
proof -
  let ?d = "snd (aesd_open d)"
  have d: "drv_inv ?d" "drv_log ?d \<noteq> []" using assms(1,2) by (simp_all add: drv_inv_open drv_log_open)
  have "0 < length (hd (drv_log ?d))"
    using drv_invE [OF d(1)] drv_log_facts(2) [OF d(1)] d(2) by (metis length_greater_0_conv list.set_sel(1))
  then have "locate (map length (drv_log ?d)) 0 \<noteq> None" using d(2) by (cases "drv_log ?d") auto
  then have "aesd_read K 64 0 ?d = Some (- EFAULT, 0, [])"
    using assms(3) by (auto simp: aesd_read_nonempty [OF d] Let_def)
  then have "device_reads K fuel 0 ?d = Some [None]" using assms(5) by (cases fuel) (simp_all add: EFAULT_def)
  then show ?thesis using assms(4) by (simp add: sendDeviceLog_def aesd_open_def aesd_release_def sendFullLog_def)
qed

section \<open>Whole lines\<close>

lemma last_n_snoc: "last_n n (last_n n xs @ [x]) = last_n n (xs @ [x])"
  by (cases "n \<le> length xs") (auto simp: last_n_def Suc_diff_le)

lemma spec_write_lines:
  assumes "\<forall>l \<in> set ls. complete_line l"
  shows "foldl spec_write ([], []) ls = (last_n AESDCHAR_MAX_WRITE_OPERATIONS_SUPPORTED ls, [])"
  using assms
proof (induction ls rule: rev_induct)
  case (snoc l ls)
  then show ?case by (simp add: complete_line_def last_n_snoc)
qed (simp add: last_n_def)

lemma length_concat_last_n: "length (concat (last_n n xs)) \<le> length (concat xs)"
proof -
  have "concat xs = concat (take (length xs - n) xs) @ concat (last_n n xs)"
    unfolding last_n_def concat_append [symmetric] by simp
  then show ?thesis by simp
qed

section \<open>Properties\<close>

text \<open>
  C15. The log of the whole system: after any complete lines were written to a freshly loaded driver, the
  server's \<open>sendFullLog\<close> on the device sends its client exactly the last ten of them, in order, returns 0 and
  leaves the descriptors and the driver as they were, but for its count of users; however \<open>send\<close> cuts the pieces of 64 bytes.
\<close>

theorem device_log_sent:
  assumes "aesd_init_module K0 loaded = Some (0, d)"
    and "\<forall>(K, count) \<in> set ws. write_succeeds K count" "\<forall>l \<in> set (written ws). complete_line l"
    and "2 * sum_list (map (unat \<circ> snd) ws) \<le> KMALLOC_MAX_SIZE"
    and "\<forall>bs. copy_to_user K bs = 0" "length (concat (written ws)) < fuel"
    and "fd \<noteq> - 1" "\<forall>m \<in> set ms. 1 \<le> m" "length (concat (written ws)) \<le> length ms"
  shows "\<exists>f_pos d'. aesd_write_all ws 0 d = Some (f_pos, d') \<and>
    sendDeviceLog K fuel fd ms fds d' =
      Some ((0, concat (last_n AESDCHAR_MAX_WRITE_OPERATIONS_SUPPORTED (written ws)), fds), snd (aesd_open d'))"
proof -
  let ?log = "last_n AESDCHAR_MAX_WRITE_OPERATIONS_SUPPORTED (written ws)"
  from aesd_write_all_correct [OF assms(2) aesd_init_inv(1) [OF assms(1)], of 0] assms(4)
  obtain f_pos d' where w: "aesd_write_all ws 0 d = Some (f_pos, d')" "drv_inv d'" "drv_log d' = ?log"
    by (auto simp: aesd_init_inv(2,3) [OF assms(1)] spec_write_lines [OF assms(3)])
  have "length (concat ?log) < fuel" "length (concat ?log) \<le> length ms"
    using assms(6,9) length_concat_last_n order.trans order.strict_trans1 by blast+
  with w sendDeviceLog_ok [OF w(2) assms(5) _ assms(7,8), of fuel fds] show ?thesis by simp
qed

theorem device_log_sent_witness:
  "\<exists>f_pos d. aesd_write_all [(example_kernel [97, 10], 2), (example_kernel [98, 99, 10], 3)] 0 fresh_device = Some (f_pos, d) \<and>
     sendDeviceLog (example_kernel []) 6 5 [2, 1, 1, 7, 64] [3] d = Some ((0, [97, 10, 98, 99, 10], [3]), snd (aesd_open d))"
proof -
  let ?ws = "[(example_kernel [97, 10], 2), (example_kernel [98, 99, 10], 3)]"
  have "\<forall>(K, count) \<in> set ?ws. write_succeeds K count" by (simp add: example_write_succeeds)
  from device_log_sent [OF fresh_device_init [of "[]"] this, of "example_kernel []" 6 5 "[2, 1, 1, 7, 64]" "[3]"] show ?thesis
    by (simp add: example_kernel_copy complete_line_def newline_def last_n_def CB_MAX KMALLOC_MAX_SIZE_def)
      (simp add: example_kernel_def)
qed

end
