(* ===== verification/Spec2Isabelle.thy ===== *)
theory Spec2Isabelle
  imports CharDriverProps ServerSystem StdoutRedirect DeviceLog
begin

text \<open>
  A verification of the two programs of the repository: the character driver
  \<open>aesd-char-driver/\<close> (a Linux kernel module that keeps the last ten newline-terminated writes)
  and the NVMe command server \<open>server/\<close> (a TCP server whose clients manage the partitions of a
  drive).

  \<^bold>\<open>Parts and theories.\<close>

  \<^item> \<open>Prelude\<close>: C integers as words with the conversions of an LP64 target, pointers and memory
    blocks (\<open>mem_read\<close>, \<open>mem_write\<close>, \<open>mem_free\<close>), windows of ring arrays, and \<open>locate\<close>, the
    reference search for a byte in a sequence of chunks. Undefined behaviour is \<open>None\<close> everywhere.
  \<^item> \<open>Interfaces\<close>: the contracts the components rely on, as locales: a bounded log that evicts its
    oldest entry (\<open>bounded_log\<close>), a bounded first-in first-out queue (\<open>bounded_fifo\<close>), simulation
    of a specification (\<open>simulation\<close>), calls that a monitor accepts (\<open>monitored\<close>), loops over
    events (\<open>event_loop\<close>) and runs that pay with a potential (\<open>amortized\<close>). Each is interpreted on the
    model of the code: \<open>cb\<close> in \<open>CircularBuffer\<close>; \<open>cq\<close>, \<open>qsim\<close> and \<open>qmon\<close> in \<open>CommandQueue\<close>; \<open>ll\<close> in
    \<open>ThreadList\<close>; \<open>srv\<close> and \<open>down\<close> in \<open>ServerSystem\<close>.
  \<^item> \<open>CircularBuffer\<close> models \<open>aesd-circular-buffer.c\<close> and its header: \<open>struct aesd_circular_buffer\<close>
    as a record, the function-static flag of \<open>aesd_circular_buffer_add_entry\<close> as explicit state. Shown:
    any history of additions keeps the last ten entries in order and returns each evicted pointer
    once; the position lookup agrees with \<open>locate\<close>; and the shared flag.
  \<^item> \<open>CharDriver\<close> models \<open>main.c\<close>, \<open>aesdchar.h\<close> and \<open>aesd_ioctl.h\<close>: every file operation and
    the module entry points over a heap of blocks. The kernel (\<open>kmalloc\<close>, \<open>krealloc\<close>,
    \<open>copy_from_user\<close>, ...) is a record of functions with named contracts. \<open>aesd_write\<close> is split at
    its steps (start, resize, copy, finish, commit) and proved to refine appending to a log; the debug
    output is left out. \<open>CharDriverDebug\<close> adds the write of the build with \<open>AESD_DEBUG\<close>, whose prints
    read stored commands as strings, and compares the two. \<open>CharDriverProps\<close>: reading to the end
    returns the log, seeking by command, unloading, the invariant of every reachable state, and
    exactly when the operations fault, in both builds.
  \<^item> \<open>NvmeInterface\<close> models \<open>nvmeInterface.c\<close>: each function over a record of libparted and
    libnvme functions on an opaque world, with the calls made recorded. Shown: only partitions whose name
    was checked are deleted or written; the outcome of each operation; the geometry requested for new
    partitions (the library may still align it); bounds of reads; what writes and successful
    operations leave behind.
  \<^item> \<open>CommandQueue\<close> models \<open>commandQueue.c\<close>; the critical sections are atomic steps. Shown: it
    refines a list of at most ten commands, in order.
  \<^item> \<open>ServerText\<close>: \<open>strtok_r\<close>, \<open>atoi\<close>, \<open>sendOnSocketf\<close> (with its error returns) and \<open>hexDump\<close> of
    \<open>aesdsocket.c\<close> with their reference functions.
  \<^item> \<open>CommandServer\<close> models the thread \<open>repsondingThread\<close> that serves a client: the receive loop, the
    splitting, every command and the replies. What \<open>recv\<close> answers is a list of pieces, errors and
    \<open>RecvSilent\<close>, a client that stays connected and sends nothing more, on which the thread waits for
    good; at the end of the list the client has closed. The sends of a connected client succeed.
    \<open>CommandServerProps\<close> has its properties.
  \<^item> \<open>ThreadList\<close> models the list macros of \<open>queue.h\<close> on a heap of nodes and \<open>listenLoop\<close>. What the
    other threads and the system do is one event per round.
  \<^item> \<open>ServerMain\<close> models the rest of \<open>aesdsocket.c\<close> up to \<open>main\<close>, with the system's answers as
    arguments.
  \<^item> \<open>ServerSystem\<close> runs the main thread, the client threads and signals together: every thread in
    atomic steps on the thread list, the drive, the client descriptors and \<open>endProgram\<close>. Shown for every
    interleaving: the invariant that ties threads, nodes and descriptors together, that no thread uses a freed
    node, that only the handling of a message and a missing node of memory can fault, that the server
    shuts down in a bounded number of steps unless a client stays silent, and that such a client
    keeps it from ending.
  \<^item> \<open>StdoutRedirect\<close> models how the text of a command reaches its client: the descriptor table, \<open>dup\<close>,
    \<open>dup2\<close> and the buffer of \<open>stdout\<close>. Shown: with a line-buffered stream and a free descriptor,
    operations that do not overlap deliver their texts, the listing and the dump of a sector among
    them; overlapping ones, a full table and a fully buffered stream do not.
  \<^item> \<open>DeviceLog\<close> puts the two programs together: the server's \<open>sendFullLog\<close> on the log of the driver, the
    configuration \<open>USE_AESD_CHAR_DEVICE\<close> of \<open>aesdsocket.c\<close>. Shown: the client gets the last ten lines
    written to the device. The fuel counts the calls of \<open>read\<close>, each of which takes at least one byte.
  \<^item> This theory: \<open>main\<close> from start to end, and that the interleaved system is what it runs.

  \<^bold>\<open>Reading the models.\<close> A C struct is a record, an enumeration a datatype, an \<open>int\<close> or sized
  integer a word at its width; sector numbers of libparted are integers, since the code only adds
  32-bit numbers to them. Functions of the program keep their names. A function that can run into
  undefined behaviour returns an option; status codes are values. Loops are recursive functions; a loop over linked
  nodes, which a cycle would make endless, is a partial function into an option, and the theorems prove
  that it returns. The thread's loop has fuel \<open>recv_size inp + 2\<close>: a round that leaves the thread
  active takes at least one piece or byte from the client's stream, and \<open>thread_guarded\<close> shows that
  the fuel never runs out. The byte counters of the receive loop are natural numbers; where the code's
  \<open>int totalBytesRecvd\<close> would overflow, the model is undefined (\<open>int_overflows\<close>).

  \<^bold>\<open>Assumptions.\<close> Properties that need something of a library state it: \<open>kernel_ok\<close> for the
  kernel's allocation and copying, \<open>realloc_ok\<close> and \<open>mallocs\<close> for the C library's,
  \<open>stable_table\<close> for lookups of the partition table that leave it as it is and show it when they succeed (they
  may fail at any time), \<open>all_served\<close> and \<open>admissible\<close> for memory and threads being available and new
  descriptors being unused,
  \<open>line_buffered\<close> for the stream \<open>stdout\<close>. Each has an instance on which the witnesses evaluate the code.

  \<^bold>\<open>Interleaving.\<close> A round of a client thread, from receiving a message to its last reply, is one
  step on the drive, and so are a round of the accept loop and the joining of a thread. The code takes
  no lock around its calls of libparted; what two commands running at the same time do to each other
  inside the library is outside the model. \<open>ThreadList\<close> and \<open>main\<close> see the client threads only
  through the marks an event brings; \<open>main_follows_system\<close> shows that the threads of \<open>ServerSystem\<close>
  produce such events. What a client is going to send is fixed when it connects; when it arrives is
  open, since a thread may take its next step at any time, and a client that falls silent is a
  step its thread cannot take. What operations print is kept in the drive's state;
  where it goes when commands redirect the standard output of the whole process is modelled apart,
  in \<open>StdoutRedirect\<close>.

  \<^bold>\<open>Not modelled.\<close> The performance jobs and \<open>initPerfSystem\<close> (\<open>perfInterface\<close> is not in the
  repository), libparted and libnvme, the kernel's character device registration beyond its results, log and debug
  output (apart from the two prints of \<open>CharDriverDebug\<close>; the server also prints arguments that can be null
  pointers, which the C library shows as a text),
  \<open>printClientNameConnected\<close> and \<open>printClientNameDisconnected\<close> (they only log), the types for
  performance commands in \<open>commandQueue.h\<close>, which no code uses, the macros of \<open>queue.h\<close> the
  server does not use, and the scripts.
\<close>

section \<open>Specification notions\<close>

text \<open>
  Answers of the system with the given result of \<open>bind\<close>, and a failing \<open>accept\<close>.
\<close>

definition example_answers :: "int \<Rightarrow> open_answers" where
  "example_answers b = \<lparr>a_socket = 3, a_getaddrinfo = 0, a_setsockopt = 0, a_bind = b, a_fork = 0, a_setsid = 1,
     a_null = 4, a_dup_in = 0, a_dup_out = 1, a_dup_err = 2\<rparr>"

definition failed_accept :: "nat \<Rightarrow> accept_event" where
  "failed_accept n = \<lparr>accepted = - 1, interrupted = False, ending_accept = False, node_at = Some n,
     thread_made = Some (100 + n), completed = [], ending = False\<rparr>"

definition example_world :: "int \<Rightarrow> accept_event list \<Rightarrow> main_world" where
  "example_world b es = \<lparr>answers = example_answers b, log_mutex_rc = 0, queue_mutex_ok = True, events = es, remove_rc = 0\<rparr>"

section \<open>Properties\<close>

text \<open>
  C13. As long as memory and threads can be had for every connection, the code of the main thread runs
  without undefined behaviour, and when \<open>main\<close> returns, the address list is freed, every client
  thread was joined exactly once, every node of the thread list is freed, and of the descriptors
  \<open>main\<close> itself opens (the listening socket and the \<open>/dev/null\<close> of a daemon) only the latter can
  be open. What the client threads open or allocate, such as client descriptors, copies of the
  standard output and message buffers, is no part of this; some of it is never released.
\<close>

theorem main_cleans_up:
  assumes "all_served (events w) no_threads"
  shows "case main argv w (initial_server log) of
      None \<Rightarrow> False
    | Some (Main_returned rc s t q) \<Rightarrow> \<not> addrinfo s \<and> sockfd s = - 1 \<and>
        set (openFds s) \<subseteq> (if runAsDaemon s then {a_null (answers w)} else {}) \<and>
        nodes t = Map.empty \<and> mset (joined t) = mset (map fst (created t))
    | _ \<Rightarrow> True"
proof (cases "parse_args argv (initial_server log)")
  case None
  then show ?thesis by (simp add: main_def initial_server_def no_threads_def)
next
  case (Some s1)
  then have s1: "\<not> addrinfo s1" "sockfd s1 = - 1" "openFds s1 = []"
    by (auto simp: parse_args_def initial_server_def split: if_splits)
  obtain r s2 where o: "openSocket (answers w) s1 = (r, s2)" by fastforce
  note l = listenLoop_correct [OF assms [unfolded no_threads_def], of NULL, folded no_threads_def]
  show ?thesis
  proof (cases r)
    case (Exits c)
    with Some o show ?thesis by (simp add: main_def)
  next
    case (Returns c)
    note c = open_then_clean [OF o [unfolded Returns] s1, of "remove_rc w", unfolded Let_def]
    from l c Some o Returns show ?thesis
      by (auto simp: main_def Let_def no_threads_def split: option.splits listen_end.splits if_splits prod.splits)
  qed
qed

text \<open>
  C14. The interleaved system is what \<open>main\<close> runs: a run of main thread, client threads and signals
  that comes to its end, on the state in which \<open>openSocket\<close> left the program, is a run of
  \<open>main\<close> that returns 0 with the same thread list, on the same connections with the marks the
  threads made in between.
\<close>

theorem main_follows_system:
  assumes "parse_args argv s = Some s1" "openSocket (answers w) s1 = (Returns c, s2)" "log_mutex_rc w = 0"
    and "server_run H P (server_start s2 v) acts r" "listener r = Done"
  shows "\<exists>es s' q. map unmarked es = connections acts \<and>
    main argv (w\<lparr>events := es\<rparr>) s = Some (Main_returned 0 s' (slist r) q) \<and> sockfd s' = - 1"
proof -
  obtain es xs where es: "map unmarked es = connections acts" "server_inv r xs" "follows es r xs"
    using server_run_follows [OF assms(4)] by blast
  note l = follows_done [OF es(2,3) assms(5)]
  have "sockfd (snd (cleanupProgram rc s2)) = - 1" for rc by (simp add: cleanupProgram_def Let_def)
  with l es(1) assms(1-3) show ?thesis by (auto simp: main_def Let_def split: prod.splits)
qed

text \<open>
  C39. When the socket cannot be opened, \<open>main\<close> goes on all the same, since the result of
  \<open>openSocket\<close> is overwritten: every failing \<open>accept\<close> then starts one more thread, on client
  descriptor -1.
\<close>

theorem main_runs_without_socket:
  assumes "parse_args argv s = Some s1" "openSocket (answers w) s1 = (Returns (- 1), s2)" "log_mutex_rc w = 0"
    and "all_served (events w) no_threads"
    and "\<forall>e \<in> set (events w). accepted e = - 1 \<and> \<not> interrupted e \<and> \<not> ending e"
  shows "\<exists>t q. main argv w s = Some (Main_waiting s2 t q) \<and>
    created t = map (\<lambda>e. (the (thread_made e), - 1)) (events w)"
proof -
  have i: "SLIST_INIT no_threads = no_threads" by (simp add: SLIST_INIT_def no_threads_def)
  obtain t where t: "listen_loop (events w) no_threads = Some (True, t)"
    "created t = created no_threads @ map (\<lambda>e. (the (thread_made e), - 1)) (events w)"
    using failing_accepts [OF no_threads_inv assms(4,5)] by blast
  have "listenLoop (events w) no_threads = Some (Waiting t)" using t(1) i by (simp add: listenLoop_def)
  with assms(1-3) have "\<exists>q. main argv w s = Some (Main_waiting s2 t q)"
    by (simp add: main_def split: prod.splits)
  with t(2) show ?thesis by (auto simp: no_threads_def)
qed

theorem main_cleans_up_witness:
  "\<exists>s t q. main [''aesdsocket'', ''-d''] (example_world 0 example_events) (initial_server None) = Some (Main_returned 0 s t q) \<and>
     sockfd s = - 1 \<and> set (openFds s) \<subseteq> {4} \<and> mset (joined t) = mset (map fst (created t))"
proof -
  let ?m = "main [''aesdsocket'', ''-d''] (example_world 0 example_events) (initial_server None)"
  have "case ?m of Some (Main_returned rc s t q) \<Rightarrow> rc = 0 | _ \<Rightarrow> False" by code_simp
  then obtain s t q where r: "?m = Some (Main_returned 0 s t q)"
    by (auto split: option.splits main_end.splits)
  have "all_served (events (example_world 0 example_events)) no_threads" by code_simp
  from main_cleans_up [OF this, of "[''aesdsocket'', ''-d'']" None] r show ?thesis
    by (auto simp: example_world_def example_answers_def split: if_splits)
qed

theorem main_runs_without_socket_witness:
  "\<exists>s t q. main [''aesdsocket''] (example_world (- 1) [failed_accept 1, failed_accept 2]) (initial_server None) =
     Some (Main_waiting s t q) \<and> created t = [(101, - 1), (102, - 1)]"
proof -
  let ?w = "example_world (- 1) [failed_accept 1, failed_accept 2]"
  have "parse_args [''aesdsocket''] (initial_server None) = Some (initial_server None)" by (simp add: parse_args_def)
  moreover have "\<exists>s2. openSocket (answers ?w) (initial_server None) = (Returns (- 1), s2)"
    by (simp add: openSocket_def example_world_def example_answers_def initial_server_def Let_def)
  moreover have "all_served (events ?w) no_threads" by code_simp
  ultimately show ?thesis using main_runs_without_socket [of "[''aesdsocket'']" "initial_server None" "initial_server None" ?w]
    by (auto simp: example_world_def failed_accept_def)
qed

theorem main_follows_system_witness:
  "\<exists>es t s' q. map unmarked es = connections example_run \<and>
     main [''aesdsocket''] (example_world 0 es) (initial_server None) = Some (Main_returned 0 s' t q) \<and> sockfd s' = - 1"
proof -
  let ?w = "example_world 0 []"
  have "parse_args [''aesdsocket''] (initial_server None) = Some (initial_server None)" by (simp add: parse_args_def)
  moreover have "case openSocket (answers ?w) (initial_server None) of
      (Returns c, s2) \<Rightarrow> (case server_exec example_host example_parted example_run (server_start s2 example_drive) of
        Some r \<Rightarrow> listener r = Done | None \<Rightarrow> False)
    | _ \<Rightarrow> False" by code_simp
  then obtain c s2 r where "openSocket (answers ?w) (initial_server None) = (Returns c, s2)" "listener r = Done"
    "server_exec example_host example_parted example_run (server_start s2 example_drive) = Some r"
    by (auto split: prod.splits open_end.splits option.splits)
  moreover have "log_mutex_rc ?w = 0" by (simp add: example_world_def)
  ultimately show ?thesis
    using main_follows_system [of "[''aesdsocket'']" "initial_server None" "initial_server None" ?w c s2 example_host example_parted example_drive example_run r]
      server_execD [of example_host example_parted example_run "server_start s2 example_drive" r]
    by (auto simp: example_world_def)
qed

end
